(* ===== verification/Prelude.thy ===== *)
theory Prelude
  imports Main "HOL-Library.Word"
begin

text \<open>
  Shared vocabulary of the development.

  \<^item> \<open>errno\<close> is the part of \<open>Errno\<close> (\<open>kernel/aster-nix/src/error.rs\<close>) that the modelled code returns,
    with the discriminants of the source (\<open>errno_code\<close>).
  \<^item> Fallible code returns \<open>'a res\<close>, that is \<open>fault + 'a\<close>: \<open>Inr\<close> is \<open>Ok\<close>, \<open>Inl (Errno e)\<close> is \<open>Err\<close>
    and \<open>Inl Panic\<close> is a Rust panic (\<open>assert!\<close>, \<open>unwrap\<close>, an index out of range, checked arithmetic
    that overflows). \<open>bind_res\<close> is the \<open>?\<close> operator.
  \<^item> \<open>kernel_laws\<close> collects the equations of small wrappers that component proofs unfold.
\<close>

unbundle bit_operations_syntax

named_theorems kernel_laws \<open>equations that unfold the small wrappers of the model\<close>

section \<open>Machine types\<close>

type_synonym u8 = "8 word"
type_synonym u16 = "16 word"
type_synonym u32 = "32 word"
type_synonym u64 = "64 word"
type_synonym usize = "64 word"
type_synonym vaddr = nat
type_synonym paddr = nat

text \<open>\<open>usize::MAX + 1\<close> on the only supported target, x86-64.\<close>

abbreviation USIZE_RANGE :: nat where
  "USIZE_RANGE \<equiv> 18446744073709551616"

abbreviation PAGE_SIZE :: nat where
  "PAGE_SIZE \<equiv> 4096"

section \<open>Error values\<close>

datatype (plugins only: code) errno =
    EPERM | ENOENT | ESRCH | EINTR | EIO | ENXIO | E2BIG | ENOEXEC | EBADF | ECHILD | EAGAIN
  | ENOMEM | EACCES | EFAULT | ENOTBLK | EBUSY | EEXIST | EXDEV | ENODEV | ENOTDIR | EISDIR
  | EINVAL | ENFILE | EMFILE | ENOTTY | ETXTBSY | EFBIG | ENOSPC | ESPIPE | EROFS | EMLINK
  | EPIPE | EDOM | ERANGE | ENAMETOOLONG | ENOTEMPTY | EOVERFLOW

fun errno_code :: "errno \<Rightarrow> int" where
  "errno_code EPERM = 1"
| "errno_code ENOENT = 2"
| "errno_code ESRCH = 3"
| "errno_code EINTR = 4"
| "errno_code EIO = 5"
| "errno_code ENXIO = 6"
| "errno_code E2BIG = 7"
| "errno_code ENOEXEC = 8"
| "errno_code EBADF = 9"
| "errno_code ECHILD = 10"
| "errno_code EAGAIN = 11"
| "errno_code ENOMEM = 12"
| "errno_code EACCES = 13"
| "errno_code EFAULT = 14"
| "errno_code ENOTBLK = 15"
| "errno_code EBUSY = 16"
| "errno_code EEXIST = 17"
| "errno_code EXDEV = 18"
| "errno_code ENODEV = 19"
| "errno_code ENOTDIR = 20"
| "errno_code EISDIR = 21"
| "errno_code EINVAL = 22"
| "errno_code ENFILE = 23"
| "errno_code EMFILE = 24"
| "errno_code ENOTTY = 25"
| "errno_code ETXTBSY = 26"
| "errno_code EFBIG = 27"
| "errno_code ENOSPC = 28"
| "errno_code ESPIPE = 29"
| "errno_code EROFS = 30"
| "errno_code EMLINK = 31"
| "errno_code EPIPE = 32"
| "errno_code EDOM = 33"
| "errno_code ERANGE = 34"
| "errno_code ENAMETOOLONG = 36"
| "errno_code ENOTEMPTY = 39"
| "errno_code EOVERFLOW = 75"

datatype fault = Errno errno | Panic

type_synonym 'a res = "fault + 'a"

abbreviation Err :: "errno \<Rightarrow> 'a res" where
  "Err e \<equiv> Inl (Errno e)"

abbreviation Ok :: "'a \<Rightarrow> 'e + 'a" where
  "Ok x \<equiv> Inr x"

abbreviation panic :: "'a res" where
  "panic \<equiv> Inl Panic"

text \<open>The crates below the kernel have error types of their own, so the \<open>?\<close> operator and the loop below are
  defined for any error type \<open>'e\<close>; \<open>('e, 'a) pres\<close> is a result whose error is \<open>'e\<close> or a panic.\<close>

datatype 'e pfault = Throws 'e | Panics

type_synonym ('e, 'a) pres = "'e pfault + 'a"

definition bind_res :: "'e + 'a \<Rightarrow> ('a \<Rightarrow> 'e + 'b) \<Rightarrow> 'e + 'b" where
  "bind_res m f = (case m of Inl e \<Rightarrow> Inl e | Inr x \<Rightarrow> f x)"

text \<open>\<open>usize\<close> addition with the overflow check of the development profile, on values below \<open>USIZE_RANGE\<close>.\<close>

definition uadd :: "nat \<Rightarrow> nat \<Rightarrow> nat res" where
  "uadd a b = (if a + b < USIZE_RANGE then Ok (a + b) else panic)"

definition puadd :: "nat \<Rightarrow> nat \<Rightarrow> ('e, nat) pres" where
  "puadd a b = (if a + b < USIZE_RANGE then Inr (a + b) else Inl Panics)"

text \<open>A loop that threads a state through a list and stops at the first fault.\<close>

fun fold_res :: "('x \<Rightarrow> 's \<Rightarrow> 'e + 's) \<Rightarrow> 'x list \<Rightarrow> 's \<Rightarrow> 'e + 's" where
  "fold_res f [] s = Ok s"
| "fold_res f (x # xs) s = bind_res (f x s) (fold_res f xs)"

text \<open>Computations that change a state \<open>'s\<close> and may fault: the state reached at the fault is kept, because
  the effects before an early return remain.\<close>

type_synonym ('e, 's, 'a) esr = "'s \<Rightarrow> ('e + 'a) \<times> 's"
type_synonym ('s, 'a) sr = "(fault, 's, 'a) esr"

definition sr_return :: "'a \<Rightarrow> ('e, 's, 'a) esr" where
  "sr_return x s = (Ok x, s)"

definition sr_lift :: "'e + 'a \<Rightarrow> ('e, 's, 'a) esr" where
  "sr_lift r s = (r, s)"

definition sr_get :: "('s \<Rightarrow> 'a) \<Rightarrow> ('e, 's, 'a) esr" where
  "sr_get f s = (Ok (f s), s)"

definition sr_mod :: "('s \<Rightarrow> 's) \<Rightarrow> ('e, 's, unit) esr" where
  "sr_mod f s = (Ok (), f s)"

definition sr_bind :: "('e, 's, 'a) esr \<Rightarrow> ('a \<Rightarrow> ('e, 's, 'b) esr) \<Rightarrow> ('e, 's, 'b) esr" where
  "sr_bind m f s = (case m s of (Inl e, s') \<Rightarrow> (Inl e, s') | (Inr x, s') \<Rightarrow> f x s')"

text \<open>A loop whose body may fault; the effects of the iterations before the fault remain.\<close>

fun sr_iter :: "('x \<Rightarrow> ('e, 's, unit) esr) \<Rightarrow> 'x list \<Rightarrow> ('e, 's, unit) esr" where
  "sr_iter f [] = sr_return ()"
| "sr_iter f (x # xs) = sr_bind (f x) (\<lambda>_. sr_iter f xs)"

text \<open>Unsigned 64-bit subtraction with the overflow check.\<close>

definition usub64 :: "u64 \<Rightarrow> u64 \<Rightarrow> u64 res" where
  "usub64 a b = (if b \<le> a then Ok (a - b) else panic)"

section \<open>Generic lemmas\<close>

lemma sr_simps [simp]:
  "sr_return x s = (Ok x, s)" "sr_lift r s = (r, s)" "sr_get g s = (Ok (g s), s)" "sr_mod h s = (Ok (), h s)"
  by (simp_all add: sr_return_def sr_lift_def sr_get_def sr_mod_def)

lemma sr_bind_simps [simp]:
  "m s = (Inl e, s') \<Longrightarrow> sr_bind m f s = (Inl e, s')"
  "m s = (Inr x, s') \<Longrightarrow> sr_bind m f s = f x s'"
  by (simp_all add: sr_bind_def)

lemma sr_bind_eq_Ok:
  "sr_bind m f s = (Inr y, s'') \<longleftrightarrow> (\<exists>x s'. m s = (Inr x, s') \<and> f x s' = (Inr y, s''))"
  by (auto simp: sr_bind_def split: prod.splits sum.splits)

lemma bind_res_simps [simp]:
  "bind_res (Inl e) f = Inl e"
  "bind_res (Inr x) f = f x"
  by (simp_all add: bind_res_def)

lemma bind_res_eq_Inr [simp]:
  "bind_res m f = Inr y \<longleftrightarrow> (\<exists>x. m = Inr x \<and> f x = Inr y)"
  by (cases m) auto

lemma bind_res_eq_Inl:
  "bind_res m f = Inl e \<longleftrightarrow> m = Inl e \<or> (\<exists>x. m = Inr x \<and> f x = Inl e)"
  by (cases m) auto

lemma uadd_eq_Inr [simp]: "uadd a b = Inr c \<longleftrightarrow> a + b < USIZE_RANGE \<and> c = a + b"
  by (auto simp: uadd_def)

lemma uadd_ok: "a + b < USIZE_RANGE \<Longrightarrow> uadd a b = Inr (a + b)"
  by (simp add: uadd_def)

lemma puadd_ok: "a + b < USIZE_RANGE \<Longrightarrow> puadd a b = Inr (a + b)"
  by (simp add: puadd_def)

lemma fold_res_append: "fold_res f (xs @ ys) s = bind_res (fold_res f xs s) (fold_res f ys)"
  by (induction xs arbitrary: s) (auto simp: bind_res_def split: sum.splits)

text \<open>Total correctness of such a loop: an invariant that every iteration keeps without a fault.\<close>

lemma fold_res_total:
  assumes "I xs s" and "\<And>x xs s. I (x # xs) s \<Longrightarrow> \<exists>s'. f x s = Ok s' \<and> I xs s'"
  shows "\<exists>s'. fold_res f xs s = Ok s' \<and> I [] s'"
  using assms(1)
proof (induction xs arbitrary: s)
  case Nil
  then show ?case by simp
next
  case (Cons x xs)
  from assms(2) [OF Cons.prems] obtain s' where "f x s = Ok s'" "I xs s'" by blast
  with Cons.IH show ?case by simp
qed

subsection \<open>Words\<close>

lemma of_nat_unat_id: "of_nat (unat w) = (w :: 'a::len word)"
  by simp

lemma word_eq_of_nat_iff: "unat w = n \<Longrightarrow> w = of_nat n"
  by (metis of_nat_unat_id)

text \<open>\<open>i32\<close> values and their sign extension to \<open>usize\<close>.\<close>

lemma sint32: "sint (w :: 32 word) = (if unat w < 2 ^ 31 then int (unat w) else int (unat w) - 2 ^ 32)"
proof -
  define n where "n = int (unat w)"
  have n: "0 \<le> n" "n < 2 ^ 32"
    using unsigned_less [of w, where ?'a = int] by (simp_all add: n_def)
  have "sint w = (n + 2 ^ 31) mod 2 ^ 32 - 2 ^ 31"
    using int_word_sint [of "uint w", where ?'a = 32] by (simp add: n_def)
  also have "\<dots> = (if n < 2 ^ 31 then n else n - 2 ^ 32)"
  proof (cases "n < 2 ^ 31")
    case True
    then show ?thesis using n by (subst mod_pos_pos_trivial) auto
  next
    case False
    have "(n + 2 ^ 31) mod 2 ^ 32 = (n + 2 ^ 31 - 2 ^ 32) mod 2 ^ 32" by (simp only: minus_mod_self2)
    also have "\<dots> = n + 2 ^ 31 - 2 ^ 32" using n False by (intro mod_pos_pos_trivial) auto
    finally show ?thesis using False by simp
  qed
  also have "n < 2 ^ 31 \<longleftrightarrow> unat w < 2 ^ 31"
    unfolding n_def by (metis of_nat_less_iff of_nat_numeral of_nat_power)
  finally show ?thesis by (simp add: n_def)
qed

lemma scast32:
  "unat (scast (w :: 32 word) :: 64 word) = (if unat w < 2 ^ 31 then unat w else 2 ^ 64 - 2 ^ 32 + unat w)"
proof -
  define n where "n = unat w"
  have u: "n < 2 ^ 32" using unsigned_less [of w, where ?'a = nat] by (simp add: n_def)
  have s: "sint w = (if n < 2 ^ 31 then int n else int n - 2 ^ 32)"
    unfolding n_def by (rule sint32)
  have "int (unat (scast w :: 64 word)) = uint (word_of_int (sint w) :: 64 word)" by simp
  also have "\<dots> = sint w mod 2 ^ 64" by (subst uint_word_of_int) simp
  also have "\<dots> = int (if n < 2 ^ 31 then n else 2 ^ 64 - 2 ^ 32 + n)"
  proof (cases "n < 2 ^ 31")
    case True
    then show ?thesis by (simp add: s)
  next
    case False
    have "(int n - 2 ^ 32) mod 2 ^ 64 = (int n - 2 ^ 32 + 2 ^ 64) mod (2 ^ 64 :: int)"
      by (simp only: mod_add_self2)
    also have "\<dots> = int n - 2 ^ 32 + 2 ^ 64" using u False by (intro mod_pos_pos_trivial) auto
    finally show ?thesis using False by (simp add: s)
  qed
  finally show ?thesis unfolding n_def of_nat_eq_iff .
qed

subsection \<open>Lists\<close>

lemma nth_list_update_if:
  "i < length xs \<Longrightarrow> xs[i := x] ! j = (if i = j then x else xs ! j)"
  by (simp add: nth_list_update)

lemma find_SomeD: "find P xs = Some x \<Longrightarrow> x \<in> set xs \<and> P x"
  by (auto simp: find_Some_iff)

lemma find_upt_Some:
  assumes "find P [m..<n] = Some i"
  shows "m \<le> i \<and> i < n \<and> P i \<and> (\<forall>j. m \<le> j \<longrightarrow> j < i \<longrightarrow> \<not> P j)"
proof -
  from assms obtain k where k: "k < length [m..<n]" "P ([m..<n] ! k)" "i = [m..<n] ! k"
    "\<forall>j<k. \<not> P ([m..<n] ! j)"
    by (auto simp: find_Some_iff)
  then have i: "i = m + k" and n: "m + k < n" by auto
  have "\<not> P j" if "m \<le> j" "j < i" for j
    using k(4) that i n by (auto dest!: spec [of _ "j - m"])
  with i n k show ?thesis by auto
qed

lemma find_upt_None: "find P [m..<n] = None \<longleftrightarrow> (\<forall>j. m \<le> j \<longrightarrow> j < n \<longrightarrow> \<not> P j)"
  by (auto simp: find_None_iff)

lemma count_filter_update:
  assumes "i < length xs"
  shows "length (filter P (xs[i := y])) + (if P (xs ! i) then 1 else 0)
       = length (filter P xs) + (if P y then 1 else 0)"
  using assms
proof (induction xs arbitrary: i)
  case Nil
  then show ?case by simp
next
  case (Cons x xs)
  show ?case
  proof (cases i)
    case 0
    then show ?thesis by simp
  next
    case (Suc k)
    with Cons.prems have "k < length xs" by simp
    from Cons.IH [OF this] Suc show ?thesis by simp
  qed
qed

lemma length_filter_eq_length_iff:
  "length (filter P xs) = length xs \<longleftrightarrow> (\<forall>i < length xs. P (xs ! i))"
  by (metis all_set_conv_all_nth filter_id_conv filter_True length_filter_less less_irrefl)

end
