(* ===== verification/Align_Ext.thy ===== *)
theory Align_Ext
  imports Prelude
begin

text \<open>
  \<open>framework/libs/align_ext/src/lib.rs\<close>: alignment of unsigned integers to powers of two, by masking.
  The trait is implemented for \<open>u8\<close> to \<open>usize\<close>; the model is polymorphic in the width.
  The reference functions \<open>align_up_nat\<close> and \<open>align_down_nat\<close> round by division; the theorems show
  that the masking code computes them, and panics exactly where its documentation says.
\<close>

section \<open>The code\<close>

definition is_power_of_two :: "'a::len word \<Rightarrow> bool" where
  "is_power_of_two self \<longleftrightarrow> self \<noteq> 0 \<and> self AND (self - 1) = 0"

definition checked_add :: "'a::len word \<Rightarrow> 'a word \<Rightarrow> 'a word option" where
  "checked_add a b = (if unat a + unat b < 2 ^ LENGTH('a) then Some (a + b) else None)"

definition align_up :: "'a::len word \<Rightarrow> 'a word \<Rightarrow> 'a word res" where
  "align_up self align =
     (if is_power_of_two align \<and> 2 \<le> align
      then (case checked_add self (align - 1) of
              None \<Rightarrow> panic
            | Some s \<Rightarrow> Ok (s AND NOT (align - 1)))
      else panic)"

definition align_down :: "'a::len word \<Rightarrow> 'a word \<Rightarrow> 'a word res" where
  "align_down self align =
     (if is_power_of_two align \<and> 2 \<le> align then Ok (self AND NOT (align - 1)) else panic)"

section \<open>Reference functions\<close>

definition align_up_nat :: "nat \<Rightarrow> nat \<Rightarrow> nat" where
  "align_up_nat n a = (n + (a - 1)) div a * a"

definition align_down_nat :: "nat \<Rightarrow> nat \<Rightarrow> nat" where
  "align_down_nat n a = n div a * a"

text \<open>The \<open>usize\<close> instance on addresses read as natural numbers, for a constant alignment such as
  \<open>PAGE_SIZE\<close>; \<open>usize_align_up_refines\<close> relates it to the code.\<close>

definition usize_align_up :: "nat \<Rightarrow> nat \<Rightarrow> nat res" where
  "usize_align_up n a = (if n + (a - 1) < USIZE_RANGE then Ok (align_up_nat n a) else panic)"

section \<open>Properties of the reference functions\<close>

lemma align_down_nat_le: "align_down_nat n a \<le> n"
  by (simp add: align_down_nat_def)

lemma align_down_nat_dvd [simp]: "a dvd align_down_nat n a"
  by (simp add: align_down_nat_def)

lemma align_up_nat_dvd [simp]: "a dvd align_up_nat n a"
  by (simp add: align_up_nat_def)

lemma align_up_nat_ge:
  assumes "0 < a"
  shows "n \<le> align_up_nat n a"
proof -
  have "(n + (a - 1)) div a * a + (n + (a - 1)) mod a = n + (a - 1)" by simp
  moreover have "(n + (a - 1)) mod a < a" using assms by simp
  ultimately show ?thesis unfolding align_up_nat_def by linarith
qed

lemma align_up_nat_less:
  assumes "0 < a"
  shows "align_up_nat n a < n + a"
proof -
  have "(n + (a - 1)) div a * a \<le> n + (a - 1)" by simp
  with assms show ?thesis unfolding align_up_nat_def by linarith
qed

lemma align_up_nat_least:
  assumes "0 < a" "a dvd m" "n \<le> m"
  shows "align_up_nat n a \<le> m"
proof -
  from \<open>a dvd m\<close> obtain k where k: "m = k * a" by (auto simp: dvd_def mult.commute)
  have "(n + (a - 1)) div a \<le> (m + (a - 1)) div a"
    using assms by (intro div_le_mono) simp
  also have "\<dots> = k" using div_mult_self3 [of a k "a - 1"] assms(1) by (simp add: k)
  finally show ?thesis unfolding align_up_nat_def k by (rule mult_le_mono1)
qed

lemma align_down_nat_greatest:
  assumes "0 < a" "a dvd m" "m \<le> n"
  shows "m \<le> align_down_nat n a"
proof -
  from \<open>a dvd m\<close> obtain k where k: "m = k * a" by (auto simp: dvd_def mult.commute)
  have "k \<le> n div a" using assms k by (simp add: less_eq_div_iff_mult_less_eq)
  then show ?thesis by (simp add: align_down_nat_def k)
qed

lemma align_up_nat_id [simp]: "0 < a \<Longrightarrow> a dvd n \<Longrightarrow> align_up_nat n a = n"
  by (meson align_up_nat_ge align_up_nat_least le_antisym order_refl)

lemma align_down_nat_id [simp]: "a dvd n \<Longrightarrow> align_down_nat n a = n"
  by (simp add: align_down_nat_def)

lemma align_up_nat_mono: "0 < a \<Longrightarrow> m \<le> n \<Longrightarrow> align_up_nat m a \<le> align_up_nat n a"
  by (meson align_up_nat_dvd align_up_nat_ge align_up_nat_least le_trans)

section \<open>Masking computes the reference functions\<close>

lemma nat_and_pred_eq_0:
  "n \<noteq> 0 \<Longrightarrow> n AND (n - 1) = 0 \<Longrightarrow> \<exists>k. n = 2 ^ k" for n :: nat
proof (induction n rule: less_induct)
  case (less n)
  show ?case
  proof (cases "even n")
    case True
    then obtain m where m: "n = 2 * m" by auto
    with less.prems have "m \<noteq> 0" by simp
    have "n - 1 = 1 + 2 * (m - 1)" using m \<open>m \<noteq> 0\<close> by simp
    then have "n AND (n - 1) = 2 * (m AND (m - 1))"
      by (subst and_rec) (simp add: m)
    with less.prems(2) have "m AND (m - 1) = 0" by simp
    with less.IH [of m] \<open>m \<noteq> 0\<close> m obtain k where "m = 2 ^ k" by auto
    with m have "n = 2 ^ Suc k" by simp
    then show ?thesis ..
  next
    case False
    then obtain m where m: "n = 1 + 2 * m" by (auto elim: oddE)
    then have "n AND (n - 1) = 2 * m"
      by (subst and_rec) simp
    with less.prems(2) have "m = 0" by simp
    with m have "n = 2 ^ 0" by simp
    then show ?thesis ..
  qed
qed

lemma nat_and_pred_pow2: "2 ^ k AND (2 ^ k - 1) = (0::nat)"
proof -
  have "2 ^ k AND (2 ^ k - 1 :: nat) = take_bit k (2 ^ k)"
    by (simp add: take_bit_eq_mask mask_eq_exp_minus_1)
  then show ?thesis by simp
qed

lemma is_power_of_two_iff: "is_power_of_two a \<longleftrightarrow> (\<exists>k. unat a = 2 ^ k)"
proof (cases "a = 0")
  case True
  then show ?thesis by (simp add: is_power_of_two_def)
next
  case False
  then have "unat (a - 1) = unat a - 1" and "unat a \<noteq> 0"
    by (simp_all add: unat_minus_one unat_eq_zero)
  moreover have "a AND (a - 1) = 0 \<longleftrightarrow> unat a AND unat (a - 1) = 0"
    by (metis unsigned_and_eq unat_eq_zero)
  ultimately show ?thesis
    using False nat_and_pred_eq_0 nat_and_pred_pow2 by (metis is_power_of_two_def)
qed

lemma unat_and_not_pred_pow2:
  fixes x a :: "'a::len word"
  assumes "unat a = 2 ^ k"
  shows "unat (x AND NOT (a - 1)) = align_down_nat (unat x) (unat a)"
proof -
  have a: "a = 2 ^ k" using assms by (metis of_nat_numeral of_nat_power of_nat_unat_id)
  then have am: "a - 1 = mask k" by (simp add: mask_eq_exp_minus_1)
  have "x = (x AND NOT (mask k)) OR (x AND mask k)"
    by (auto simp: bit_eq_iff bit_simps)
  also have "\<dots> = (x AND NOT (mask k)) + (x AND mask k)"
    by (rule disjunctive_add [symmetric]) (auto simp: bit_simps)
  finally have "x AND NOT (mask k) = x - take_bit k x"
    by (simp add: take_bit_eq_mask) (metis add_diff_cancel_right')
  moreover have "take_bit k x \<le> x"
    by (simp add: word_le_nat_alt unsigned_take_bit_eq)
  ultimately have "unat (x AND NOT (a - 1)) = unat x - unat (take_bit k x)"
    by (simp add: am unat_sub)
  also have "\<dots> = unat x - unat x mod 2 ^ k"
    by (simp only: unsigned_take_bit_eq flip: take_bit_eq_mod)
  finally show ?thesis
    by (simp add: align_down_nat_def assms minus_mod_eq_div_mult)
qed

lemma pow2_ge_2_iff:
  fixes a :: "'a::len word"
  assumes "2 \<le> LENGTH('a)"
  shows "is_power_of_two a \<and> 2 \<le> a \<longleftrightarrow> (\<exists>k\<ge>1. unat a = 2 ^ k)"
proof -
  have "(2::nat) ^ 1 < 2 ^ LENGTH('a)" by (rule power_strict_increasing) (use assms in auto)
  then have "unat (of_nat 2 :: 'a word) = 2" by (subst unat_of_nat) (simp add: take_bit_eq_mod)
  then have "unat (2 :: 'a word) = 2" by simp
  then have le: "2 \<le> a \<longleftrightarrow> 2 \<le> unat a" by (simp add: word_le_nat_alt)
  have "2 \<le> (2::nat) ^ k \<longleftrightarrow> 1 \<le> k" for k
    by (cases k) auto
  then show ?thesis by (auto simp: is_power_of_two_iff le)
qed

lemma align_down_eq:
  fixes x a :: "'a::len word"
  assumes "2 \<le> LENGTH('a)"
  shows "align_down x a =
    (if \<exists>k\<ge>1. unat a = 2 ^ k then Ok (of_nat (align_down_nat (unat x) (unat a))) else panic)"
proof (cases "\<exists>k\<ge>1. unat a = 2 ^ k")
  case True
  then obtain k where "unat a = 2 ^ k" by auto
  then have "x AND NOT (a - 1) = of_nat (align_down_nat (unat x) (unat a))"
    by (metis unat_and_not_pred_pow2 of_nat_unat_id)
  with True show ?thesis using pow2_ge_2_iff [OF assms, of a] by (simp add: align_down_def)
next
  case False
  then show ?thesis using pow2_ge_2_iff [OF assms, of a] by (auto simp: align_down_def)
qed

lemma align_up_eq:
  fixes x a :: "'a::len word"
  assumes "2 \<le> LENGTH('a)"
  shows "align_up x a =
    (if (\<exists>k\<ge>1. unat a = 2 ^ k) \<and> unat x + (unat a - 1) < 2 ^ LENGTH('a)
     then Ok (of_nat (align_up_nat (unat x) (unat a))) else panic)"
proof (cases "\<exists>k\<ge>1. unat a = 2 ^ k")
  case True
  then obtain k where k: "unat a = 2 ^ k" by auto
  then have "a \<noteq> 0" by auto
  then have pred: "unat (a - 1) = unat a - 1" by (rule unat_minus_one)
  show ?thesis
  proof (cases "unat x + (unat a - 1) < 2 ^ LENGTH('a)")
    case True': True
    then have "unat (x + (a - 1)) = unat x + (unat a - 1)"
      using pred by (simp add: unat_word_ariths)
    then have "x + (a - 1) AND NOT (a - 1) = of_nat (align_up_nat (unat x) (unat a))"
      using unat_and_not_pred_pow2 [OF k, of "x + (a - 1)"]
      by (metis align_down_nat_def align_up_nat_def of_nat_unat_id)
    then show ?thesis using True True' pow2_ge_2_iff [OF assms, of a] pred
      by (simp add: align_up_def checked_add_def)
  next
    case False
    then show ?thesis using True pow2_ge_2_iff [OF assms, of a] pred
      by (simp add: align_up_def checked_add_def)
  qed
next
  case False
  then show ?thesis using pow2_ge_2_iff [OF assms, of a] by (auto simp: align_up_def)
qed

lemma usize_align_up_refines:
  fixes x a :: usize
  assumes "unat a = 2 ^ k" "1 \<le> k"
  shows "map_sum (\<lambda>e. e) unat (align_up x a) = usize_align_up (unat x) (unat a)"
proof (cases "unat x + (unat a - 1) < USIZE_RANGE")
  case True
  have "align_up_nat (unat x) (unat a) < USIZE_RANGE"
    using True unfolding align_up_nat_def by (rule le_less_trans [OF div_times_less_eq_dividend])
  then have "unat (of_nat (align_up_nat (unat x) (unat a)) :: usize) = align_up_nat (unat x) (unat a)"
    by (simp add: unat_of_nat take_bit_eq_mod)
  with True assms show ?thesis by (auto simp: align_up_eq usize_align_up_def)
next
  case False
  with assms show ?thesis by (auto simp: align_up_eq usize_align_up_def)
qed

section \<open>Properties\<close>

text \<open>(C35) \<open>align_up\<close> on \<open>usize\<close> is correct: it returns exactly when the alignment is a power of two not
  below 2 and \<open>self + (align - 1)\<close> does not overflow (it panics otherwise), and what it returns is the
  least multiple of the alignment that is not below the argument; \<open>align_down\<close> returns the greatest
  multiple that is not above it.\<close>

theorem align_up_down_correct:
  fixes x a :: usize
  shows "((\<exists>y. align_up x a = Ok y) \<longleftrightarrow> (\<exists>k\<ge>1. unat a = 2 ^ k) \<and> unat x + (unat a - 1) < 2 ^ 64)
    \<and> ((\<exists>y. align_down x a = Ok y) \<longleftrightarrow> (\<exists>k\<ge>1. unat a = 2 ^ k))
    \<and> (\<forall>y. align_up x a = Ok y \<longrightarrow> unat a dvd unat y \<and> unat x \<le> unat y
         \<and> (\<forall>m. unat a dvd m \<longrightarrow> unat x \<le> m \<longrightarrow> unat y \<le> m))
    \<and> (\<forall>y. align_down x a = Ok y \<longrightarrow> unat a dvd unat y \<and> unat y \<le> unat x
         \<and> (\<forall>m. unat a dvd m \<longrightarrow> m \<le> unat x \<longrightarrow> m \<le> unat y))"
proof -
  have up: "unat y = align_up_nat (unat x) (unat a)" "0 < unat a" if "align_up x a = Ok y" for y
  proof -
    from that have c: "\<exists>k\<ge>1. unat a = 2 ^ k" "unat x + (unat a - 1) < 2 ^ 64"
      by (auto simp: align_up_eq split: if_splits)
    then show "0 < unat a" by auto
    then have "align_up_nat (unat x) (unat a) < 2 ^ 64"
      using align_up_nat_less [of "unat a" "unat x"] c(2) by linarith
    then show "unat y = align_up_nat (unat x) (unat a)"
      using that by (auto simp: align_up_eq unat_of_nat take_bit_nat_eq_self split: if_splits)
  qed
  have down: "unat y = align_down_nat (unat x) (unat a)" "0 < unat a" if "align_down x a = Ok y" for y
  proof -
    from that have "\<exists>k\<ge>1. unat a = 2 ^ k" by (auto simp: align_down_eq split: if_splits)
    then show "0 < unat a" by auto
    have "align_down_nat (unat x) (unat a) < 2 ^ 64"
      using align_down_nat_le [of "unat x" "unat a"] unsigned_less [of x, where ?'a = nat] by simp
    then show "unat y = align_down_nat (unat x) (unat a)"
      using that by (auto simp: align_down_eq unat_of_nat take_bit_nat_eq_self split: if_splits)
  qed
  have e: "(\<exists>y. align_up x a = Ok y) \<longleftrightarrow> (\<exists>k\<ge>1. unat a = 2 ^ k) \<and> unat x + (unat a - 1) < 2 ^ 64"
    "(\<exists>y. align_down x a = Ok y) \<longleftrightarrow> (\<exists>k\<ge>1. unat a = 2 ^ k)"
    by (auto simp: align_up_eq align_down_eq)
  show ?thesis
    using e up down align_up_nat_ge align_up_nat_least align_down_nat_le align_down_nat_greatest by auto
qed

theorem align_up_down_correct_witness:
  "align_up 4097 (4096 :: usize) = Ok 8192 \<and> unat (4096 :: usize) dvd unat (8192 :: usize)"
proof -
  have "align_up 4097 (4096 :: usize) = Ok 8192"
    by (simp add: align_up_def is_power_of_two_def checked_add_def)
  with align_up_down_correct [of 4097 4096] show ?thesis by blast
qed

end
