(* ===== verification/Id_Pool.thy ===== *)
theory Id_Pool
  imports Prelude
begin

text \<open>
  The contract of an identifier allocator, as its clients rely on it: an allocated identifier was not
  live before, and is until it is released. \<open>IdAlloc\<close> (\<open>Id_Alloc\<close>), the slot vector (\<open>Slot_Vec\<close>) and
  \<open>RecycleAllocator\<close> (\<open>Recycle_Allocator\<close>) provide it. \<open>can_free\<close> is the provider's precondition of a
  release.
\<close>

datatype pool_op = PoolAlloc | PoolFree nat

locale id_pool =
  fixes alloc :: "'s \<Rightarrow> (nat \<times> 's) option"
    and free :: "nat \<Rightarrow> 's \<Rightarrow> 's option"
    and live :: "'s \<Rightarrow> nat set"
    and can_free :: "'s \<Rightarrow> nat \<Rightarrow> bool"
    and inv :: "'s \<Rightarrow> bool"
  assumes alloc_fresh: "inv s \<Longrightarrow> alloc s = Some (i, s') \<Longrightarrow> i \<notin> live s"
    and alloc_live: "inv s \<Longrightarrow> alloc s = Some (i, s') \<Longrightarrow> live s' = insert i (live s)"
    and alloc_inv: "inv s \<Longrightarrow> alloc s = Some (i, s') \<Longrightarrow> inv s'"
    and free_ok: "inv s \<Longrightarrow> can_free s i \<Longrightarrow> free i s \<noteq> None"
    and free_live: "inv s \<Longrightarrow> can_free s i \<Longrightarrow> free i s = Some s' \<Longrightarrow> live s' = live s - {i}"
    and free_inv: "inv s \<Longrightarrow> can_free s i \<Longrightarrow> free i s = Some s' \<Longrightarrow> inv s'"
begin

text \<open>A client's run: the identifiers it holds, newest first, or \<open>None\<close> where a release breaks the
  precondition.\<close>

fun run :: "pool_op list \<Rightarrow> nat list \<Rightarrow> 's \<Rightarrow> (nat list \<times> 's) option" where
  "run [] held s = Some (held, s)"
| "run (PoolAlloc # ops) held s =
     (case alloc s of None \<Rightarrow> run ops held s | Some (i, s') \<Rightarrow> run ops (i # held) s')"
| "run (PoolFree i # ops) held s =
     (if i \<in> set held \<and> can_free s i
      then (case free i s of None \<Rightarrow> None | Some s' \<Rightarrow> run ops (filter (\<lambda>j. j \<noteq> i) held) s')
      else None)"

lemma run_held_distinct:
  "inv s \<Longrightarrow> distinct held \<Longrightarrow> set held \<subseteq> live s \<Longrightarrow> run ops held s = Some (held', s') \<Longrightarrow>
   distinct held' \<and> set held' \<subseteq> live s' \<and> inv s'"
proof (induction ops held s rule: run.induct)
  case (2 ops held s)
  show ?case
  proof (cases "alloc s")
    case None
    with 2 show ?thesis by simp
  next
    case (Some p)
    obtain i t where p: "p = (i, t)" by (cases p)
    have a: "alloc s = Some (i, t)" using Some p by simp
    from alloc_fresh [OF "2.prems"(1) a] alloc_live [OF "2.prems"(1) a] alloc_inv [OF "2.prems"(1) a]
      "2.prems"(2,3) have "inv t" "distinct (i # held)" "set (i # held) \<subseteq> live t" by auto
    with "2.IH"(2) [OF a refl] "2.prems"(4) a show ?thesis by simp
  qed
next
  case (3 i ops held s)
  then have c: "i \<in> set held" "can_free s i" by (auto split: if_splits)
  then obtain t where t: "free i s = Some t" using free_ok "3.prems"(1) by blast
  from free_live [OF "3.prems"(1) c(2) t] free_inv [OF "3.prems"(1) c(2) t] "3.prems"(2,3)
  have "inv t" "distinct (filter (\<lambda>j. j \<noteq> i) held)" "set (filter (\<lambda>j. j \<noteq> i) held) \<subseteq> live t"
    by auto
  with "3.IH" [OF _ t] c t "3.prems"(4) show ?case by simp
qed auto

end

end
