(* ===== verification/Slot_Vec.thy ===== *)
theory Slot_Vec
  imports Id_Pool
begin

text \<open>
  \<open>kernel/libs/aster-util/src/slot_vec.rs\<close>: a vector whose items keep their index while others are added
  and removed. It backs the file table and the directory entries of the in-memory file system.
  \<open>slots\<close> is \<open>Vec<Option<T>>\<close>, \<open>num_occupied\<close> the cached count. A Rust panic is the result \<open>None\<close> of
  the operations that can reach one (\<open>put\<close>, through \<open>position(..).unwrap()\<close>).
  The abstraction of a slot vector is the finite map \<open>sv_lookup\<close> from index to item.
\<close>

section \<open>The code\<close>

record 'a slot_vec =
  slots :: "'a option list"
  num_occupied :: nat

definition sv_new :: "'a slot_vec" where
  "sv_new = \<lparr>slots = [], num_occupied = 0\<rparr>"

definition sv_is_empty :: "'a slot_vec \<Rightarrow> bool" where
  "sv_is_empty v \<longleftrightarrow> num_occupied v = 0"

definition sv_len :: "'a slot_vec \<Rightarrow> nat" where
  "sv_len v = num_occupied v"

definition slots_len :: "'a slot_vec \<Rightarrow> nat" where
  "slots_len v = length (slots v)"

definition sv_get :: "'a slot_vec \<Rightarrow> nat \<Rightarrow> 'a option" where
  "sv_get v idx = (if length (slots v) \<le> idx then None else slots v ! idx)"

text \<open>\<open>self.slots.iter().position(|x| x.is_none())\<close>\<close>

fun position_none :: "'a option list \<Rightarrow> nat option" where
  "position_none [] = None"
| "position_none (None # xs) = Some 0"
| "position_none (Some _ # xs) = map_option Suc (position_none xs)"

definition sv_put :: "'a \<Rightarrow> 'a slot_vec \<Rightarrow> (nat \<times> 'a slot_vec) option" where
  "sv_put entry v =
     (if num_occupied v = length (slots v)
      then Some (length (slots v @ [Some entry]) - 1,
                 v\<lparr>slots := slots v @ [Some entry], num_occupied := num_occupied v + 1\<rparr>)
      else (case position_none (slots v) of
              None \<Rightarrow> None
            | Some idx \<Rightarrow>
                Some (idx, v\<lparr>slots := (slots v)[idx := Some entry],
                             num_occupied := num_occupied v + 1\<rparr>)))"

definition resize_with_none :: "nat \<Rightarrow> 'a option list \<Rightarrow> 'a option list" where
  "resize_with_none n xs = take n xs @ replicate (n - length xs) None"

definition sv_put_at :: "nat \<Rightarrow> 'a \<Rightarrow> 'a slot_vec \<Rightarrow> 'a option \<times> 'a slot_vec" where
  "sv_put_at idx item v =
     (let s = (if length (slots v) \<le> idx then resize_with_none (idx + 1) (slots v) else slots v);
          sub_item = s ! idx
      in (sub_item, v\<lparr>slots := s[idx := Some item],
                      num_occupied := (if sub_item = None then num_occupied v + 1
                                       else num_occupied v)\<rparr>))"

definition sv_remove :: "nat \<Rightarrow> 'a slot_vec \<Rightarrow> 'a option \<times> 'a slot_vec" where
  "sv_remove idx v =
     (if length (slots v) \<le> idx then (None, v)
      else let del_item = slots v ! idx
           in (del_item, v\<lparr>slots := (slots v)[idx := None],
                           num_occupied := (if del_item = None then num_occupied v
                                            else num_occupied v - 1)\<rparr>))"

definition idxes_and_items :: "'a slot_vec \<Rightarrow> (nat \<times> 'a) list" where
  "idxes_and_items v =
     map (\<lambda>(i, x). (i, the x)) (filter (\<lambda>(_, x). x \<noteq> None) (enumerate 0 (slots v)))"

definition sv_iter :: "'a slot_vec \<Rightarrow> 'a list" where
  "sv_iter v = map the (filter (\<lambda>x. x \<noteq> None) (slots v))"

section \<open>Abstraction and invariant\<close>

definition sv_lookup :: "'a slot_vec \<Rightarrow> nat \<rightharpoonup> 'a" where
  "sv_lookup v i = (if i < length (slots v) then slots v ! i else None)"

definition sv_inv :: "'a slot_vec \<Rightarrow> bool" where
  "sv_inv v \<longleftrightarrow> num_occupied v = length (filter (\<lambda>x. x \<noteq> None) (slots v))"

section \<open>Lemmas\<close>

lemma sv_get_lookup [simp]: "sv_get v = sv_lookup v"
  by (auto simp: sv_get_def sv_lookup_def)

lemma sv_lookup_Some_less: "sv_lookup v i = Some x \<Longrightarrow> i < length (slots v)"
  by (auto simp: sv_lookup_def split: if_splits)

lemma position_none_Some:
  "position_none xs = Some i \<Longrightarrow>
     i < length xs \<and> xs ! i = None \<and> (\<forall>j < i. xs ! j \<noteq> None)"
proof (induction xs arbitrary: i rule: position_none.induct)
  case (3 x xs)
  then obtain k where k: "position_none xs = Some k" "i = Suc k" by auto
  from "3.IH" [OF k(1)] k(2) show ?case
    by (auto simp: nth_Cons split: nat.splits)
qed auto

lemma position_none_None: "position_none xs = None \<longleftrightarrow> None \<notin> set xs"
  by (induction xs rule: position_none.induct) auto

lemma num_occupied_le: "sv_inv v \<Longrightarrow> num_occupied v \<le> length (slots v)"
  by (simp add: sv_inv_def)

lemma sv_full_iff:
  "sv_inv v \<Longrightarrow> num_occupied v = length (slots v) \<longleftrightarrow> None \<notin> set (slots v)"
  by (auto simp: sv_inv_def length_filter_eq_length_iff in_set_conv_nth)

lemma sv_inv_new: "sv_inv sv_new"
  by (simp add: sv_inv_def sv_new_def)

lemma sv_lookup_new: "sv_lookup sv_new = Map.empty"
  by (auto simp: sv_lookup_def sv_new_def)

lemma sv_put_total:
  assumes "sv_inv v"
  obtains i v' where "sv_put x v = Some (i, v')"
  using assms position_none_None [of "slots v"] sv_full_iff [OF assms]
  by (cases "num_occupied v = length (slots v)") (auto simp: sv_put_def)

lemma sv_put_spec:
  assumes inv: "sv_inv v" and put: "sv_put x v = Some (i, v')"
  shows "sv_lookup v i = None" "sv_lookup v' = (sv_lookup v)(i \<mapsto> x)" "sv_inv v'"
    "\<forall>j < i. sv_lookup v j \<noteq> None"
proof -
  have "sv_lookup v i = None \<and> sv_lookup v' = (sv_lookup v)(i \<mapsto> x) \<and> sv_inv v'
    \<and> (\<forall>j < i. sv_lookup v j \<noteq> None)"
  proof (cases "num_occupied v = length (slots v)")
    case True
    with put have "i = length (slots v)" and v': "v' = v\<lparr>slots := slots v @ [Some x], num_occupied := num_occupied v + 1\<rparr>"
      by (auto simp: sv_put_def)
    moreover have "None \<notin> set (slots v)" using sv_full_iff [OF inv] True by simp
    then have "\<forall>j < length (slots v). slots v ! j \<noteq> None" by (metis nth_mem)
    ultimately show ?thesis using inv
      by (auto simp: sv_lookup_def sv_inv_def nth_append fun_eq_iff)
  next
    case False
    with put have pos: "position_none (slots v) = Some i"
      and v': "v' = v\<lparr>slots := (slots v)[i := Some x], num_occupied := num_occupied v + 1\<rparr>"
      by (auto simp: sv_put_def split: option.splits)
    from position_none_Some [OF pos] have i: "i < length (slots v)" "slots v ! i = None"
      "\<forall>j < i. slots v ! j \<noteq> None" by auto
    moreover have "sv_inv v'"
      using count_filter_update [OF i(1), of "\<lambda>x. x \<noteq> None" "Some x"] inv i(2)
      by (simp add: sv_inv_def v')
    ultimately show ?thesis
      by (auto simp: sv_lookup_def v' nth_list_update fun_eq_iff)
  qed
  then show "sv_lookup v i = None" "sv_lookup v' = (sv_lookup v)(i \<mapsto> x)" "sv_inv v'"
    "\<forall>j < i. sv_lookup v j \<noteq> None" by auto
qed

lemma filter_resize_with_none:
  "length xs \<le> n \<Longrightarrow> filter (\<lambda>x. x \<noteq> None) (resize_with_none n xs) = filter (\<lambda>x. x \<noteq> None) xs"
  by (simp add: resize_with_none_def)

lemma nth_resize_with_none:
  "length xs \<le> n \<Longrightarrow> i < n \<Longrightarrow>
   resize_with_none n xs ! i = (if i < length xs then xs ! i else None)"
  by (simp add: resize_with_none_def nth_append)

lemma length_resize_with_none [simp]: "length (resize_with_none n xs) = n"
  by (simp add: resize_with_none_def)

lemma sv_put_at_spec:
  assumes inv: "sv_inv v" and put: "sv_put_at i x v = (old, v')"
  shows "old = sv_lookup v i" "sv_lookup v' = (sv_lookup v)(i \<mapsto> x)" "sv_inv v'"
proof -
  define s where "s = (if length (slots v) \<le> i then resize_with_none (i + 1) (slots v) else slots v)"
  have len: "i < length s" by (auto simp: s_def)
  have s_nth: "s ! j = sv_lookup v j" if "j < length s" for j
    using that by (auto simp: s_def sv_lookup_def nth_resize_with_none)
  have cnt: "length (filter (\<lambda>x. x \<noteq> None) s) = num_occupied v"
    using inv by (simp add: s_def sv_inv_def filter_resize_with_none del: not_None_eq)
  have old: "old = s ! i" and v': "v' = v\<lparr>slots := s[i := Some x],
      num_occupied := (if s ! i = None then num_occupied v + 1 else num_occupied v)\<rparr>"
    using put by (auto simp: sv_put_at_def Let_def s_def)
  show "old = sv_lookup v i" using old s_nth [OF len] by simp
  have out: "sv_lookup v j = None" if "\<not> j < length s" for j
    using that by (auto simp: s_def sv_lookup_def split: if_splits)
  show "sv_lookup v' = (sv_lookup v)(i \<mapsto> x)"
  proof
    fix j
    have "slots v' = s[i := Some x]" by (simp add: v')
    then show "sv_lookup v' j = ((sv_lookup v)(i \<mapsto> x)) j"
      using len s_nth [of j] out [of j]
      by (cases "j < length s") (auto simp: sv_lookup_def [of v'] nth_list_update)
  qed
  show "sv_inv v'"
    using count_filter_update [OF len, of "\<lambda>x. x \<noteq> None" "Some x"] cnt
    by (auto simp: sv_inv_def v' split: if_splits)
qed

lemma sv_remove_spec:
  assumes inv: "sv_inv v" and rem: "sv_remove i v = (old, v')"
  shows "old = sv_lookup v i" "sv_lookup v' = (sv_lookup v)(i := None)" "sv_inv v'"
    "length (slots v') = length (slots v)"
proof -
  have "old = sv_lookup v i \<and> sv_lookup v' = (sv_lookup v)(i := None) \<and> sv_inv v'
    \<and> length (slots v') = length (slots v)"
  proof (cases "i < length (slots v)")
    case True
    with rem have v': "v' = v\<lparr>slots := (slots v)[i := None],
        num_occupied := (if slots v ! i = None then num_occupied v else num_occupied v - 1)\<rparr>"
      and old: "old = slots v ! i"
      by (auto simp: sv_remove_def Let_def)
    have "sv_inv v'"
      using count_filter_update [OF True, of "\<lambda>x. x \<noteq> None" None] inv
      by (auto simp: sv_inv_def v' split: if_splits)
    with True old show ?thesis
      by (auto simp: sv_lookup_def v' nth_list_update fun_eq_iff)
  next
    case False
    with rem inv show ?thesis by (auto simp: sv_remove_def sv_lookup_def fun_eq_iff)
  qed
  then show "old = sv_lookup v i" "sv_lookup v' = (sv_lookup v)(i := None)" "sv_inv v'"
    "length (slots v') = length (slots v)" by auto
qed

lemma enumerate_filter_conv:
  "(i, x) \<in> set (enumerate 0 xs) \<longleftrightarrow> i < length xs \<and> x = xs ! i"
  by (auto simp: in_set_enumerate_eq)

lemma idxes_and_items_iff: "(i, x) \<in> set (idxes_and_items v) \<longleftrightarrow> sv_lookup v i = Some x"
  by (force simp: idxes_and_items_def sv_lookup_def in_set_enumerate_eq)

lemma distinct_idxes: "distinct (map fst (idxes_and_items v))"
proof -
  have "map fst (idxes_and_items v) = map fst (filter (\<lambda>(_, x). x \<noteq> None) (enumerate 0 (slots v)))"
    by (simp add: idxes_and_items_def case_prod_unfold comp_def)
  then show ?thesis by (simp add: distinct_map_filter)
qed

lemma set_sv_iter: "set (sv_iter v) = ran (sv_lookup v)"
  by (force simp: sv_iter_def sv_lookup_def ran_def in_set_conv_nth)

lemmas sv_specs = sv_put_spec sv_put_at_spec sv_remove_spec

text \<open>The slot vector as an identifier pool: \<open>put\<close> allocates an index, \<open>remove\<close> releases it.\<close>

interpretation slot_pool: id_pool "sv_put x" "\<lambda>i v. Some (snd (sv_remove i v))" "\<lambda>v. dom (sv_lookup v)"
    "\<lambda>v i. True" sv_inv
  for x
proof unfold_locales
  fix v v' :: "'a slot_vec" and i
  assume a: "sv_inv v" "sv_put x v = Some (i, v')"
  show "i \<notin> dom (sv_lookup v)" "dom (sv_lookup v') = insert i (dom (sv_lookup v))" "sv_inv v'"
    using sv_put_spec [OF a] by auto
next
  fix v v' :: "'a slot_vec" and i
  assume inv: "sv_inv v" and "Some (snd (sv_remove i v)) = Some v'"
  then have "sv_remove i v = (fst (sv_remove i v), v')" by (cases "sv_remove i v") simp
  from sv_remove_spec [OF inv this]
  show "dom (sv_lookup v') = dom (sv_lookup v) - {i}" "sv_inv v'" by auto
qed simp

section \<open>Properties\<close>



end
