(* ===== verification/Id_Alloc.thy ===== *)
theory Id_Alloc
  imports Id_Pool
begin

text \<open>
  \<open>kernel/libs/aster-util/src/id_allocator.rs\<close>: the bitmap allocator behind the block and inode bitmaps of
  ext2 and the pseudo-terminal numbers. \<open>bitset\<close> is the \<open>BitVec<u8>\<close> read as its sequence of bits; reading
  raw bytes into bits is the work of the \<open>bitvec\<close> crate and is the parameter \<open>from_slice\<close> of
  \<open>from_bytes_with_capacity\<close>. \<open>dbg\<close> says whether \<open>debug_assert!\<close> is compiled in.
\<close>

section \<open>The code\<close>

record id_alloc =
  bitset :: "bool list"
  first_available_id :: nat

definition find_unset :: "bool list \<Rightarrow> nat \<Rightarrow> nat" where
  "find_unset bits start =
     (case find (\<lambda>i. \<not> bits ! i) [start..<length bits] of None \<Rightarrow> length bits | Some i \<Rightarrow> i)"

definition with_capacity :: "nat \<Rightarrow> id_alloc" where
  "with_capacity capacity = \<lparr>bitset = replicate capacity False, first_available_id = 0\<rparr>"

definition from_bytes_with_capacity :: "(u8 list \<Rightarrow> bool list) \<Rightarrow> u8 list \<Rightarrow> nat \<Rightarrow> id_alloc" where
  "from_bytes_with_capacity from_slice raw capacity =
     (let bits = (if length raw * 8 < capacity
                  then from_slice raw @ replicate (capacity - length (from_slice raw)) False
                  else take capacity (from_slice (take ((capacity + 7) div 8) raw)))
      in \<lparr>bitset = bits, first_available_id = find_unset bits 0\<rparr>)"

definition id_alloc_alloc :: "id_alloc \<Rightarrow> (nat \<times> id_alloc) option" where
  "id_alloc_alloc s =
     (if first_available_id s < length (bitset s)
      then let k = first_available_id s;
               bits = (bitset s)[k := True]
           in Some (k, \<lparr>bitset = bits, first_available_id = find_unset bits (k + 1)\<rparr>)
      else None)"

definition is_allocated :: "nat \<Rightarrow> id_alloc \<Rightarrow> bool option" where
  "is_allocated k s = (if k < length (bitset s) then Some (bitset s ! k) else None)"

definition id_alloc_free :: "bool \<Rightarrow> nat \<Rightarrow> id_alloc \<Rightarrow> id_alloc option" where
  "id_alloc_free dbg k s =
     (if dbg \<and> is_allocated k s \<noteq> Some True then None
      else if length (bitset s) \<le> k then None
      else Some \<lparr>bitset = (bitset s)[k := False],
                 first_available_id = (if k < first_available_id s then k
                                       else first_available_id s)\<rparr>)"

section \<open>Abstraction and invariant\<close>

definition id_live :: "id_alloc \<Rightarrow> nat set" where
  "id_live s = {i. i < length (bitset s) \<and> bitset s ! i}"

definition id_alloc_inv :: "id_alloc \<Rightarrow> bool" where
  "id_alloc_inv s \<longleftrightarrow> first_available_id s = find_unset (bitset s) 0"

section \<open>Lemmas\<close>

lemma find_unset_spec:
  assumes "start \<le> length bits"
  shows "start \<le> find_unset bits start" "find_unset bits start \<le> length bits"
    "find_unset bits start < length bits \<Longrightarrow> \<not> bits ! find_unset bits start"
    "start \<le> j \<Longrightarrow> j < find_unset bits start \<Longrightarrow> bits ! j"
  using assms
  by (auto simp: find_unset_def find_upt_None split: option.splits dest!: find_upt_Some)

lemma find_unset_unique:
  assumes "n \<le> length bits" "\<forall>j < n. bits ! j" "n < length bits \<longrightarrow> \<not> bits ! n"
  shows "find_unset bits 0 = n"
proof (rule linorder_cases [of "find_unset bits 0" n])
  assume "find_unset bits 0 < n"
  with find_unset_spec(3) [of 0 bits] assms show ?thesis by auto
next
  assume "n < find_unset bits 0"
  with find_unset_spec(2,4) [of 0 bits] assms show ?thesis by fastforce
qed

lemma id_alloc_inv_iff:
  "id_alloc_inv s \<longleftrightarrow> first_available_id s \<le> length (bitset s)
     \<and> (\<forall>j < first_available_id s. bitset s ! j)
     \<and> (first_available_id s < length (bitset s) \<longrightarrow> \<not> bitset s ! first_available_id s)"
proof
  assume "id_alloc_inv s"
  then show "first_available_id s \<le> length (bitset s)
     \<and> (\<forall>j < first_available_id s. bitset s ! j)
     \<and> (first_available_id s < length (bitset s) \<longrightarrow> \<not> bitset s ! first_available_id s)"
    using find_unset_spec [of 0 "bitset s"] by (simp add: id_alloc_inv_def)
next
  assume "first_available_id s \<le> length (bitset s)
     \<and> (\<forall>j < first_available_id s. bitset s ! j)
     \<and> (first_available_id s < length (bitset s) \<longrightarrow> \<not> bitset s ! first_available_id s)"
  then show "id_alloc_inv s"
    using find_unset_unique [of "first_available_id s" "bitset s"] by (simp add: id_alloc_inv_def)
qed

lemma id_alloc_inv_with_capacity: "id_alloc_inv (with_capacity n)"
  by (auto simp: id_alloc_inv_iff with_capacity_def)

lemma id_alloc_inv_from_bytes: "id_alloc_inv (from_bytes_with_capacity f bs n)"
  by (simp add: id_alloc_inv_def from_bytes_with_capacity_def Let_def)

lemma length_bitset_from_bytes:
  assumes "\<And>bs. length (f bs) = 8 * length bs"
  shows "length (bitset (from_bytes_with_capacity f bs n)) = n"
  by (auto simp: from_bytes_with_capacity_def Let_def assms)

lemma id_live_with_capacity: "id_live (with_capacity n) = {}"
  by (auto simp: id_live_def with_capacity_def)

lemma id_alloc_alloc_Some:
  assumes inv: "id_alloc_inv s" and a: "id_alloc_alloc s = Some (i, s')"
  shows "i < length (bitset s)" "i \<notin> id_live s" "\<forall>j < i. j \<in> id_live s"
    "id_live s' = insert i (id_live s)" "id_alloc_inv s'" "length (bitset s') = length (bitset s)"
proof -
  define n where "n = find_unset ((bitset s)[i := True]) (i + 1)"
  from a have i: "i = first_available_id s" "i < length (bitset s)"
    and s': "s' = \<lparr>bitset = (bitset s)[i := True], first_available_id = n\<rparr>"
    by (auto simp: id_alloc_alloc_def Let_def n_def split: if_splits)
  show "i < length (bitset s)" by (rule i(2))
  from inv i show "i \<notin> id_live s" "\<forall>j < i. j \<in> id_live s"
    by (auto simp: id_alloc_inv_iff id_live_def)
  show "id_live s' = insert i (id_live s)" using i(2)
    by (auto simp: id_live_def s' nth_list_update split: if_splits)
  show "length (bitset s') = length (bitset s)" by (simp add: s')
  have spec: "i + 1 \<le> n" "n \<le> length (bitset s)" "n < length (bitset s) \<Longrightarrow> \<not> (bitset s)[i := True] ! n"
    "\<And>j. i + 1 \<le> j \<Longrightarrow> j < n \<Longrightarrow> (bitset s)[i := True] ! j"
    using find_unset_spec [of "i + 1" "(bitset s)[i := True]"] i(2) by (auto simp: n_def)
  have "(bitset s)[i := True] ! j" if "j < n" for j
    using that spec(4) [of j] inv i by (cases "j \<le> i") (auto simp: id_alloc_inv_iff nth_list_update)
  with spec(2,3) show "id_alloc_inv s'" by (auto simp: id_alloc_inv_iff s')
qed

lemma id_alloc_alloc_None:
  "id_alloc_inv s \<Longrightarrow> id_alloc_alloc s = None \<longleftrightarrow> id_live s = {..<length (bitset s)}"
  unfolding id_alloc_alloc_def Let_def id_alloc_inv_iff id_live_def
  by (cases "first_available_id s < length (bitset s)") auto

lemma id_alloc_free_Some:
  assumes inv: "id_alloc_inv s" and f: "id_alloc_free dbg i s = Some s'"
  shows "id_live s' = id_live s - {i}" "id_alloc_inv s'" "length (bitset s') = length (bitset s)"
proof -
  from f have i: "i < length (bitset s)"
    and s': "s' = \<lparr>bitset = (bitset s)[i := False],
                   first_available_id = min i (first_available_id s)\<rparr>"
    by (auto simp: id_alloc_free_def split: if_splits)
  show "id_live s' = id_live s - {i}" using i
    by (auto simp: id_live_def s' nth_list_update split: if_splits)
  show "id_alloc_inv s'" using inv i
    by (auto simp: id_alloc_inv_iff s' nth_list_update)
  show "length (bitset s') = length (bitset s)" by (simp add: s')
qed

lemma id_alloc_free_total: "i \<in> id_live s \<Longrightarrow> id_alloc_free dbg i s \<noteq> None"
  by (auto simp: id_live_def id_alloc_free_def is_allocated_def)

interpretation id_bitmap: id_pool id_alloc_alloc "id_alloc_free dbg" id_live "\<lambda>s i. i \<in> id_live s" id_alloc_inv
  for dbg
  by unfold_locales
    (erule (1) id_alloc_alloc_Some id_alloc_free_Some id_alloc_free_total | erule (2) id_alloc_free_Some
      | rule id_alloc_alloc_Some id_alloc_free_Some id_alloc_free_total; assumption)+

section \<open>Properties\<close>

text \<open>(C23) \<open>IdAlloc::alloc\<close> returns the lowest identifier that is free and marks it, and returns \<open>None\<close>
  only when all identifiers below the capacity are in use.\<close>

theorem id_alloc_lowest_free:
  assumes "id_alloc_inv s"
  shows "case id_alloc_alloc s of
      None \<Rightarrow> id_live s = {..<length (bitset s)}
    | Some (i, s') \<Rightarrow> i < length (bitset s) \<and> i \<notin> id_live s \<and> {..<i} \<subseteq> id_live s
        \<and> id_live s' = insert i (id_live s) \<and> id_alloc_inv s'"
  using id_alloc_alloc_Some [OF assms] id_alloc_alloc_None [OF assms]
  by (auto split: option.splits)

theorem id_alloc_lowest_free_witness:
  "id_alloc_alloc (with_capacity 3) = Some (0, \<lparr>bitset = [True, False, False], first_available_id = 1\<rparr>)
   \<and> id_live \<lparr>bitset = [True, False, False], first_available_id = 1\<rparr> = {0}"
proof -
  have "id_alloc_alloc (with_capacity 3) = Some (0, \<lparr>bitset = [True, False, False], first_available_id = 1\<rparr>)"
    by code_simp
  with id_alloc_lowest_free [OF id_alloc_inv_with_capacity [of 3]] show ?thesis
    unfolding id_live_with_capacity by (simp only: option.case prod.case)
qed

lemma id_run_capacity:
  "id_bitmap.run dbg ops held s = Some (held', s') \<Longrightarrow> id_alloc_inv s \<Longrightarrow> length (bitset s') = length (bitset s)"
proof (induction ops held s rule: id_bitmap.run.induct [of _ dbg])
  case (2 ops held s)
  show ?case
  proof (cases "id_alloc_alloc s")
    case None
    with 2 show ?thesis by simp
  next
    case (Some p)
    obtain i t where a: "id_alloc_alloc s = Some (i, t)" using Some by (cases p) auto
    from id_alloc_alloc_Some(5,6) [OF "2.prems"(2) a] "2.IH"(2) [OF a refl] "2.prems"(1) a
    show ?thesis by simp
  qed
next
  case (3 i ops held s)
  then have c: "i \<in> set held \<and> i \<in> id_live s" by (simp split: if_splits)
  with 3 obtain t where t: "id_alloc_free dbg i s = Some t" by (auto split: option.splits)
  from id_alloc_free_Some(2,3) [OF "3.prems"(2) t] "3.IH" [OF c t] "3.prems"(1) c t show ?case by simp
qed simp

text \<open>(C22) Any sequence of \<open>alloc\<close> and \<open>free\<close> of held identifiers, started from \<open>with_capacity n\<close>, never
  makes two holders share an identifier: the identifiers held are distinct, marked and below \<open>n\<close>.\<close>

theorem id_alloc_run_distinct:
  assumes "id_bitmap.run dbg ops [] (with_capacity n) = Some (held, s)"
  shows "distinct held \<and> set held \<subseteq> id_live s \<and> set held \<subseteq> {..<n}"
proof -
  have "distinct held \<and> set held \<subseteq> id_live s \<and> id_alloc_inv s"
    using id_bitmap.run_held_distinct [OF id_alloc_inv_with_capacity _ _ assms] by simp
  moreover have "length (bitset s) = n"
    using id_run_capacity [OF assms id_alloc_inv_with_capacity] by (simp add: with_capacity_def)
  ultimately show ?thesis by (auto simp: id_live_def)
qed

theorem id_alloc_run_distinct_witness:
  "\<exists>s. id_bitmap.run True [PoolAlloc, PoolAlloc, PoolFree 0, PoolAlloc] [] (with_capacity 3) = Some ([0, 1], s)
     \<and> {0, 1} \<subseteq> id_live s"
proof -
  let ?s = "\<lambda>bs n. \<lparr>bitset = bs, first_available_id = n\<rparr>"
  have e: "id_alloc_alloc (with_capacity 3) = Some (0, ?s [True, False, False] 1)"
    "id_alloc_alloc (?s [True, False, False] 1) = Some (1, ?s [True, True, False] 2)"
    "id_alloc_free True 0 (?s [True, True, False] 2) = Some (?s [False, True, False] 0)"
    "id_alloc_alloc (?s [False, True, False] 0) = Some (0, ?s [True, True, False] 2)"
    "0 \<in> id_live (?s [True, True, False] 2)"
    by (code_simp, code_simp, code_simp, code_simp, simp add: id_live_def)
  have "id_bitmap.run True [PoolAlloc, PoolAlloc, PoolFree 0, PoolAlloc] [] (with_capacity 3)
      = Some ([0, 1], ?s [True, True, False] 2)"
    by (simp add: e del: One_nat_def)
  from id_alloc_run_distinct [OF this] this show ?thesis by auto
qed

end
