(* ===== verification/Recycle_Allocator.thy ===== *)
theory Recycle_Allocator
  imports Id_Pool
begin

text \<open>
  \<open>framework/aster-frame/src/util/recycle_allocator.rs\<close>: the allocator of interrupt numbers
  (\<open>NOT_USING_IRQ\<close> in \<open>arch/x86/irq.rs\<close>) and of callback ids. Identifiers below \<open>current\<close> were handed out
  in order; released ones wait in \<open>recycled\<close> (a stack); \<open>skip\<close> holds the identifiers reserved out of
  order by \<open>get_target\<close>. \<open>usize::MAX\<close> stands for "no identifier left". A failed \<open>assert!\<close> of \<open>dealloc\<close>
  is \<open>None\<close>.
\<close>

section \<open>The code\<close>

record recycle_allocator =
  current :: nat
  recycled :: "nat list"
  skip :: "nat list"
  max_id :: nat

definition USIZE_MAX :: nat where
  "USIZE_MAX = USIZE_RANGE - 1"

definition ra_new :: recycle_allocator where
  "ra_new = \<lparr>current = 0, recycled = [], skip = [], max_id = USIZE_MAX - 1\<rparr>"

definition with_start_max :: "nat \<Rightarrow> nat \<Rightarrow> recycle_allocator" where
  "with_start_max start mx = \<lparr>current = start, recycled = [], skip = [], max_id = mx\<rparr>"

text \<open>\<open>while self.skip.contains(&self.current) { self.current += 1; }\<close>\<close>

function skip_loop :: "nat list \<Rightarrow> nat \<Rightarrow> nat" where
  "skip_loop sk cur = (if cur \<in> set sk then skip_loop sk (cur + 1) else cur)"
  by pat_completeness auto
termination
proof (relation "measure (\<lambda>(sk, cur). card {x \<in> set sk. cur \<le> x})")
  fix sk :: "nat list" and cur :: nat
  assume "cur \<in> set sk"
  then have "{x \<in> set sk. cur \<le> x} = insert cur {x \<in> set sk. Suc cur \<le> x}"
    by (auto simp: Suc_le_eq le_less)
  then have "card {x \<in> set sk. cur \<le> x} = Suc (card {x \<in> set sk. Suc cur \<le> x})" by simp
  then show "((sk, cur + 1), sk, cur) \<in> measure (\<lambda>(sk, cur). card {x \<in> set sk. cur \<le> x})" by simp
qed simp

declare skip_loop.simps [simp del]

definition ra_alloc :: "recycle_allocator \<Rightarrow> nat \<times> recycle_allocator" where
  "ra_alloc s =
     (if recycled s \<noteq> [] then (last (recycled s), s\<lparr>recycled := butlast (recycled s)\<rparr>)
      else let s1 = s\<lparr>current := skip_loop (skip s) (current s)\<rparr>
           in if current s1 = max_id s1 then (USIZE_MAX, s1)
              else let s2 = s1\<lparr>current := current s1 + 1\<rparr> in (current s2 - 1, s2))"

definition ra_dealloc :: "nat \<Rightarrow> recycle_allocator \<Rightarrow> recycle_allocator option" where
  "ra_dealloc k s =
     (if k \<notin> set (skip s)
      then (if k < current s \<and> k \<notin> set (recycled s)
            then Some (s\<lparr>recycled := recycled s @ [k]\<rparr>) else None)
      else Some (s\<lparr>skip := filter (\<lambda>v. v \<noteq> k) (skip s), recycled := recycled s @ [k]\<rparr>))"

definition get_target :: "nat \<Rightarrow> recycle_allocator \<Rightarrow> bool \<times> recycle_allocator" where
  "get_target target s =
     (if max_id s \<le> target then (False, s)
      else if current s \<le> target
           then (if target \<in> set (skip s) then (False, s)
                 else (True, s\<lparr>skip := skip s @ [target]\<rparr>))
      else if target \<in> set (recycled s)
           then (True, s\<lparr>recycled := filter (\<lambda>v. v \<noteq> target) (recycled s)\<rparr>)
      else (False, s))"

section \<open>Abstraction and invariant\<close>

text \<open>The identifiers in use, for an allocator created with the first identifier \<open>start\<close>.\<close>

definition ra_live :: "nat \<Rightarrow> recycle_allocator \<Rightarrow> nat set" where
  "ra_live start s = ({start..<current s} - set (recycled s)) \<union> set (skip s)"

definition ra_inv :: "nat \<Rightarrow> recycle_allocator \<Rightarrow> bool" where
  "ra_inv start s \<longleftrightarrow> start \<le> current s \<and> current s \<le> max_id s \<and> max_id s \<le> USIZE_MAX
     \<and> distinct (recycled s) \<and> distinct (skip s)
     \<and> (\<forall>r \<in> set (recycled s). start \<le> r \<and> r < current s \<and> r \<notin> set (skip s))
     \<and> (\<forall>r \<in> set (skip s). start \<le> r \<and> r < max_id s)"

text \<open>The allocator seen as an identifier pool: exhaustion is \<open>None\<close>.\<close>

definition ra_pool_alloc :: "recycle_allocator \<Rightarrow> (nat \<times> recycle_allocator) option" where
  "ra_pool_alloc s = (let (i, s') = ra_alloc s in if i = USIZE_MAX then None else Some (i, s'))"

section \<open>Lemmas\<close>

lemma skip_loop_spec:
  "cur \<le> skip_loop sk cur \<and> skip_loop sk cur \<notin> set sk
   \<and> (\<forall>j. cur \<le> j \<longrightarrow> j < skip_loop sk cur \<longrightarrow> j \<in> set sk)"
proof (induction sk cur rule: skip_loop.induct)
  case (1 sk cur)
  show ?case
  proof (cases "cur \<in> set sk")
    case True
    with 1 have IH: "cur + 1 \<le> skip_loop sk (cur + 1)" "skip_loop sk (cur + 1) \<notin> set sk"
      "\<forall>j. cur + 1 \<le> j \<longrightarrow> j < skip_loop sk (cur + 1) \<longrightarrow> j \<in> set sk" by auto
    have "j \<in> set sk" if "cur \<le> j" "j < skip_loop sk (cur + 1)" for j
      using that True IH(3) by (cases "j = cur") auto
    with True IH show ?thesis by (simp add: skip_loop.simps [of sk cur])
  next
    case False
    then show ?thesis by (simp add: skip_loop.simps [of sk cur])
  qed
qed

lemma ra_inv_with_start_max: "start \<le> m \<Longrightarrow> m \<le> USIZE_MAX \<Longrightarrow> ra_inv start (with_start_max start m)"
  by (simp add: ra_inv_def with_start_max_def)

lemma ra_live_with_start_max: "ra_live start (with_start_max start m) = {}"
  by (simp add: ra_live_def with_start_max_def)

lemma skip_loop_le_max:
  assumes "ra_inv start s"
  shows "skip_loop (skip s) (current s) \<le> max_id s"
proof (rule ccontr)
  assume "\<not> skip_loop (skip s) (current s) \<le> max_id s"
  with skip_loop_spec [of "current s" "skip s"] assms have "max_id s \<in> set (skip s)"
    by (auto simp: ra_inv_def)
  with assms show False by (auto simp: ra_inv_def)
qed

lemma ra_alloc_recycled:
  assumes inv: "ra_inv start s" and ne: "recycled s \<noteq> []" and a: "ra_alloc s = (i, s')"
  shows "i \<notin> ra_live start s" "ra_live start s' = insert i (ra_live start s)" "ra_inv start s'"
    "i < max_id s"
proof -
  obtain xs where xs: "recycled s = xs @ [i]" and s': "s' = s\<lparr>recycled := xs\<rparr>"
    using a ne by (auto simp: ra_alloc_def intro: that [of "butlast (recycled s)"])
  from inv have i: "start \<le> i" "i < current s" "i \<notin> set (skip s)" "i \<notin> set xs"
    by (auto simp: ra_inv_def xs)
  then show "i \<notin> ra_live start s" "ra_live start s' = insert i (ra_live start s)"
    by (auto simp: ra_live_def xs s')
  show "ra_inv start s'" using inv by (auto simp: ra_inv_def xs s')
  show "i < max_id s" using inv i by (simp add: ra_inv_def)
qed

lemma ra_alloc_current:
  assumes inv: "ra_inv start s" and e: "recycled s = []" and a: "ra_alloc s = (i, s')"
    and i: "i \<noteq> USIZE_MAX"
  shows "i \<notin> ra_live start s" "ra_live start s' = insert i (ra_live start s)" "ra_inv start s'"
    "i < max_id s"
proof -
  define c where "c = skip_loop (skip s) (current s)"
  have c: "current s \<le> c" "c \<notin> set (skip s)" "\<And>j. current s \<le> j \<Longrightarrow> j < c \<Longrightarrow> j \<in> set (skip s)"
    "c \<le> max_id s"
    using skip_loop_spec [of "current s" "skip s"] skip_loop_le_max [OF inv] by (auto simp: c_def)
  from a e i have "c \<noteq> max_id s" and i': "i = c" and s': "s' = s\<lparr>current := c + 1\<rparr>"
    by (auto simp: ra_alloc_def Let_def c_def split: if_splits)
  with c(4) have lt: "c < max_id s" by simp
  then show "i < max_id s" by (simp add: i')
  from c(1,2) show "i \<notin> ra_live start s" by (simp add: ra_live_def i')
  show "ra_live start s' = insert i (ra_live start s)"
  proof -
    have "j < current s \<or> j \<in> set (skip s)" if "j < c" for j
      using that c(3) [of j] by (cases "j < current s") auto
    then have "j < Suc c \<and> start \<le> j \<or> j \<in> set (skip s)
      \<longleftrightarrow> j = c \<or> j < current s \<and> start \<le> j \<or> j \<in> set (skip s)" for j
      using c(1) inv by (auto simp: ra_inv_def less_Suc_eq)
    then show ?thesis unfolding ra_live_def i' s' by (intro set_eqI) (simp add: e conj_commute)
  qed
  show "ra_inv start s'" using inv c(1) lt e by (auto simp: ra_inv_def s')
qed

lemma ra_pool_alloc_Some:
  assumes inv: "ra_inv start s" and a: "ra_pool_alloc s = Some (i, s')"
  shows "i \<notin> ra_live start s" "ra_live start s' = insert i (ra_live start s)" "ra_inv start s'"
    "i < max_id s"
proof -
  from a have a': "ra_alloc s = (i, s')" "i \<noteq> USIZE_MAX"
    by (auto simp: ra_pool_alloc_def split: prod.splits if_splits)
  show "i \<notin> ra_live start s" "ra_live start s' = insert i (ra_live start s)" "ra_inv start s'"
    "i < max_id s"
    using ra_alloc_recycled [OF inv _ a'(1)] ra_alloc_current [OF inv _ a'] by blast+
qed

lemma ra_alloc_exhausted:
  assumes inv: "ra_inv start s" and a: "ra_alloc s = (USIZE_MAX, s')"
  shows "ra_live start s = {start..<max_id s}"
proof -
  have e: "recycled s = []"
    using ra_alloc_recycled(4) [OF inv _ a] inv by (auto simp: ra_inv_def)
  define c where "c = skip_loop (skip s) (current s)"
  have c: "current s \<le> c" "\<And>j. current s \<le> j \<Longrightarrow> j < c \<Longrightarrow> j \<in> set (skip s)" "c \<le> max_id s"
    using skip_loop_spec [of "current s" "skip s"] skip_loop_le_max [OF inv] by (auto simp: c_def)
  have "c = max_id s"
    using a e c(3) inv by (auto simp: ra_alloc_def Let_def c_def ra_inv_def split: if_splits)
  with c(2) have "j < current s \<or> j \<in> set (skip s)" if "j < max_id s" for j
    using that by (cases "j < current s") auto
  with inv e have "start \<le> j \<and> j < current s \<or> j \<in> set (skip s) \<longleftrightarrow> start \<le> j \<and> j < max_id s" for j
    unfolding ra_inv_def by (metis order_less_le_trans)
  then show ?thesis unfolding ra_live_def e by (intro set_eqI) simp
qed

lemma ra_dealloc_below_current:
  assumes inv: "ra_inv start s" and live: "k \<in> ra_live start s" and "k < current s"
  obtains s' where "ra_dealloc k s = Some s'" "ra_live start s' = ra_live start s - {k}" "ra_inv start s'"
proof (cases "k \<in> set (skip s)")
  case True
  then have k: "start \<le> k" "k \<notin> set (recycled s)" using inv by (auto simp: ra_inv_def)
  from True show ?thesis
    using inv k assms(3) by (intro that) (auto simp: ra_dealloc_def ra_live_def ra_inv_def)
next
  case False
  with live have k: "start \<le> k" "k \<notin> set (recycled s)" by (auto simp: ra_live_def)
  from False k show ?thesis
    using inv assms(3) by (intro that) (auto simp: ra_dealloc_def ra_live_def ra_inv_def)
qed

lemma get_target_True:
  assumes inv: "ra_inv start s" and g: "get_target t s = (True, s')" and "start \<le> t"
  shows "t \<notin> ra_live start s" "ra_live start s' = insert t (ra_live start s)" "ra_inv start s'"
  using inv g assms(3)
  by (fastforce simp: get_target_def ra_live_def ra_inv_def split: if_splits)+

lemma get_target_False:
  assumes inv: "ra_inv start s" and g: "get_target t s = (False, s')"
  shows "s' = s" "t < start \<or> max_id s \<le> t \<or> t \<in> ra_live start s"
  using inv g by (auto simp: get_target_def ra_live_def ra_inv_def split: if_splits)

interpretation recycle: id_pool ra_pool_alloc ra_dealloc "ra_live start"
    "\<lambda>s k. k \<in> ra_live start s \<and> k < current s" "ra_inv start"
  for start
proof unfold_locales
  fix s s' i
  assume inv: "ra_inv start s" and a: "ra_pool_alloc s = Some (i, s')"
  show "i \<notin> ra_live start s" "ra_live start s' = insert i (ra_live start s)" "ra_inv start s'"
    by (rule ra_pool_alloc_Some [OF inv a])+
next
  fix s s' i
  assume inv: "ra_inv start s" and c: "i \<in> ra_live start s \<and> i < current s"
  from ra_dealloc_below_current [OF inv] c obtain t where
    t: "ra_dealloc i s = Some t" "ra_live start t = ra_live start s - {i}" "ra_inv start t" by blast
  show "ra_dealloc i s \<noteq> None" using t by simp
  assume "ra_dealloc i s = Some s'"
  with t show "ra_live start s' = ra_live start s - {i}" "ra_inv start s'" by auto
qed

section \<open>Properties\<close>

text \<open>(C33) \<open>RecycleAllocator\<close>: any sequence of \<open>alloc\<close> and \<open>dealloc\<close> of held identifiers below the
  high-water mark, started from \<open>with_start_max\<close>, keeps the held identifiers distinct, and an allocation
  is refused (the value \<open>usize::MAX\<close>) only when all identifiers of the range are in use.\<close>

theorem recycle_run_distinct:
  assumes "start \<le> mx" "mx \<le> USIZE_MAX"
    and "recycle.run start ops [] (with_start_max start mx) = Some (held, s)"
  shows "distinct held \<and> set held \<subseteq> ra_live start s
    \<and> (fst (ra_alloc s) = USIZE_MAX \<longrightarrow> ra_live start s = {start..<max_id s})"
proof -
  have "distinct held \<and> set held \<subseteq> ra_live start s \<and> ra_inv start s"
    using recycle.run_held_distinct [OF ra_inv_with_start_max [OF assms(1,2)] _ _ assms(3)] by simp
  with ra_alloc_exhausted show ?thesis by (metis prod.collapse)
qed

lemma skip_loop_Nil [simp]: "skip_loop [] c = c"
  by (simp add: skip_loop.simps)

theorem recycle_run_distinct_witness:
  "\<exists>s. recycle.run 32 [PoolAlloc, PoolAlloc] [] (with_start_max 32 256) = Some ([33, 32], s)
     \<and> {32, 33} \<subseteq> ra_live 32 s"
proof -
  have "recycle.run 32 [PoolAlloc, PoolAlloc] [] (with_start_max 32 256)
      = Some ([33, 32], \<lparr>current = 34, recycled = [], skip = [], max_id = 256\<rparr>)"
    by (simp add: ra_pool_alloc_def ra_alloc_def with_start_max_def USIZE_MAX_def Let_def)
  from recycle_run_distinct [OF _ _ this] this show ?thesis by (simp add: USIZE_MAX_def)
qed

text \<open>The precondition of the previous property matters: an identifier reserved out of order by
  \<open>get_target\<close> above \<open>current\<close> and then released is handed out twice, once from the recycled stack and
  once more when \<open>current\<close> reaches it. Both holders own identifier 1.\<close>

theorem recycle_double_allocation:
  "\<exists>s1 s2 s3 s4 s5. get_target 1 ra_new = (True, s1) \<and> ra_dealloc 1 s1 = Some s2
     \<and> ra_alloc s2 = (1, s3) \<and> ra_alloc s3 = (0, s4) \<and> ra_alloc s4 = (1, s5)"
  by (simp add: get_target_def ra_new_def ra_dealloc_def ra_alloc_def USIZE_MAX_def Let_def)

end
