(* ===== verification/Memory_Region.thy ===== *)
theory Memory_Region
  imports Align_Ext
begin

text \<open>
  \<open>framework/aster-frame/src/boot/memory_region.rs\<close>: the memory map handed over by the boot loader, made
  safe for the frame allocator by cutting the unusable regions out of the usable ones, and the start-up
  of the frame allocator (\<open>vm/frame_allocator.rs\<close>, \<open>init\<close>), which turns the usable regions into ranges of
  page frames. Addresses are natural numbers; an addition that overflows \<open>usize\<close> is a panic.
\<close>

section \<open>The code\<close>

datatype MemoryRegionType =
    BadMemory | NonVolatileSleep | Reserved | Kernel | Module | Framebuffer | Reclaimable | Usable

record memory_region =
  mr_base :: nat
  mr_len :: nat
  mr_typ :: MemoryRegionType

definition mr_new :: "nat \<Rightarrow> nat \<Rightarrow> MemoryRegionType \<Rightarrow> memory_region" where
  "mr_new b l t = \<lparr>mr_base = b, mr_len = l, mr_typ = t\<rparr>"

definition mr_is_empty :: "memory_region \<Rightarrow> bool" where
  "mr_is_empty r \<longleftrightarrow> mr_len r = 0"

definition mr_truncate :: "memory_region \<Rightarrow> memory_region \<Rightarrow> memory_region list res" where
  "mr_truncate self t =
     (if mr_base self < mr_base t then
        bind_res (uadd (mr_base self) (mr_len self)) (\<lambda>self_end.
          if mr_base t < self_end then
            bind_res (uadd (mr_base t) (mr_len t)) (\<lambda>t_end.
              if t_end < self_end then
                Ok [\<lparr>mr_base = mr_base self, mr_len = mr_base t - mr_base self, mr_typ = mr_typ self\<rparr>,
                    \<lparr>mr_base = t_end, mr_len = self_end - t_end, mr_typ = mr_typ self\<rparr>]
              else
                Ok [\<lparr>mr_base = mr_base self, mr_len = mr_base t - mr_base self, mr_typ = mr_typ self\<rparr>])
          else Ok [self])
      else
        bind_res (uadd (mr_base t) (mr_len t)) (\<lambda>t_end.
          if mr_base self < t_end then
            bind_res (uadd (mr_base self) (mr_len self)) (\<lambda>self_end.
              if t_end < self_end then
                Ok [\<lparr>mr_base = t_end, mr_len = self_end - t_end, mr_typ = mr_typ self\<rparr>]
              else Ok [])
          else Ok [self]))"

fun is_usable_typ :: "MemoryRegionType \<Rightarrow> bool" where
  "is_usable_typ Usable = True"
| "is_usable_typ Reclaimable = True"
| "is_usable_typ _ = False"

text \<open>One round of the rolling vectors: every usable region is truncated by one unusable region.\<close>

definition truncate_all :: "memory_region \<Rightarrow> memory_region list \<Rightarrow> memory_region list res" where
  "truncate_all r_unusable src =
     fold_res (\<lambda>r_usable dst. bind_res (mr_truncate r_usable r_unusable) (\<lambda>rs. Ok (dst @ rs))) src []"

definition non_overlapping_regions_from :: "memory_region list \<Rightarrow> memory_region list res" where
  "non_overlapping_regions_from regions =
     (let regions_usable = filter (\<lambda>r. is_usable_typ (mr_typ r)) regions;
          regions_unusable = filter (\<lambda>r. \<not> is_usable_typ (mr_typ r)) regions
      in bind_res (fold_res truncate_all regions_unusable regions_usable)
           (\<lambda>usable. Ok (regions_unusable @ usable)))"

text \<open>\<open>frame_allocator::init\<close>: the ranges \<open>[start, end)\<close> of frame numbers passed to \<open>add_frame\<close>.\<close>

definition frame_ranges :: "memory_region list \<Rightarrow> (nat \<times> nat) list res" where
  "frame_ranges regions =
     fold_res (\<lambda>region acc.
       if mr_typ region = Usable then
         bind_res (usize_align_up (mr_base region) PAGE_SIZE) (\<lambda>up.
         bind_res (uadd (mr_base region) (mr_len region)) (\<lambda>e.
           let start = up div PAGE_SIZE;
               stop = align_down_nat e PAGE_SIZE div PAGE_SIZE
           in if stop \<le> start then Ok acc else Ok (acc @ [(start, stop)])))
       else Ok acc) regions []"

section \<open>Specification\<close>

definition mr_bytes :: "memory_region \<Rightarrow> nat set" where
  "mr_bytes r = {mr_base r..<mr_base r + mr_len r}"

definition mr_end :: "memory_region \<Rightarrow> nat" where
  "mr_end r = mr_base r + mr_len r"

definition mr_ok :: "memory_region \<Rightarrow> bool" where
  "mr_ok r \<longleftrightarrow> mr_end r < USIZE_RANGE"

definition bytes_of :: "memory_region list \<Rightarrow> nat set" where
  "bytes_of rs = (\<Union>r \<in> set rs. mr_bytes r)"

definition frame_bytes :: "nat \<Rightarrow> nat set" where
  "frame_bytes f = {f * PAGE_SIZE..<(f + 1) * PAGE_SIZE}"

section \<open>Lemmas\<close>

lemma bytes_of_simps [simp]:
  "bytes_of [] = {}" "bytes_of (r # rs) = mr_bytes r \<union> bytes_of rs"
  "bytes_of (rs @ rs') = bytes_of rs \<union> bytes_of rs'"
  by (auto simp: bytes_of_def)

lemma mr_truncate_spec:
  assumes "mr_ok r" "mr_ok t"
  shows "\<exists>rs. mr_truncate r t = Ok rs \<and> bytes_of rs = mr_bytes r - mr_bytes t
    \<and> (\<forall>x \<in> set rs. mr_end x \<le> mr_end r \<and> mr_typ x = mr_typ r \<and> mr_bytes x \<subseteq> mr_bytes r) \<and> length rs \<le> 2"
proof -
  have e: "uadd (mr_base r) (mr_len r) = Ok (mr_base r + mr_len r)" "uadd (mr_base t) (mr_len t) = Ok (mr_base t + mr_len t)"
    using assms by (simp_all add: mr_ok_def mr_end_def)
  show ?thesis
  proof (cases "mr_base r < mr_base t")
    case True
    then show ?thesis using assms
      by (cases "mr_base t < mr_base r + mr_len r"; cases "mr_base t + mr_len t < mr_base r + mr_len r")
        (auto simp: mr_truncate_def e mr_bytes_def mr_ok_def mr_end_def)
  next
    case False
    then show ?thesis using assms
      by (cases "mr_base r < mr_base t + mr_len t"; cases "mr_base t + mr_len t < mr_base r + mr_len r")
        (auto simp: mr_truncate_def e mr_bytes_def mr_ok_def mr_end_def)
  qed
qed

text \<open>What one round, and then the whole loop, keeps: no fault, the bytes left over, and every piece
  inside a region it came from, with that region's type.\<close>

definition cut_from :: "memory_region list \<Rightarrow> nat set \<Rightarrow> memory_region list \<Rightarrow> bool" where
  "cut_from rs hole rs' \<longleftrightarrow> bytes_of rs' = bytes_of rs - hole
     \<and> (\<forall>x \<in> set rs'. \<exists>r \<in> set rs. mr_end x \<le> mr_end r \<and> mr_typ x = mr_typ r \<and> mr_bytes x \<subseteq> mr_bytes r)"

lemma truncate_all_spec:
  assumes ok: "\<forall>r \<in> set rs. mr_ok r" and t: "mr_ok t"
  shows "\<exists>rs'. truncate_all t rs = Ok rs' \<and> cut_from rs (mr_bytes t) rs'"
proof -
  define I where "I xs dst \<longleftrightarrow> (\<exists>ys. rs = ys @ xs \<and> cut_from ys (mr_bytes t) dst)" for xs dst
  have "\<exists>s'. fold_res (\<lambda>r dst. bind_res (mr_truncate r t) (\<lambda>rs. Ok (dst @ rs))) rs [] = Ok s' \<and> I [] s'"
  proof (rule fold_res_total)
    show "I rs []" by (auto simp: I_def cut_from_def)
  next
    fix x xs dst
    assume "I (x # xs) dst"
    then obtain ys where ys: "rs = ys @ x # xs" "cut_from ys (mr_bytes t) dst" by (auto simp: I_def)
    with ok have "mr_ok x" by simp
    from mr_truncate_spec [OF this t] obtain zs where zs: "mr_truncate x t = Ok zs"
      "bytes_of zs = mr_bytes x - mr_bytes t"
      "\<forall>z \<in> set zs. mr_end z \<le> mr_end x \<and> mr_typ z = mr_typ x \<and> mr_bytes z \<subseteq> mr_bytes x" by blast
    from ys(2) zs(2,3) have "cut_from (ys @ [x]) (mr_bytes t) (dst @ zs)"
      by (auto simp: cut_from_def)
    with ys(1) have "I xs (dst @ zs)" unfolding I_def by (intro exI [of _ "ys @ [x]"]) simp
    with zs(1) show "\<exists>s'. bind_res (mr_truncate x t) (\<lambda>rs. Ok (dst @ rs)) = Ok s' \<and> I xs s'" by simp
  qed
  then show ?thesis by (auto simp: truncate_all_def I_def)
qed

lemma cut_from_trans:
  assumes "cut_from a h b" "cut_from b h' c"
  shows "cut_from a (h \<union> h') c"
proof -
  have "bytes_of c = bytes_of a - (h \<union> h')" using assms by (auto simp: cut_from_def)
  then show ?thesis using assms unfolding cut_from_def by (metis le_trans subset_trans)
qed

lemma truncate_loop_spec:
  assumes "\<forall>r \<in> set src. mr_ok r" "\<forall>t \<in> set ts. mr_ok t"
  shows "\<exists>rs'. fold_res truncate_all ts src = Ok rs' \<and> cut_from src (bytes_of ts) rs'"
  using assms
proof (induction ts arbitrary: src)
  case Nil
  then show ?case by (auto simp: cut_from_def)
next
  case (Cons t ts)
  then have "mr_ok t" by simp
  from truncate_all_spec [OF Cons.prems(1) this] obtain rs where
    rs: "truncate_all t src = Ok rs" "cut_from src (mr_bytes t) rs" by blast
  from rs(2) Cons.prems(1) have "\<forall>r \<in> set rs. mr_ok r"
    by (meson cut_from_def mr_ok_def le_less_trans)
  with Cons.IH [of rs] Cons.prems(2) obtain rs' where
    "fold_res truncate_all ts rs = Ok rs'" "cut_from rs (bytes_of ts) rs'" by auto
  with rs cut_from_trans show ?case by fastforce
qed

definition usable_part :: "memory_region list \<Rightarrow> memory_region list" where
  "usable_part = filter (\<lambda>r. is_usable_typ (mr_typ r))"

definition unusable_part :: "memory_region list \<Rightarrow> memory_region list" where
  "unusable_part = filter (\<lambda>r. \<not> is_usable_typ (mr_typ r))"

lemma non_overlapping_spec:
  assumes "\<forall>r \<in> set regions. mr_ok r"
  obtains out where "non_overlapping_regions_from regions = Ok (unusable_part regions @ out)"
    "cut_from (usable_part regions) (bytes_of (unusable_part regions)) out"
proof -
  have "\<exists>rs'. fold_res truncate_all (unusable_part regions) (usable_part regions) = Ok rs'
      \<and> cut_from (usable_part regions) (bytes_of (unusable_part regions)) rs'"
    by (rule truncate_loop_spec) (use assms in \<open>auto simp: usable_part_def unusable_part_def\<close>)
  then show ?thesis
    by (auto simp: non_overlapping_regions_from_def Let_def usable_part_def unusable_part_def intro: that)
qed

lemma frame_ranges_snoc:
  "frame_ranges (rs @ [r]) = bind_res (frame_ranges rs) (\<lambda>acc.
     if mr_typ r = Usable then
       bind_res (usize_align_up (mr_base r) PAGE_SIZE) (\<lambda>up. bind_res (uadd (mr_base r) (mr_len r)) (\<lambda>e.
         if align_down_nat e PAGE_SIZE div PAGE_SIZE \<le> up div PAGE_SIZE then Ok acc
         else Ok (acc @ [(up div PAGE_SIZE, align_down_nat e PAGE_SIZE div PAGE_SIZE)])))
     else Ok acc)"
  by (simp add: frame_ranges_def fold_res_append Let_def bind_res_def split: sum.splits if_splits)

lemma frame_in_region:
  assumes "align_up_nat (mr_base r) PAGE_SIZE div PAGE_SIZE \<le> f"
    and "f < align_down_nat (mr_base r + mr_len r) PAGE_SIZE div PAGE_SIZE"
  shows "frame_bytes f \<subseteq> mr_bytes r"
proof -
  have "mr_base r \<le> align_up_nat (mr_base r) PAGE_SIZE" by (rule align_up_nat_ge) simp
  also have "\<dots> \<le> f * PAGE_SIZE"
    using assms(1) by (simp add: align_up_nat_def)
  finally have lo: "mr_base r \<le> f * PAGE_SIZE" .
  have "(f + 1) * PAGE_SIZE \<le> align_down_nat (mr_base r + mr_len r) PAGE_SIZE"
    using assms(2) by (simp add: align_down_nat_def)
  also have "\<dots> \<le> mr_base r + mr_len r" by (rule align_down_nat_le)
  finally show ?thesis using lo by (auto simp: frame_bytes_def mr_bytes_def)
qed

lemma frame_ranges_sound:
  assumes "frame_ranges rs = Ok ranges" "(s, e) \<in> set ranges" "s \<le> f" "f < e"
  shows "\<exists>r \<in> set rs. mr_typ r = Usable \<and> frame_bytes f \<subseteq> mr_bytes r"
  using assms
proof (induction rs arbitrary: ranges rule: rev_induct)
  case Nil
  then show ?case by (simp add: frame_ranges_def)
next
  case (snoc r rs)
  from snoc.prems(1) obtain acc where acc: "frame_ranges rs = Ok acc"
    by (auto simp: frame_ranges_snoc)
  show ?case
  proof (cases "(s, e) \<in> set acc")
    case True
    with snoc.IH [OF acc True] snoc.prems show ?thesis by auto
  next
    case False
    with snoc.prems acc have "mr_typ r = Usable" "s = align_up_nat (mr_base r) PAGE_SIZE div PAGE_SIZE"
      "e = align_down_nat (mr_base r + mr_len r) PAGE_SIZE div PAGE_SIZE"
      by (auto simp: frame_ranges_snoc usize_align_up_def split: if_splits)
    with frame_in_region snoc.prems(3,4) show ?thesis by auto
  qed
qed

lemma frame_ranges_total:
  "\<forall>r \<in> set rs. mr_end r + PAGE_SIZE \<le> USIZE_RANGE \<Longrightarrow> \<exists>ranges. frame_ranges rs = Ok ranges"
proof (induction rs rule: rev_induct)
  case Nil
  then show ?case by (simp add: frame_ranges_def)
next
  case (snoc r rs)
  then obtain acc where "frame_ranges rs = Ok acc" by auto
  moreover have "mr_end r + PAGE_SIZE \<le> USIZE_RANGE" using snoc.prems by simp
  ultimately show ?case
    by (simp add: frame_ranges_snoc usize_align_up_def uadd_def mr_end_def bind_res_def)
qed

section \<open>Properties\<close>

text \<open>(C8) Boot memory is safe: for firmware regions that end at least one page below the top of the
  address space, \<open>non_overlapping_regions_from\<close> followed by \<open>frame_allocator::init\<close> never panics, and
  every frame handed to the frame allocator lies wholly inside a region the firmware reported as
  \<open>Usable\<close> and shares no byte with any region of another kind (kernel image, modules, reserved, ...)
  that is not \<open>Reclaimable\<close>.\<close>

theorem boot_frames_safe:
  assumes "\<forall>r \<in> set regions. mr_end r + PAGE_SIZE \<le> USIZE_RANGE"
  shows "\<exists>out ranges. non_overlapping_regions_from regions = Ok out \<and> frame_ranges out = Ok ranges
    \<and> (\<forall>(s, e) \<in> set ranges. \<forall>f. s \<le> f \<and> f < e \<longrightarrow>
        (\<exists>r \<in> set regions. mr_typ r = Usable \<and> frame_bytes f \<subseteq> mr_bytes r)
        \<and> frame_bytes f \<inter> bytes_of (unusable_part regions) = {})"
proof -
  have ok: "\<forall>r \<in> set regions. mr_ok r" using assms by (auto simp: mr_ok_def)
  obtain us where out: "non_overlapping_regions_from regions = Ok (unusable_part regions @ us)"
    and cut: "cut_from (usable_part regions) (bytes_of (unusable_part regions)) us"
    by (rule non_overlapping_spec [OF ok])
  have "mr_end x + PAGE_SIZE \<le> USIZE_RANGE" if "x \<in> set (unusable_part regions @ us)" for x
  proof (cases "x \<in> set us")
    case True
    with cut obtain r where "r \<in> set regions" "mr_end x \<le> mr_end r"
      by (auto simp: cut_from_def usable_part_def)
    with assms show ?thesis by force
  next
    case False
    with that assms show ?thesis by (auto simp: unusable_part_def)
  qed
  then obtain ranges where ranges: "frame_ranges (unusable_part regions @ us) = Ok ranges"
    using frame_ranges_total by blast
  have "(\<exists>r \<in> set regions. mr_typ r = Usable \<and> frame_bytes f \<subseteq> mr_bytes r)
      \<and> frame_bytes f \<inter> bytes_of (unusable_part regions) = {}"
    if f: "(s, e) \<in> set ranges" "s \<le> f" "f < e" for s e f
  proof -
    from frame_ranges_sound [OF ranges f] obtain x where
      x: "x \<in> set (unusable_part regions @ us)" "mr_typ x = Usable" "frame_bytes f \<subseteq> mr_bytes x" by blast
    then have "x \<in> set us" by (auto simp: unusable_part_def)
    then have sub: "mr_bytes x \<subseteq> bytes_of us" by (auto simp: bytes_of_def)
    from \<open>x \<in> set us\<close> cut obtain r where "r \<in> set (usable_part regions)" "mr_typ x = mr_typ r"
      "mr_bytes x \<subseteq> mr_bytes r"
      unfolding cut_from_def by blast
    moreover from this have "r \<in> set regions" by (simp add: usable_part_def)
    ultimately have "\<exists>r \<in> set regions. mr_typ r = Usable \<and> frame_bytes f \<subseteq> mr_bytes r"
      using x(2,3) by (metis subset_trans)
    moreover have "mr_bytes x \<inter> bytes_of (unusable_part regions) = {}"
      using sub cut unfolding cut_from_def by blast
    ultimately show ?thesis using x(3) by blast
  qed
  with out ranges show ?thesis by blast
qed

theorem boot_frames_safe_witness:
  "\<exists>out ranges. non_overlapping_regions_from [mr_new 4096 40960 Usable, mr_new 10000 100 Kernel] = Ok out
    \<and> frame_ranges out = Ok ranges
    \<and> (\<forall>(s, e) \<in> set ranges. \<forall>f. s \<le> f \<and> f < e \<longrightarrow> frame_bytes f \<inter> {10000..<10100} = {})"
proof -
  have "\<forall>r \<in> set [mr_new 4096 40960 Usable, mr_new 10000 100 Kernel]. mr_end r + PAGE_SIZE \<le> USIZE_RANGE"
    by (simp add: mr_new_def mr_end_def)
  from boot_frames_safe [OF this]
  show ?thesis by (fastforce simp: unusable_part_def mr_new_def bytes_of_def mr_bytes_def)
qed

text \<open>\<open>non_overlapping_regions_from\<close> is exact: it keeps the unusable regions as they are, and the
  usable and reclaimable regions it returns cover exactly the usable bytes that no unusable region
  covers; each piece keeps the type of a region it was cut from.\<close>

theorem non_overlapping_exact:
  assumes "\<forall>r \<in> set regions. mr_ok r"
  shows "\<exists>us. non_overlapping_regions_from regions = Ok (unusable_part regions @ us)
    \<and> bytes_of us = bytes_of (usable_part regions) - bytes_of (unusable_part regions)
    \<and> (\<forall>x \<in> set us. \<exists>r \<in> set regions. mr_typ x = mr_typ r \<and> mr_bytes x \<subseteq> mr_bytes r)"
proof (rule non_overlapping_spec [OF assms])
  fix us
  assume "non_overlapping_regions_from regions = Ok (unusable_part regions @ us)"
    and cut: "cut_from (usable_part regions) (bytes_of (unusable_part regions)) us"
  moreover have "\<exists>r \<in> set regions. mr_typ x = mr_typ r \<and> mr_bytes x \<subseteq> mr_bytes r" if "x \<in> set us" for x
    using cut that by (fastforce simp: cut_from_def usable_part_def)
  ultimately show ?thesis by (auto simp: cut_from_def)
qed

theorem non_overlapping_exact_witness:
  "\<exists>us. non_overlapping_regions_from [mr_new 0 100 Usable, mr_new 20 10 Reserved] =
      Ok (mr_new 20 10 Reserved # us) \<and> bytes_of us = {0..<100} - {20..<30}"
proof -
  have "\<forall>r \<in> set [mr_new 0 100 Usable, mr_new 20 10 Reserved]. mr_ok r"
    by (simp add: mr_new_def mr_ok_def mr_end_def)
  from non_overlapping_exact [OF this] show ?thesis
    by (auto simp: unusable_part_def usable_part_def mr_new_def mr_bytes_def)
qed

end
