(* ===== verification/Credentials.thy ===== *)
theory Credentials
  imports Prelude
begin

text \<open>
  \<open>kernel/aster-nix/src/process/credentials/\<close> and the system calls that change credentials
  (\<open>syscall/setuid.rs\<close>, \<open>setreuid.rs\<close>, \<open>setresuid.rs\<close>, \<open>setfsuid.rs\<close>, their gid twins, \<open>setgroups.rs\<close>)
  and the set-uid part of \<open>execve.rs\<close>. The atomic fields are a record; each setter returns the new
  record, so that an early \<open>Err\<close> returns no changed state. \<open>i32\<close> arguments are 32-bit words read with
  \<open>sint\<close>.
\<close>

section \<open>The code\<close>

type_synonym uid = u32
type_synonym gid = u32

record credentials =
  ruid :: uid
  euid :: uid
  suid :: uid
  fsuid :: uid
  rgid :: gid
  egid :: gid
  sgid :: gid
  fsgid :: gid
  supplementary_gids :: "gid set"

definition is_root :: "u32 \<Rightarrow> bool" where
  "is_root u \<longleftrightarrow> u = 0"

definition cred_new :: "uid \<Rightarrow> gid \<Rightarrow> credentials" where
  "cred_new u g = \<lparr>ruid = u, euid = u, suid = u, fsuid = u, rgid = g, egid = g, sgid = g, fsgid = g,
                   supplementary_gids = {g}\<rparr>"

definition is_privileged :: "credentials \<Rightarrow> bool" where
  "is_privileged c \<longleftrightarrow> is_root (euid c)"

subsection \<open>User ids\<close>

definition set_uid :: "uid \<Rightarrow> credentials \<Rightarrow> credentials" where
  "set_uid u c = (if is_privileged c then c\<lparr>ruid := u, euid := u, suid := u\<rparr> else c\<lparr>euid := u\<rparr>)"

definition check_uid_perm ::
  "uid option \<Rightarrow> uid option \<Rightarrow> uid option \<Rightarrow> bool \<Rightarrow> credentials \<Rightarrow> unit res" where
  "check_uid_perm r e s ruid_may_be_old_suid c =
     (if is_privileged c then Ok ()
      else if (case r of None \<Rightarrow> False | Some r \<Rightarrow>
                 r \<noteq> ruid c \<and> r \<noteq> euid c \<and> (\<not> ruid_may_be_old_suid \<or> r \<noteq> suid c)) then Err EPERM
      else if (case e of None \<Rightarrow> False | Some e \<Rightarrow>
                 e \<noteq> ruid c \<and> e \<noteq> euid c \<and> e \<noteq> suid c) then Err EPERM
      else if (case s of None \<Rightarrow> False | Some s \<Rightarrow>
                 s \<noteq> ruid c \<and> s \<noteq> euid c \<and> s \<noteq> suid c) then Err EPERM
      else Ok ())"

definition set_resuid_unchecked ::
  "uid option \<Rightarrow> uid option \<Rightarrow> uid option \<Rightarrow> credentials \<Rightarrow> credentials" where
  "set_resuid_unchecked r e s c =
     (let c1 = (case r of None \<Rightarrow> c | Some r \<Rightarrow> c\<lparr>ruid := r\<rparr>);
          c2 = (case e of None \<Rightarrow> c1 | Some e \<Rightarrow> c1\<lparr>euid := e\<rparr>)
      in (case s of None \<Rightarrow> c2 | Some s \<Rightarrow> c2\<lparr>suid := s\<rparr>))"

definition set_reuid :: "uid option \<Rightarrow> uid option \<Rightarrow> credentials \<Rightarrow> credentials res" where
  "set_reuid r e c =
     bind_res (check_uid_perm r e None False c) (\<lambda>_.
       let should_set_suid = (r \<noteq> None \<or> (case e of None \<Rightarrow> False | Some e \<Rightarrow> e \<noteq> ruid c));
           c1 = set_resuid_unchecked r e None c;
           c2 = (if should_set_suid then c1\<lparr>suid := euid c1\<rparr> else c1)
       in Ok (c2\<lparr>fsuid := euid c2\<rparr>))"

definition set_resuid ::
  "uid option \<Rightarrow> uid option \<Rightarrow> uid option \<Rightarrow> credentials \<Rightarrow> credentials res" where
  "set_resuid r e s c =
     bind_res (check_uid_perm r e s True c) (\<lambda>_.
       let c1 = set_resuid_unchecked r e s c in Ok (c1\<lparr>fsuid := euid c1\<rparr>))"

definition set_fsuid :: "uid option \<Rightarrow> credentials \<Rightarrow> (uid \<times> credentials) res" where
  "set_fsuid f c =
     (let old_fsuid = fsuid c in
      case f of None \<Rightarrow> Ok (old_fsuid, c)
      | Some f \<Rightarrow>
          if is_privileged c then Ok (old_fsuid, c\<lparr>fsuid := f\<rparr>)
          else if f \<noteq> ruid c \<and> f \<noteq> euid c \<and> f \<noteq> suid c then Err EPERM
          else Ok (old_fsuid, c\<lparr>fsuid := f\<rparr>))"

definition set_euid :: "uid \<Rightarrow> credentials \<Rightarrow> credentials" where
  "set_euid e c = c\<lparr>euid := e\<rparr>"

definition reset_suid :: "credentials \<Rightarrow> credentials" where
  "reset_suid c = c\<lparr>suid := euid c\<rparr>"

subsection \<open>Group ids\<close>

definition set_gid :: "gid \<Rightarrow> credentials \<Rightarrow> credentials" where
  "set_gid g c = (if is_privileged c then c\<lparr>rgid := g, egid := g, sgid := g\<rparr> else c\<lparr>egid := g\<rparr>)"

definition check_gid_perm ::
  "gid option \<Rightarrow> gid option \<Rightarrow> gid option \<Rightarrow> bool \<Rightarrow> credentials \<Rightarrow> unit res" where
  "check_gid_perm r e s rgid_may_be_old_sgid c =
     (if is_privileged c then Ok ()
      else if (case r of None \<Rightarrow> False | Some r \<Rightarrow>
                 r \<noteq> rgid c \<and> r \<noteq> egid c \<and> (\<not> rgid_may_be_old_sgid \<or> r \<noteq> sgid c)) then Err EPERM
      else if (case e of None \<Rightarrow> False | Some e \<Rightarrow>
                 e \<noteq> rgid c \<and> e \<noteq> egid c \<and> e \<noteq> sgid c) then Err EPERM
      else if (case s of None \<Rightarrow> False | Some s \<Rightarrow>
                 s \<noteq> rgid c \<and> s \<noteq> egid c \<and> s \<noteq> sgid c) then Err EPERM
      else Ok ())"

definition set_resgid_unchecked ::
  "gid option \<Rightarrow> gid option \<Rightarrow> gid option \<Rightarrow> credentials \<Rightarrow> credentials" where
  "set_resgid_unchecked r e s c =
     (let c1 = (case r of None \<Rightarrow> c | Some r \<Rightarrow> c\<lparr>rgid := r\<rparr>);
          c2 = (case e of None \<Rightarrow> c1 | Some e \<Rightarrow> c1\<lparr>egid := e\<rparr>)
      in (case s of None \<Rightarrow> c2 | Some s \<Rightarrow> c2\<lparr>sgid := s\<rparr>))"

definition set_regid :: "gid option \<Rightarrow> gid option \<Rightarrow> credentials \<Rightarrow> credentials res" where
  "set_regid r e c =
     bind_res (check_gid_perm r e None False c) (\<lambda>_.
       let should_set_sgid = (r \<noteq> None \<or> (case e of None \<Rightarrow> False | Some e \<Rightarrow> e \<noteq> rgid c));
           c1 = set_resgid_unchecked r e None c;
           c2 = (if should_set_sgid then c1\<lparr>sgid := egid c1\<rparr> else c1)
       in Ok (c2\<lparr>fsgid := egid c2\<rparr>))"

definition set_resgid ::
  "gid option \<Rightarrow> gid option \<Rightarrow> gid option \<Rightarrow> credentials \<Rightarrow> credentials res" where
  "set_resgid r e s c =
     bind_res (check_gid_perm r e s True c) (\<lambda>_.
       let c1 = set_resgid_unchecked r e s c in Ok (c1\<lparr>fsgid := egid c1\<rparr>))"

definition set_fsgid :: "gid option \<Rightarrow> credentials \<Rightarrow> (gid \<times> credentials) res" where
  "set_fsgid f c =
     (let old_fsgid = fsgid c in
      case f of None \<Rightarrow> Ok (old_fsgid, c)
      | Some f \<Rightarrow>
          if is_privileged c then Ok (old_fsgid, c\<lparr>fsgid := f\<rparr>)
          else if f \<noteq> rgid c \<and> f \<noteq> egid c \<and> f \<noteq> sgid c then Err EPERM
          else Ok (old_fsgid, c\<lparr>fsgid := f\<rparr>))"

definition set_egid :: "gid \<Rightarrow> credentials \<Rightarrow> credentials" where
  "set_egid e c = c\<lparr>egid := e\<rparr>"

definition reset_sgid :: "credentials \<Rightarrow> credentials" where
  "reset_sgid c = c\<lparr>sgid := egid c\<rparr>"

subsection \<open>System calls\<close>

text \<open>\<open>if ruid > 0 { Some(Uid::new(ruid as u32)) } else { None }\<close>\<close>

definition positive_id :: "u32 \<Rightarrow> u32 option" where
  "positive_id i = (if 0 < sint i then Some i else None)"

definition nonneg_id :: "u32 \<Rightarrow> u32 option" where
  "nonneg_id i = (if sint i < 0 then None else Some i)"

definition sys_setuid :: "u32 \<Rightarrow> credentials \<Rightarrow> credentials res" where
  "sys_setuid u c = (if sint u < 0 then Err EINVAL else Ok (set_uid u c))"

definition sys_setreuid :: "u32 \<Rightarrow> u32 \<Rightarrow> credentials \<Rightarrow> credentials res" where
  "sys_setreuid r e c = set_reuid (positive_id r) (positive_id e) c"

definition sys_setresuid :: "u32 \<Rightarrow> u32 \<Rightarrow> u32 \<Rightarrow> credentials \<Rightarrow> credentials res" where
  "sys_setresuid r e s c = set_resuid (positive_id r) (positive_id e) (positive_id s) c"

definition sys_setfsuid :: "u32 \<Rightarrow> credentials \<Rightarrow> (u32 \<times> credentials) res" where
  "sys_setfsuid u c = set_fsuid (nonneg_id u) c"

definition sys_setgid :: "u32 \<Rightarrow> credentials \<Rightarrow> credentials res" where
  "sys_setgid g c = (if sint g < 0 then Err EINVAL else Ok (set_gid g c))"

definition sys_setregid :: "u32 \<Rightarrow> u32 \<Rightarrow> credentials \<Rightarrow> credentials res" where
  "sys_setregid r e c = set_regid (positive_id r) (positive_id e) c"

definition sys_setresgid :: "u32 \<Rightarrow> u32 \<Rightarrow> u32 \<Rightarrow> credentials \<Rightarrow> credentials res" where
  "sys_setresgid r e s c = set_resgid (positive_id r) (positive_id e) (positive_id s) c"

definition sys_setfsgid :: "u32 \<Rightarrow> credentials \<Rightarrow> (u32 \<times> credentials) res" where
  "sys_setfsgid g c = set_fsgid (nonneg_id g) c"

text \<open>Reading user memory is a parameter.\<close>

definition sys_setgroups :: "(nat \<Rightarrow> gid res) \<Rightarrow> nat \<Rightarrow> nat \<Rightarrow> credentials \<Rightarrow> credentials res" where
  "sys_setgroups read_val_from_user n group_list_addr c =
     (if 65536 < n then Err EINVAL
      else bind_res
        (fold_res (\<lambda>idx new_groups.
            bind_res (read_val_from_user (group_list_addr + idx * 4)) (\<lambda>g. Ok (insert g new_groups)))
          [0..<n] {})
        (\<lambda>new_groups. Ok (c\<lparr>supplementary_gids := new_groups\<rparr>)))"

text \<open>\<open>set_uid_from_elf\<close> and \<open>set_gid_from_elf\<close>: mode and owner of the executable may fail to be read.\<close>

definition set_uid_from_elf :: "bool res \<Rightarrow> uid res \<Rightarrow> credentials \<Rightarrow> credentials res" where
  "set_uid_from_elf has_set_uid owner c =
     bind_res has_set_uid (\<lambda>b.
     bind_res (if b then bind_res owner (\<lambda>u. Ok (set_euid u c)) else Ok c) (\<lambda>c1.
       Ok (reset_suid c1)))"

definition set_gid_from_elf :: "bool res \<Rightarrow> gid res \<Rightarrow> credentials \<Rightarrow> credentials res" where
  "set_gid_from_elf has_set_gid grp c =
     bind_res has_set_gid (\<lambda>b.
     bind_res (if b then bind_res grp (\<lambda>g. Ok (set_egid g c)) else Ok c) (\<lambda>c1.
       Ok (reset_sgid c1)))"

section \<open>Specification\<close>

definition user_ids :: "credentials \<Rightarrow> uid set" where
  "user_ids c = {ruid c, euid c, suid c}"

definition group_ids :: "credentials \<Rightarrow> gid set" where
  "group_ids c = {rgid c, egid c, sgid c}"

text \<open>The calls that check their arguments against the caller's ids.\<close>

datatype checked_call =
    SetReuid u32 u32 | SetResuid u32 u32 u32 | SetFsuid u32
  | SetRegid u32 u32 | SetResgid u32 u32 u32 | SetFsgid u32

fun do_checked_call :: "checked_call \<Rightarrow> credentials \<Rightarrow> credentials res" where
  "do_checked_call (SetReuid r e) c = sys_setreuid r e c"
| "do_checked_call (SetResuid r e s) c = sys_setresuid r e s c"
| "do_checked_call (SetFsuid u) c = bind_res (sys_setfsuid u c) (\<lambda>(_, c'). Ok c')"
| "do_checked_call (SetRegid r e) c = sys_setregid r e c"
| "do_checked_call (SetResgid r e s) c = sys_setresgid r e s c"
| "do_checked_call (SetFsgid g) c = bind_res (sys_setfsgid g c) (\<lambda>(_, c'). Ok c')"

text \<open>A process issues calls one after the other; a failing call changes nothing.\<close>

fun run_checked :: "checked_call list \<Rightarrow> credentials \<Rightarrow> credentials" where
  "run_checked [] c = c"
| "run_checked (k # ks) c =
     run_checked ks (case do_checked_call k c of Inl _ \<Rightarrow> c | Inr c' \<Rightarrow> c')"

section \<open>Interface: a triple of ids with checked setters\<close>

text \<open>Both families, user ids and group ids, promise this; \<open>tri\<close> reads the real, effective and saved id.\<close>

locale checked_ids =
  fixes tri :: "'c \<Rightarrow> u32 \<times> u32 \<times> u32"
    and fs :: "'c \<Rightarrow> u32"
    and priv :: "'c \<Rightarrow> bool"
    and set_re :: "u32 option \<Rightarrow> u32 option \<Rightarrow> 'c \<Rightarrow> 'c res"
    and set_res :: "u32 option \<Rightarrow> u32 option \<Rightarrow> u32 option \<Rightarrow> 'c \<Rightarrow> 'c res"
  assumes set_res_ok: "set_res r e s c = Ok c' \<Longrightarrow> tri c = (ri, ei, si) \<Longrightarrow>
      tri c' = (case_option ri id r, case_option ei id e, case_option si id s) \<and> fs c' = fst (snd (tri c'))
      \<and> (priv c \<or> set_option r \<union> set_option e \<union> set_option s \<subseteq> {ri, ei, si})"
    and set_re_ok: "set_re r e c = Ok c' \<Longrightarrow> tri c = (ri, ei, si) \<Longrightarrow>
      tri c' = (case_option ri id r, case_option ei id e,
                if r \<noteq> None \<or> (e \<noteq> None \<and> e \<noteq> Some ri) then case_option ei id e else si)
      \<and> fs c' = fst (snd (tri c'))
      \<and> (priv c \<or> set_option r \<subseteq> {ri, ei} \<and> set_option e \<subseteq> {ri, ei, si})"
begin

definition ids :: "'c \<Rightarrow> u32 set" where
  "ids c = (let (r, e, s) = tri c in {r, e, s})"

lemma set_res_closed: "\<not> priv c \<Longrightarrow> set_res r e s c = Ok c' \<Longrightarrow> ids c' \<subseteq> ids c \<and> fs c' \<in> ids c"
  using set_res_ok [of r e s c c']
  by (cases "tri c") (auto simp: ids_def split: option.splits)

lemma set_re_closed: "\<not> priv c \<Longrightarrow> set_re r e c = Ok c' \<Longrightarrow> ids c' \<subseteq> ids c \<and> fs c' \<in> ids c"
  using set_re_ok [of r e c c']
  by (cases "tri c") (auto simp: ids_def split: option.splits if_splits)

end

section \<open>Lemmas\<close>

lemmas cred_set_defs = set_resuid_unchecked_def set_resgid_unchecked_def Let_def

interpretation user: checked_ids "\<lambda>c. (ruid c, euid c, suid c)" fsuid is_privileged set_reuid set_resuid
proof unfold_locales
  fix r e s c c' ri ei si
  assume "set_resuid r e s c = Ok c'" "(ruid c, euid c, suid c) = (ri, ei, si)"
  then show "(ruid c', euid c', suid c') = (case_option ri id r, case_option ei id e, case_option si id s)
    \<and> fsuid c' = fst (snd (ruid c', euid c', suid c'))
    \<and> (is_privileged c \<or> set_option r \<union> set_option e \<union> set_option s \<subseteq> {ri, ei, si})"
    by (auto simp: set_resuid_def check_uid_perm_def cred_set_defs split: option.splits if_splits)
next
  fix r e c c' ri ei si
  assume "set_reuid r e c = Ok c'" "(ruid c, euid c, suid c) = (ri, ei, si)"
  then show "(ruid c', euid c', suid c') = (case_option ri id r, case_option ei id e,
                if r \<noteq> None \<or> (e \<noteq> None \<and> e \<noteq> Some ri) then case_option ei id e else si)
      \<and> fsuid c' = fst (snd (ruid c', euid c', suid c'))
      \<and> (is_privileged c \<or> set_option r \<subseteq> {ri, ei} \<and> set_option e \<subseteq> {ri, ei, si})"
    by (auto simp: set_reuid_def check_uid_perm_def cred_set_defs split: option.splits if_splits)
qed

interpretation group: checked_ids "\<lambda>c. (rgid c, egid c, sgid c)" fsgid is_privileged set_regid set_resgid
proof unfold_locales
  fix r e s c c' ri ei si
  assume "set_resgid r e s c = Ok c'" "(rgid c, egid c, sgid c) = (ri, ei, si)"
  then show "(rgid c', egid c', sgid c') = (case_option ri id r, case_option ei id e, case_option si id s)
    \<and> fsgid c' = fst (snd (rgid c', egid c', sgid c'))
    \<and> (is_privileged c \<or> set_option r \<union> set_option e \<union> set_option s \<subseteq> {ri, ei, si})"
    by (auto simp: set_resgid_def check_gid_perm_def cred_set_defs split: option.splits if_splits)
next
  fix r e c c' ri ei si
  assume "set_regid r e c = Ok c'" "(rgid c, egid c, sgid c) = (ri, ei, si)"
  then show "(rgid c', egid c', sgid c') = (case_option ri id r, case_option ei id e,
                if r \<noteq> None \<or> (e \<noteq> None \<and> e \<noteq> Some ri) then case_option ei id e else si)
      \<and> fsgid c' = fst (snd (rgid c', egid c', sgid c'))
      \<and> (is_privileged c \<or> set_option r \<subseteq> {ri, ei} \<and> set_option e \<subseteq> {ri, ei, si})"
    by (auto simp: set_regid_def check_gid_perm_def cred_set_defs split: option.splits if_splits)
qed

lemma user_ids_eq: "user.ids c = user_ids c" and group_ids_eq: "group.ids c = group_ids c"
  by (simp_all add: user.ids_def group.ids_def user_ids_def group_ids_def)

text \<open>The user-id calls leave the group ids alone and the other way round.\<close>

lemma user_calls_frame_groups:
  "set_resuid r e s c = Ok c' \<Longrightarrow> group_ids c' = group_ids c \<and> fsgid c' = fsgid c"
  "set_reuid r e c = Ok c' \<Longrightarrow> group_ids c' = group_ids c \<and> fsgid c' = fsgid c"
  "set_fsuid f c = Ok (old, c') \<Longrightarrow> group_ids c' = group_ids c \<and> fsgid c' = fsgid c \<and> user_ids c' = user_ids c"
  by (auto simp: set_resuid_def set_reuid_def set_fsuid_def cred_set_defs group_ids_def user_ids_def
      split: option.splits if_splits)

lemma group_calls_frame_users:
  "set_resgid r e s c = Ok c' \<Longrightarrow> user_ids c' = user_ids c \<and> fsuid c' = fsuid c \<and> euid c' = euid c"
  "set_regid r e c = Ok c' \<Longrightarrow> user_ids c' = user_ids c \<and> fsuid c' = fsuid c \<and> euid c' = euid c"
  "set_fsgid f c = Ok (old, c') \<Longrightarrow> user_ids c' = user_ids c \<and> fsuid c' = fsuid c \<and> euid c' = euid c
     \<and> group_ids c' = group_ids c"
  by (auto simp: set_resgid_def set_regid_def set_fsgid_def cred_set_defs group_ids_def user_ids_def
      split: option.splits if_splits)

lemma do_checked_call_closed:
  assumes "\<not> is_privileged c" "do_checked_call k c = Ok c'"
  shows "user_ids c' \<subseteq> user_ids c" "group_ids c' \<subseteq> group_ids c"
proof -
  have "user_ids c' \<subseteq> user_ids c \<and> group_ids c' \<subseteq> group_ids c"
  proof (cases k)
    case (SetReuid r e)
    with assms user.set_re_closed [OF assms(1)] user_calls_frame_groups(2) show ?thesis
      by (fastforce simp: sys_setreuid_def user_ids_eq)
  next
    case (SetResuid r e s)
    with assms user.set_res_closed [OF assms(1)] user_calls_frame_groups(1) show ?thesis
      by (fastforce simp: sys_setresuid_def user_ids_eq)
  next
    case (SetFsuid u)
    with assms user_calls_frame_groups(3) show ?thesis by (fastforce simp: sys_setfsuid_def)
  next
    case (SetRegid r e)
    with assms group.set_re_closed [OF assms(1)] group_calls_frame_users(2) show ?thesis
      by (fastforce simp: sys_setregid_def group_ids_eq)
  next
    case (SetResgid r e s)
    with assms group.set_res_closed [OF assms(1)] group_calls_frame_users(1) show ?thesis
      by (fastforce simp: sys_setresgid_def group_ids_eq)
  next
    case (SetFsgid g)
    with assms group_calls_frame_users(3) show ?thesis by (fastforce simp: sys_setfsgid_def)
  qed
  then show "user_ids c' \<subseteq> user_ids c" "group_ids c' \<subseteq> group_ids c" by auto
qed

lemma run_checked_closed:
  assumes "0 \<notin> user_ids c"
  shows "user_ids (run_checked ks c) \<subseteq> user_ids c \<and> group_ids (run_checked ks c) \<subseteq> group_ids c"
  using assms
proof (induction ks arbitrary: c)
  case Nil
  then show ?case by simp
next
  case (Cons k ks)
  have np: "\<not> is_privileged c" using Cons.prems by (auto simp: is_privileged_def is_root_def user_ids_def)
  show ?case
  proof (cases "do_checked_call k c")
    case (Inl e)
    with Cons show ?thesis by simp
  next
    case (Inr c')
    from do_checked_call_closed [OF np Inr] Cons.prems have "0 \<notin> user_ids c'" by blast
    from Cons.IH [OF this] do_checked_call_closed [OF np Inr] Inr show ?thesis by auto
  qed
qed

section \<open>Properties\<close>




text \<open>\<open>setresuid\<close> and \<open>setreuid\<close> cannot name root: an argument 0 leaves the id as it is, so that a
  privileged process with real id \<open>u\<close> cannot set its real id to 0 by these calls.\<close>

theorem setresuid_zero_is_ignored:
  assumes "is_privileged c"
  shows "sys_setresuid 0 0 0 c = Ok (c\<lparr>fsuid := euid c\<rparr>) \<and> sys_setreuid 0 0 c = Ok (c\<lparr>fsuid := euid c\<rparr>)"
  using assms
  by (simp add: sys_setresuid_def sys_setreuid_def positive_id_def set_resuid_def set_reuid_def
      check_uid_perm_def cred_set_defs)

theorem setresuid_zero_is_ignored_witness:
  "sys_setresuid 0 0 0 ((cred_new 0 0)\<lparr>ruid := 1000\<rparr>) = Ok ((cred_new 0 0)\<lparr>ruid := 1000\<rparr>)"
  using setresuid_zero_is_ignored [of "(cred_new 0 0)\<lparr>ruid := 1000\<rparr>"]
  by (simp add: is_privileged_def is_root_def cred_new_def)

end
