(* ===== verification/Rw_Lock.thy ===== *)
theory Rw_Lock
  imports Prelude
begin

text \<open>
  \<open>framework/aster-frame/src/sync/rwlock.rs\<close>: the spinning read-write lock with an upgradeable reader. The
  lock is one atomic \<open>usize\<close>: bit 63 writer, bit 62 upgradeable reader, bit 61 "being upgraded", the rest
  the reader count. Every atomic access of the source is one definition below, and one step of the
  relation \<open>rw_step\<close>, which interleaves the accesses of any number of threads: a failing \<open>try_read\<close> or
  \<open>try_upread\<close> takes two steps (its \<open>fetch_add\<close> or \<open>fetch_or\<close>, then its \<open>fetch_sub\<close>), and other threads run in
  between. \<open>read\<close>, \<open>write\<close>, \<open>upread\<close> and \<open>upgrade\<close> spin, that is, repeat these steps. All accesses are to one
  atomic variable, so the interleaving semantics is the one the memory model gives it. The
  \<open>*_irq_disabled\<close> variants differ by the interrupt guard only.
\<close>

section \<open>The atomic accesses\<close>

definition READER :: u64 where "READER = 1"
definition WRITER :: u64 where "WRITER = 2 ^ 63"
definition UPGRADEABLE_READER :: u64 where "UPGRADEABLE_READER = 2 ^ 62"
definition BEING_UPGRADED :: u64 where "BEING_UPGRADED = 2 ^ 61"
definition MAX_READER :: u64 where "MAX_READER = 2 ^ 60"

definition try_read_fetch :: "u64 \<Rightarrow> bool \<times> u64" where
  "try_read_fetch l = (l AND (WRITER OR MAX_READER OR BEING_UPGRADED) = 0, l + READER)"

definition read_sub :: "u64 \<Rightarrow> u64" where
  "read_sub l = l - READER"

definition try_read :: "u64 \<Rightarrow> bool \<times> u64" where
  "try_read l = (let (ok, l1) = try_read_fetch l in if ok then (True, l1) else (False, read_sub l1))"

definition try_write :: "u64 \<Rightarrow> bool \<times> u64" where
  "try_write l = (if l = 0 then (True, WRITER) else (False, l))"

definition write_drop :: "u64 \<Rightarrow> u64" where
  "write_drop l = l AND NOT WRITER"

datatype upread_outcome = UpTaken | UpUndo | UpRefused

definition try_upread_fetch :: "u64 \<Rightarrow> upread_outcome \<times> u64" where
  "try_upread_fetch l =
     (let old = l AND (WRITER OR UPGRADEABLE_READER)
      in (if old = 0 then UpTaken else if old = WRITER then UpUndo else UpRefused,
          l OR UPGRADEABLE_READER))"

definition upread_sub :: "u64 \<Rightarrow> u64" where
  "upread_sub l = l - UPGRADEABLE_READER"

definition try_upread :: "u64 \<Rightarrow> bool \<times> u64" where
  "try_upread l = (case try_upread_fetch l of
       (UpTaken, l1) \<Rightarrow> (True, l1)
     | (UpUndo, l1) \<Rightarrow> (False, upread_sub l1)
     | (UpRefused, l1) \<Rightarrow> (False, l1))"

definition upgrade_mark :: "u64 \<Rightarrow> u64" where
  "upgrade_mark l = l OR BEING_UPGRADED"

text \<open>\<open>try_upgrade\<close>: the compare-exchange, then the drop of the upgradeable guard.\<close>

definition try_upgrade_cas :: "u64 \<Rightarrow> bool \<times> u64" where
  "try_upgrade_cas l =
     (if l = UPGRADEABLE_READER OR BEING_UPGRADED then (True, WRITER OR UPGRADEABLE_READER)
      else (False, l))"

definition try_upgrade :: "u64 \<Rightarrow> bool \<times> u64" where
  "try_upgrade l = (case try_upgrade_cas l of
       (True, l1) \<Rightarrow> (True, upread_sub l1) | (False, l1) \<Rightarrow> (False, l1))"

section \<open>Threads\<close>

datatype pc = Idle | ReadFailing | Reading | Writing | UpFailing | UpReading | Upgrading | UpgDropping

record rw_state =
  rw_word :: u64
  pcs :: "pc list"

definition rw_init :: "nat \<Rightarrow> rw_state" where
  "rw_init n = \<lparr>rw_word = 0, pcs = replicate n Idle\<rparr>"

fun upread_pc :: "upread_outcome \<Rightarrow> pc" where
  "upread_pc UpTaken = UpReading"
| "upread_pc UpUndo = UpFailing"
| "upread_pc UpRefused = Idle"

text \<open>One atomic access by a thread at \<open>from\<close>, taking it to \<open>to\<close>: the local part of a step.\<close>

inductive access :: "pc \<Rightarrow> u64 \<Rightarrow> pc \<Rightarrow> u64 \<Rightarrow> bool" where
  read_fetch: "try_read_fetch l = (ok, l') \<Longrightarrow> access Idle l (if ok then Reading else ReadFailing) l'"
| read_undo: "access ReadFailing l Idle (read_sub l)"
| read_guard_drop: "access Reading l Idle (read_sub l)"
| write_cas: "try_write l = (ok, l') \<Longrightarrow> access Idle l (if ok then Writing else Idle) l'"
| write_guard_drop: "access Writing l Idle (write_drop l)"
| upread_fetch: "try_upread_fetch l = (out, l') \<Longrightarrow> access Idle l (upread_pc out) l'"
| upread_undo: "access UpFailing l Idle (upread_sub l)"
| upread_guard_drop: "access UpReading l Idle (upread_sub l)"
| upgrade_start: "access UpReading l Upgrading (upgrade_mark l)"
| upgrade_spin: "try_upgrade_cas l = (ok, l') \<Longrightarrow> access Upgrading l (if ok then UpgDropping else Upgrading) l'"
| try_upgrade_alone: "try_upgrade_cas l = (ok, l') \<Longrightarrow> access UpReading l (if ok then UpgDropping else UpReading) l'"
| upgrade_finish: "access UpgDropping l Writing (upread_sub l)"

inductive rw_step :: "rw_state \<Rightarrow> rw_state \<Rightarrow> bool" where
  thread: "i < length (pcs s) \<Longrightarrow> access (pcs s ! i) (rw_word s) p l \<Longrightarrow>
    rw_step s (s\<lparr>rw_word := l, pcs := (pcs s)[i := p]\<rparr>)"

inductive rw_reachable :: "nat \<Rightarrow> rw_state \<Rightarrow> bool" for n where
  start: "rw_reachable n (rw_init n)"
| step: "rw_reachable n s \<Longrightarrow> rw_step s t \<Longrightarrow> rw_reachable n t"

section \<open>Invariant\<close>

definition is_count :: "pc \<Rightarrow> bool" where "is_count p \<longleftrightarrow> p = Reading \<or> p = ReadFailing"
definition is_up :: "pc \<Rightarrow> bool" where
  "is_up p \<longleftrightarrow> p = UpFailing \<or> p = UpReading \<or> p = Upgrading \<or> p = UpgDropping"
definition is_upg :: "pc \<Rightarrow> bool" where "is_upg p \<longleftrightarrow> p = Upgrading"
definition is_wr :: "pc \<Rightarrow> bool" where "is_wr p \<longleftrightarrow> p = Writing \<or> p = UpgDropping"
definition is_shared :: "pc \<Rightarrow> bool" where
  "is_shared p \<longleftrightarrow> p = Reading \<or> p = UpReading \<or> p = Upgrading"

abbreviation cnt :: "(pc \<Rightarrow> bool) \<Rightarrow> pc list \<Rightarrow> nat" where
  "cnt P ps \<equiv> length (filter P ps)"

definition enc :: "nat \<Rightarrow> nat \<Rightarrow> nat \<Rightarrow> nat \<Rightarrow> nat" where
  "enc c b u w = c + b * 2 ^ 61 + u * 2 ^ 62 + w * 2 ^ 63"

definition rw_inv :: "rw_state \<Rightarrow> bool" where
  "rw_inv s \<longleftrightarrow>
     unat (rw_word s) = enc (cnt is_count (pcs s)) (cnt is_upg (pcs s)) (cnt is_up (pcs s)) (cnt is_wr (pcs s))
     \<and> cnt is_up (pcs s) \<le> 1 \<and> cnt is_wr (pcs s) \<le> 1
     \<and> (cnt is_wr (pcs s) = 1 \<longrightarrow> cnt is_shared (pcs s) = 0)"

section \<open>Arithmetic of the lock word\<close>

text \<open>A word \<open>l\<close> that encodes the four fields, each within its range.\<close>

definition encodes :: "u64 \<Rightarrow> nat \<Rightarrow> nat \<Rightarrow> nat \<Rightarrow> nat \<Rightarrow> bool" where
  "encodes l c b u w \<longleftrightarrow> unat l = enc c b u w \<and> c < 2 ^ 60 \<and> b \<le> 1 \<and> u \<le> 1 \<and> w \<le> 1"

lemmas rw_consts = READER_def WRITER_def UPGRADEABLE_READER_def BEING_UPGRADED_def MAX_READER_def

lemma bit_unat_odd: "bit (l :: u64) n \<longleftrightarrow> odd (unat l div 2 ^ n)"
  by (simp flip: bit_iff_odd add: bit_unsigned_iff)

lemma bit_exp64: "bit (2 ^ i :: u64) n \<longleftrightarrow> n = i \<and> i < 64"
  by (auto simp: bit_simps)

lemma unat_exp64:
  assumes "n < 64"
  shows "unat (2 ^ n :: u64) = 2 ^ n"
proof -
  have "(2::nat) ^ n < 2 ^ 64" using assms by (intro power_strict_increasing) auto
  then have "unat (of_nat (2 ^ n) :: u64) = 2 ^ n"
    by (subst unat_of_nat) (simp add: take_bit_nat_eq_self del: of_nat_power)
  then show ?thesis by simp
qed

lemma or_exp_unset:
  fixes l :: u64
  assumes "\<not> bit l n" "n < 64"
  shows "unat (l OR 2 ^ n) = unat l + 2 ^ n"
proof -
  have "unat (l OR 2 ^ n) = unat l OR 2 ^ n"
    using assms by (simp add: unsigned_or_eq unat_exp64)
  also have "\<dots> = unat l + 2 ^ n"
    using assms by (intro disjunctive_add [symmetric]) (auto simp: bit_simps)
  finally show ?thesis .
qed

lemma or_exp_set: "bit (l :: u64) n \<Longrightarrow> l OR 2 ^ n = l"
  by (rule bit_word_eqI) (auto simp: bit_or_iff bit_exp64)

lemma and_not_exp_unset: "\<not> bit (l :: u64) n \<Longrightarrow> l AND NOT (2 ^ n) = l"
  by (rule bit_word_eqI) (auto simp: bit_and_iff bit_not_iff bit_exp64)

lemma and_not_exp_set:
  assumes b: "bit (l :: u64) n"
  shows "l AND NOT (2 ^ n) = l - 2 ^ n"
proof -
  have "l = (l AND NOT (2 ^ n)) OR 2 ^ n"
    by (rule bit_word_eqI) (use b in \<open>auto simp: bit_and_iff bit_or_iff bit_not_iff bit_exp64\<close>)
  also have "\<dots> = (l AND NOT (2 ^ n)) + 2 ^ n"
    by (intro disjunctive_add [symmetric]) (auto simp: bit_and_iff bit_not_iff bit_exp64)
  finally show ?thesis by (metis add_diff_cancel_right')
qed

lemma and_or3_eq_0: "i < 64 \<Longrightarrow> j < 64 \<Longrightarrow> k < 64 \<Longrightarrow>
  l AND (2 ^ i OR 2 ^ j OR 2 ^ k) = (0 :: u64) \<longleftrightarrow> \<not> bit l i \<and> \<not> bit l j \<and> \<not> bit l k"
  by (auto simp: bit_eq_iff [where ?a = "_ :: u64"] bit_and_iff bit_or_iff bit_exp64)

lemma and_or2_eq:
  "i < 64 \<Longrightarrow> j < 64 \<Longrightarrow> i \<noteq> j \<Longrightarrow>
   l AND (2 ^ i OR 2 ^ j) = (0 :: u64) \<longleftrightarrow> \<not> bit l i \<and> \<not> bit l j"
  "i < 64 \<Longrightarrow> j < 64 \<Longrightarrow> i \<noteq> j \<Longrightarrow>
   l AND (2 ^ i OR 2 ^ j) = (2 ^ i :: u64) \<longleftrightarrow> bit l i \<and> \<not> bit l j"
  by (auto simp: bit_eq_iff [where ?a = "_ :: u64"] bit_and_iff bit_or_iff bit_exp64)

lemma enc_div:
  assumes "c < 2 ^ 60" "b \<le> 1" "u \<le> 1" "w \<le> 1"
  shows "enc c b u w div 2 ^ 63 = w" "enc c b u w div 2 ^ 62 = u + 2 * w"
    "enc c b u w div 2 ^ 61 = b + 2 * u + 4 * w" "enc c b u w div 2 ^ 60 = 2 * b + 4 * u + 8 * w"
  using assms by (auto simp: enc_def intro!: div_nat_eqI)

lemma encodes_bits:
  assumes "encodes l c b u w"
  shows "bit l 63 \<longleftrightarrow> w = 1" "bit l 62 \<longleftrightarrow> u = 1" "bit l 61 \<longleftrightarrow> b = 1" "\<not> bit l 60"
proof -
  have "odd w \<longleftrightarrow> w = 1" "odd u \<longleftrightarrow> u = 1" "odd b \<longleftrightarrow> b = 1"
    using assms by (auto simp: encodes_def le_Suc_eq)
  moreover have "unat l = enc c b u w" "c < 2 ^ 60" "b \<le> 1" "u \<le> 1" "w \<le> 1"
    using assms by (auto simp: encodes_def)
  ultimately show "bit l 63 \<longleftrightarrow> w = 1" "bit l 62 \<longleftrightarrow> u = 1" "bit l 61 \<longleftrightarrow> b = 1" "\<not> bit l 60"
    by (simp_all only: bit_unat_odd enc_div) simp_all
qed

lemma encodes_unique:
  "encodes l c b u w \<Longrightarrow> encodes l c' b' u' w' \<Longrightarrow> c = c' \<and> b = b' \<and> u = u' \<and> w = w'"
  using encodes_bits [of l c b u w] encodes_bits [of l c' b' u' w']
  by (auto simp: encodes_def enc_def le_Suc_eq)

lemma encodes_eqI: "encodes l c b u w \<Longrightarrow> encodes l' c b u w \<Longrightarrow> l = l'"
  by (metis encodes_def of_nat_unat_id)

lemma encodes_consts:
  "encodes 0 0 0 0 0" "encodes WRITER 0 0 0 1"
  "encodes (UPGRADEABLE_READER OR BEING_UPGRADED) 0 1 1 0" "encodes (WRITER OR UPGRADEABLE_READER) 0 0 1 1"
  by (simp_all add: encodes_def enc_def rw_consts)

lemma encodes_eq_iff:
  assumes "encodes l c b u w"
  shows "l = 0 \<longleftrightarrow> c = 0 \<and> b = 0 \<and> u = 0 \<and> w = 0"
    "l = UPGRADEABLE_READER OR BEING_UPGRADED \<longleftrightarrow> c = 0 \<and> b = 1 \<and> u = 1 \<and> w = 0"
  using assms encodes_consts encodes_unique encodes_eqI by metis+

lemma encodes_reader_add:
  assumes "encodes l c b u w" "c + 1 < 2 ^ 60"
  shows "encodes (l + READER) (c + 1) b u w"
proof -
  have "unat l + 1 < 2 ^ 64" using assms by (auto simp: encodes_def enc_def)
  then have "unat (l + READER) = unat l + 1" by (simp add: READER_def unat_word_ariths)
  with assms show ?thesis by (simp add: encodes_def enc_def)
qed

lemma encodes_reader_sub:
  assumes "encodes l (c + 1) b u w"
  shows "encodes (read_sub l) c b u w"
proof -
  have "l \<noteq> 0" using encodes_eq_iff(1) [OF assms] by simp
  then have "unat (l - READER) = unat l - 1" by (simp add: READER_def unat_minus_one)
  with assms show ?thesis by (simp add: encodes_def enc_def read_sub_def)
qed

lemma encodes_write_drop:
  assumes "encodes l c b u w"
  shows "encodes (write_drop l) c b u 0"
proof (cases "w = 1")
  case True
  with encodes_bits(1) [OF assms] have d: "write_drop l = l - 2 ^ 63"
    unfolding write_drop_def WRITER_def by (intro and_not_exp_set) blast
  have "unat (2 ^ 63 :: u64) \<le> unat l" using assms True by (simp add: encodes_def enc_def unat_exp64)
  then have "unat (write_drop l) = unat l - 2 ^ 63"
    unfolding d by (simp add: unat_sub word_le_nat_alt)
  with assms True show ?thesis by (simp add: encodes_def enc_def)
next
  case False
  with encodes_bits(1) [OF assms] have "write_drop l = l"
    unfolding write_drop_def WRITER_def by (intro and_not_exp_unset) blast
  with assms False show ?thesis by (auto simp: encodes_def le_Suc_eq)
qed

lemma encodes_up_or:
  assumes "encodes l c b u w"
  shows "encodes (l OR UPGRADEABLE_READER) c b 1 w"
proof (cases "u = 1")
  case True
  with encodes_bits(2) [OF assms] have "l OR UPGRADEABLE_READER = l"
    unfolding UPGRADEABLE_READER_def by (intro or_exp_set) blast
  with assms True show ?thesis by simp
next
  case False
  with encodes_bits(2) [OF assms] have "unat (l OR UPGRADEABLE_READER) = unat l + 2 ^ 62"
    unfolding UPGRADEABLE_READER_def by (intro or_exp_unset) auto
  with assms False show ?thesis by (auto simp: encodes_def enc_def le_Suc_eq)
qed

lemma encodes_upgrade_mark:
  assumes "encodes l c b u w"
  shows "encodes (upgrade_mark l) c 1 u w"
proof (cases "b = 1")
  case True
  with encodes_bits(3) [OF assms] have "upgrade_mark l = l"
    unfolding upgrade_mark_def BEING_UPGRADED_def by (intro or_exp_set) blast
  with assms True show ?thesis by simp
next
  case False
  with encodes_bits(3) [OF assms] have "unat (upgrade_mark l) = unat l + 2 ^ 61"
    unfolding upgrade_mark_def BEING_UPGRADED_def by (intro or_exp_unset) auto
  with assms False show ?thesis by (auto simp: encodes_def enc_def le_Suc_eq)
qed

lemma encodes_up_sub:
  assumes "encodes l c b 1 w"
  shows "encodes (upread_sub l) c b 0 w"
proof -
  have "unat (2 ^ 62 :: u64) \<le> unat l" using assms by (simp add: encodes_def enc_def unat_exp64)
  then have "unat (upread_sub l) = unat l - 2 ^ 62"
    unfolding upread_sub_def UPGRADEABLE_READER_def by (simp add: unat_sub word_le_nat_alt)
  with assms show ?thesis by (simp add: encodes_def enc_def)
qed

lemma try_read_fetch_enc:
  assumes "encodes l c b u w"
  shows "try_read_fetch l = (b = 0 \<and> w = 0, l + READER)"
proof -
  have "b = 0 \<longleftrightarrow> b \<noteq> 1" "w = 0 \<longleftrightarrow> w \<noteq> 1" using assms by (auto simp: encodes_def)
  moreover have "l AND (WRITER OR MAX_READER OR BEING_UPGRADED) = 0 \<longleftrightarrow> \<not> bit l 63 \<and> \<not> bit l 60 \<and> \<not> bit l 61"
    unfolding WRITER_def MAX_READER_def BEING_UPGRADED_def by (rule and_or3_eq_0) simp_all
  ultimately show ?thesis using encodes_bits [OF assms] by (auto simp: try_read_fetch_def)
qed

lemma try_upread_fetch_enc:
  assumes "encodes l c b u w"
  shows "try_upread_fetch l =
    (if u = 1 then UpRefused else if w = 1 then UpUndo else UpTaken, l OR UPGRADEABLE_READER)"
proof -
  have "l AND (WRITER OR UPGRADEABLE_READER) = 0 \<longleftrightarrow> u \<noteq> 1 \<and> w \<noteq> 1"
    "l AND (WRITER OR UPGRADEABLE_READER) = WRITER \<longleftrightarrow> u \<noteq> 1 \<and> w = 1"
    unfolding WRITER_def UPGRADEABLE_READER_def
    using encodes_bits [OF assms] and_or2_eq [of 63 62 l] by (simp_all only: numeral_less_iff) auto
  then show ?thesis by (auto simp: try_upread_fetch_def Let_def)
qed

lemma try_write_enc: "encodes l c b u w \<Longrightarrow>
  try_write l = (if c = 0 \<and> b = 0 \<and> u = 0 \<and> w = 0 then (True, WRITER) else (False, l))"
  by (simp add: try_write_def encodes_eq_iff)

lemma try_upgrade_cas_enc: "encodes l c b u w \<Longrightarrow>
  try_upgrade_cas l = (if c = 0 \<and> b = 1 \<and> u = 1 \<and> w = 0 then (True, WRITER OR UPGRADEABLE_READER) else (False, l))"
  by (simp add: try_upgrade_cas_def encodes_eq_iff)

section \<open>Every access keeps the invariant\<close>

abbreviation one_if :: "bool \<Rightarrow> nat" where
  "one_if Q \<equiv> (if Q then 1 else 0)"

lemmas pc_kinds = is_count_def is_up_def is_upg_def is_wr_def is_shared_def

text \<open>The counts around one access: \<open>c\<close>, \<open>b\<close>, \<open>u\<close>, \<open>w\<close>, \<open>h\<close> count all threads, the moving one included,
  that hold a reader unit, are upgrading, own the upgradeable bit, own the writer bit, read the data.\<close>

lemma access_keeps:
  assumes acc: "access p l p' l'" and enc: "encodes l c b u w"
    and wh: "w = 1 \<longrightarrow> h = 0" and hcu: "h \<le> c + u" and room: "c + 1 < 2 ^ 60"
    and bu: "b + one_if (is_up p \<and> \<not> is_upg p) \<le> u"
    and p: "one_if (is_count p) \<le> c" "one_if (is_upg p) \<le> b" "one_if (is_up p) \<le> u"
      "one_if (is_wr p) \<le> w" "one_if (is_shared p) \<le> h"
    and c': "c' + one_if (is_count p) = c + one_if (is_count p')"
    and b': "b' + one_if (is_upg p) = b + one_if (is_upg p')"
    and u': "u' + one_if (is_up p) = u + one_if (is_up p')"
    and w': "w' + one_if (is_wr p) = w + one_if (is_wr p')"
    and h': "h' + one_if (is_shared p) = h + one_if (is_shared p')"
  shows "encodes l' c' b' u' w' \<and> (w' = 1 \<longrightarrow> h' = 0)"
proof -
  have r: "b \<le> 1" "u \<le> 1" "w \<le> 1" using enc by (auto simp: encodes_def)
  note kinds = p c' b' u' w' h'
  from acc show ?thesis
  proof cases
    case (read_fetch ok)
    then show ?thesis
      using kinds wh r try_read_fetch_enc [OF enc] encodes_reader_add [OF enc room]
      by (auto simp: pc_kinds split: if_splits)
  next
    case read_undo
    then show ?thesis using kinds wh enc encodes_reader_sub [of l "c - 1" b u w]
      by (auto simp: pc_kinds)
  next
    case read_guard_drop
    then show ?thesis using kinds wh enc encodes_reader_sub [of l "c - 1" b u w]
      by (auto simp: pc_kinds)
  next
    case (write_cas ok)
    then show ?thesis using kinds wh hcu enc try_write_enc [OF enc] encodes_consts
      by (auto simp: pc_kinds split: if_splits)
  next
    case write_guard_drop
    then show ?thesis using kinds wh r encodes_write_drop [OF enc] by (auto simp: pc_kinds)
  next
    case (upread_fetch out)
    then show ?thesis using kinds wh r try_upread_fetch_enc [OF enc] encodes_up_or [OF enc]
      by (auto simp: pc_kinds le_Suc_eq split: if_splits)
  next
    case upread_undo
    then show ?thesis using kinds wh r enc encodes_up_sub [of l c b w] by (auto simp: pc_kinds le_Suc_eq)
  next
    case upread_guard_drop
    then show ?thesis using kinds wh r enc encodes_up_sub [of l c b w] by (auto simp: pc_kinds le_Suc_eq)
  next
    case upgrade_start
    then show ?thesis using kinds wh r bu encodes_upgrade_mark [OF enc] by (auto simp: pc_kinds le_Suc_eq)
  next
    case (upgrade_spin ok)
    then show ?thesis using kinds wh hcu enc try_upgrade_cas_enc [OF enc] encodes_consts
      by (auto simp: pc_kinds split: if_splits)
  next
    case (try_upgrade_alone ok)
    then show ?thesis using kinds wh r bu enc try_upgrade_cas_enc [OF enc]
      by (auto simp: pc_kinds split: if_splits)
  next
    case upgrade_finish
    then show ?thesis using kinds wh r enc encodes_up_sub [of l c b w] by (auto simp: pc_kinds le_Suc_eq)
  qed
qed

lemma cnt_mono_pair:
  "(\<And>p. P p \<Longrightarrow> Q p \<or> R p) \<Longrightarrow> cnt P ps \<le> cnt Q ps + cnt R ps"
proof (induction ps)
  case (Cons a ps)
  then have "cnt P ps \<le> cnt Q ps + cnt R ps" "P a \<Longrightarrow> Q a \<or> R a" by blast+
  then show ?case by (cases "P a"; cases "Q a"; cases "R a") simp_all
qed simp

lemma cnt_ge_one: "i < length ps \<Longrightarrow> one_if (P (ps ! i)) \<le> cnt P ps"
  using nth_mem [of i ps] by (auto simp: Suc_le_eq filter_empty_conv)

lemma cnt_split: "cnt (\<lambda>p. is_up p \<and> \<not> is_upg p) ps + cnt is_upg ps = cnt is_up ps"
  by (induction ps) (auto simp: pc_kinds)

lemma rw_inv_encodes:
  assumes "rw_inv s" "length (pcs s) < 2 ^ 60"
  shows "encodes (rw_word s) (cnt is_count (pcs s)) (cnt is_upg (pcs s)) (cnt is_up (pcs s)) (cnt is_wr (pcs s))"
proof -
  have "cnt is_count (pcs s) < 2 ^ 60" using assms(2) by (rule le_less_trans [OF length_filter_le])
  moreover have "cnt is_upg (pcs s) \<le> cnt is_up (pcs s)" using cnt_split [of "pcs s"] by linarith
  ultimately show ?thesis using assms(1) by (auto simp: encodes_def rw_inv_def)
qed

lemma rw_inv_step:
  assumes "rw_step s t" "rw_inv s" "length (pcs s) < 2 ^ 59"
  shows "rw_inv t" "length (pcs t) = length (pcs s)"
proof -
  obtain i p' l' where i: "i < length (pcs s)" and acc: "access (pcs s ! i) (rw_word s) p' l'"
    and t: "t = s\<lparr>rw_word := l', pcs := (pcs s)[i := p']\<rparr>"
    using assms(1) by (cases rule: rw_step.cases) auto
  note upd = count_filter_update [OF i, where y = p']
  have len: "length (pcs s) < 2 ^ 60" using assms(3) by simp
  have cb: "cnt is_count (pcs s) \<le> length (pcs s)" by simp
  have room: "cnt is_count (pcs s) + 1 < 2 ^ 60" using le_less_trans [OF cb assms(3)] by simp
  have bu: "cnt is_upg (pcs s) + one_if (is_up (pcs s ! i) \<and> \<not> is_upg (pcs s ! i)) \<le> cnt is_up (pcs s)"
    using cnt_split [of "pcs s"] cnt_ge_one [OF i, of "\<lambda>p. is_up p \<and> \<not> is_upg p"] by simp
  have wh: "cnt is_wr (pcs s) = 1 \<longrightarrow> cnt is_shared (pcs s) = 0" using assms(2) by (simp add: rw_inv_def)
  have hcu: "cnt is_shared (pcs s) \<le> cnt is_count (pcs s) + cnt is_up (pcs s)"
    by (rule cnt_mono_pair) (auto simp: pc_kinds)
  have "encodes l' (cnt is_count ((pcs s)[i := p'])) (cnt is_upg ((pcs s)[i := p']))
      (cnt is_up ((pcs s)[i := p'])) (cnt is_wr ((pcs s)[i := p']))
    \<and> (cnt is_wr ((pcs s)[i := p']) = 1 \<longrightarrow> cnt is_shared ((pcs s)[i := p']) = 0)"
    by (rule access_keeps [OF acc rw_inv_encodes [OF assms(2) len] wh hcu room bu
          cnt_ge_one [OF i] cnt_ge_one [OF i] cnt_ge_one [OF i] cnt_ge_one [OF i] cnt_ge_one [OF i]
          upd upd upd upd upd])
  then show "rw_inv t" by (auto simp: rw_inv_def encodes_def t)
  show "length (pcs t) = length (pcs s)" by (simp add: t)
qed

lemma rw_inv_init: "rw_inv (rw_init n)"
  by (simp add: rw_inv_def rw_init_def enc_def pc_kinds filter_False)

lemma rw_reachable_inv:
  assumes "rw_reachable n s" "n < 2 ^ 59"
  shows "rw_inv s \<and> length (pcs s) = n"
  using assms
proof (induction rule: rw_reachable.induct)
  case start
  show ?case by (simp add: rw_inv_init) (simp add: rw_init_def)
next
  case (step s t)
  with rw_inv_step show ?case by auto
qed

lemma cnt_zeroD: "cnt P ps = 0 \<Longrightarrow> i < length ps \<Longrightarrow> \<not> P (ps ! i)"
  by (simp add: filter_empty_conv)

lemma cnt_le_one_unique:
  assumes "cnt P ps \<le> 1" "i < length ps" "j < length ps" "P (ps ! i)" "P (ps ! j)"
  shows "i = j"
proof (rule ccontr)
  assume "i \<noteq> j"
  then have "{i, j} \<subseteq> {k. k < length ps \<and> P (ps ! k)}" "card {i, j} = 2" using assms by auto
  then have "2 \<le> card {k. k < length ps \<and> P (ps ! k)}"
    by (metis (no_types, lifting) card_mono finite_nat_set_iff_bounded mem_Collect_eq)
  with assms(1) show False by (simp add: length_filter_conv_card)
qed

lemma rw_reachable_exclusive:
  assumes "rw_reachable n s" "n < 2 ^ 59" "i < n" "j < n" "i \<noteq> j" "is_wr (pcs s ! i)"
  shows "\<not> is_wr (pcs s ! j)" "\<not> is_shared (pcs s ! j)"
proof -
  have inv: "rw_inv s" and len: "length (pcs s) = n"
    using rw_reachable_inv [OF assms(1,2)] by auto
  have w: "cnt is_wr (pcs s) \<le> 1" using inv by (simp add: rw_inv_def)
  show "\<not> is_wr (pcs s ! j)" using cnt_le_one_unique [OF w] assms(3-6) len by blast
  have "cnt is_wr (pcs s) = 1" using w cnt_ge_one [of i "pcs s" is_wr] assms(3,6) len by simp
  then have "cnt is_shared (pcs s) = 0" using inv by (simp add: rw_inv_def)
  then show "\<not> is_shared (pcs s ! j)" using cnt_zeroD assms(4) len by blast
qed

lemma rw_reachable_up_unique:
  assumes "rw_reachable n s" "n < 2 ^ 59" "i < n" "j < n" "is_up (pcs s ! i)" "is_up (pcs s ! j)"
  shows "i = j"
proof -
  have "cnt is_up (pcs s) \<le> 1" "length (pcs s) = n"
    using rw_reachable_inv [OF assms(1,2)] by (auto simp: rw_inv_def)
  then show ?thesis using cnt_le_one_unique assms(3-6) by blast
qed

lemma cnt_eq_0_iff: "cnt P ps = 0 \<longleftrightarrow> (\<forall>i<length ps. \<not> P (ps ! i))"
  by (simp add: filter_empty_conv all_set_conv_all_nth)

lemma rw_reachable_encodes:
  assumes "rw_reachable n s" "n < 2 ^ 59"
  shows "encodes (rw_word s) (cnt is_count (pcs s)) (cnt is_upg (pcs s)) (cnt is_up (pcs s)) (cnt is_wr (pcs s))"
    and "length (pcs s) = n"
  using rw_reachable_inv [OF assms] rw_inv_encodes [of s] assms(2) by auto

lemma not_idle_kinds: "p \<noteq> Idle \<longleftrightarrow> is_count p \<or> is_up p \<or> is_wr p"
  by (cases p) (auto simp: pc_kinds)

lemma rw_word_0_iff:
  assumes "rw_reachable n s" "n < 2 ^ 59"
  shows "rw_word s = 0 \<longleftrightarrow> (\<forall>i<n. pcs s ! i = Idle)"
proof -
  note e = rw_reachable_encodes [OF assms]
  have "cnt is_upg (pcs s) \<le> cnt is_up (pcs s)" using cnt_split [of "pcs s"] by linarith
  then have "rw_word s = 0 \<longleftrightarrow> cnt is_count (pcs s) = 0 \<and> cnt is_up (pcs s) = 0 \<and> cnt is_wr (pcs s) = 0"
    using encodes_eq_iff(1) [OF e(1)] by auto
  also have "\<dots> \<longleftrightarrow> (\<forall>i<n. \<not> (pcs s ! i \<noteq> Idle))"
    unfolding cnt_eq_0_iff not_idle_kinds e(2) by blast
  finally show ?thesis by simp
qed

lemma upgrade_cas_iff:
  assumes "rw_reachable n s" "n < 2 ^ 59" "i < n" "is_up (pcs s ! i)" "\<not> is_wr (pcs s ! i)"
  shows "fst (try_upgrade_cas (rw_word s)) \<longleftrightarrow>
    pcs s ! i = Upgrading \<and> (\<forall>j<n. pcs s ! j \<notin> {Reading, ReadFailing, Writing})"
proof -
  note e = rw_reachable_encodes [OF assms(1,2)]
  have u: "cnt is_up (pcs s) = 1"
    using cnt_ge_one [of i "pcs s" is_up] e assms(3,4) by (simp add: encodes_def)
  have b: "cnt is_upg (pcs s) = 1 \<longleftrightarrow> pcs s ! i = Upgrading"
  proof
    assume "cnt is_upg (pcs s) = 1"
    then obtain j where j: "j < n" "is_upg (pcs s ! j)"
      using cnt_eq_0_iff [of is_upg "pcs s"] e(2) by auto
    then have "j = i"
      using rw_reachable_up_unique [OF assms(1,2) j(1) assms(3)] assms(4) by (auto simp: pc_kinds)
    then show "pcs s ! i = Upgrading" using j by (simp add: pc_kinds)
  next
    assume "pcs s ! i = Upgrading"
    then show "cnt is_upg (pcs s) = 1"
      using cnt_ge_one [of i "pcs s" is_upg] cnt_split [of "pcs s"] u e(2) assms(3)
      by (simp add: is_upg_def)
  qed
  have c: "cnt is_count (pcs s) = 0 \<and> cnt is_wr (pcs s) = 0 \<longleftrightarrow>
      (\<forall>j<n. pcs s ! j \<notin> {Reading, ReadFailing, Writing, UpgDropping})"
    unfolding cnt_eq_0_iff e(2) by (auto simp: pc_kinds)
  have d: "pcs s ! j \<noteq> UpgDropping" if "j < n" for j
  proof
    assume j: "pcs s ! j = UpgDropping"
    then have "j = i" using rw_reachable_up_unique [OF assms(1,2) that assms(3) _ assms(4)] by (simp add: is_up_def)
    with j assms(5) show False by (simp add: is_wr_def)
  qed
  have "fst (try_upgrade_cas (rw_word s)) \<longleftrightarrow> rw_word s = UPGRADEABLE_READER OR BEING_UPGRADED"
    by (simp add: try_upgrade_cas_def)
  also have "\<dots> \<longleftrightarrow> pcs s ! i = Upgrading \<and> cnt is_count (pcs s) = 0 \<and> cnt is_wr (pcs s) = 0"
    unfolding encodes_eq_iff(2) [OF e(1)] using b u by auto
  finally show ?thesis unfolding c using d by auto
qed

section \<open>Properties of the lock\<close>

text \<open>(C1) Mutual exclusion of \<open>RwLock\<close>: in every state that fewer than \<open>2 ^ 59\<close> threads can
  reach by interleaving the atomic accesses of \<open>try_read\<close>, \<open>try_write\<close>, \<open>try_upread\<close>, \<open>upgrade\<close> and
  the guards' drops, while one thread holds a write guard no other thread holds a guard of any kind.
  Two threads never hold upgradeable guards together.\<close>

theorem rwlock_mutual_exclusion:
  assumes "rw_reachable n s" "n < 2 ^ 59" "i < n" "j < n" "i \<noteq> j"
  shows "\<not> (pcs s ! i = Writing \<and> pcs s ! j \<in> {Writing, Reading, UpReading, Upgrading})
    \<and> \<not> (pcs s ! i \<in> {UpReading, Upgrading} \<and> pcs s ! j \<in> {UpReading, Upgrading})"
  using rw_reachable_exclusive [OF assms] rw_reachable_up_unique [OF assms(1-4)] assms(5)
  by (auto simp: pc_kinds)

text \<open>A run of two threads: the first takes the write lock, the second fails to read.\<close>

lemma rw_move:
  assumes "rw_reachable n s" "i < length (pcs s)" "access (pcs s ! i) (rw_word s) p l"
    and "t = \<lparr>rw_word = l, pcs = (pcs s)[i := p]\<rparr>"
  shows "rw_reachable n t"
  using rw_reachable.step [OF assms(1) rw_step.thread [OF assms(2,3)]] assms(4) by (cases s) simp

lemma run_write_then_read:
  "rw_reachable 2 \<lparr>rw_word = WRITER + READER, pcs = [Writing, ReadFailing]\<rparr>"
proof -
  have "access Idle 0 Writing WRITER" using access.write_cas [of 0 True] by (simp add: try_write_def)
  then have "rw_reachable 2 \<lparr>rw_word = WRITER, pcs = [Writing, Idle]\<rparr>"
    by (intro rw_move [OF rw_reachable.start, where i = 0]) (auto simp: rw_init_def numeral_2_eq_2)
  moreover have "access Idle WRITER ReadFailing (WRITER + READER)"
    using access.read_fetch [of WRITER False] by (simp add: try_read_fetch_def rw_consts)
  ultimately show ?thesis by (elim rw_move [where i = 1]) auto
qed

theorem rwlock_mutual_exclusion_witness:
  "rw_reachable 2 \<lparr>rw_word = WRITER + READER, pcs = [Writing, ReadFailing]\<rparr>
   \<and> \<not> [Writing, ReadFailing] ! 1 \<in> {Writing, Reading, UpReading, Upgrading}"
  using rwlock_mutual_exclusion [OF run_write_then_read, of 0 1] run_write_then_read by simp

text \<open>(C32) The lock word leaks nothing: a write attempt succeeds exactly when every thread is idle, that
  is when every guard was dropped and every failed attempt has undone its addition.\<close>

theorem rwlock_write_iff_idle:
  assumes "rw_reachable n s" "n < 2 ^ 59"
  shows "fst (try_write (rw_word s)) \<longleftrightarrow> (\<forall>i<n. pcs s ! i = Idle)"
  using rw_word_0_iff [OF assms] by (simp add: try_write_def)

theorem rwlock_write_iff_idle_witness:
  "\<not> fst (try_write (WRITER + READER))"
  using rwlock_write_iff_idle [OF run_write_then_read] by (auto intro: exI [of _ 0])

text \<open>Upgrading: the compare-and-swap of \<open>try_upgrade\<close> by the thread that owns the upgradeable
  guard succeeds exactly when \<open>upgrade\<close> has set the mark \<open>BEING_UPGRADED\<close> and no thread holds, or is
  about to give back, a reader unit or the writer bit. In particular a \<open>try_upgrade\<close> called without
  \<open>upgrade\<close> never succeeds.\<close>

theorem rwlock_upgrade_iff:
  assumes "rw_reachable n s" "n < 2 ^ 59" "i < n" "pcs s ! i \<in> {UpReading, Upgrading}"
  shows "fst (try_upgrade (rw_word s)) \<longleftrightarrow>
    pcs s ! i = Upgrading \<and> (\<forall>j<n. pcs s ! j \<notin> {Reading, ReadFailing, Writing})"
  using upgrade_cas_iff [OF assms(1-3)] assms(4)
  by (auto simp: pc_kinds try_upgrade_def split: prod.splits bool.splits)

lemma run_upread: "rw_reachable 1 \<lparr>rw_word = UPGRADEABLE_READER, pcs = [UpReading]\<rparr>"
proof -
  have "access Idle 0 UpReading UPGRADEABLE_READER"
    using access.upread_fetch [of 0 UpTaken] by (simp add: try_upread_fetch_def rw_consts)
  then show ?thesis
    by (intro rw_move [OF rw_reachable.start, where i = 0]) (auto simp: rw_init_def)
qed

theorem rwlock_upgrade_iff_witness: "\<not> fst (try_upgrade UPGRADEABLE_READER)"
  using rwlock_upgrade_iff [OF run_upread, of 0] by simp

end
