(* ===== verification/Subject.thy ===== *)
theory Subject
  imports Prelude
begin

text \<open>
  \<open>kernel/aster-nix/src/events/subject.rs\<close>: observers of events. Observers are weak pointers, ordered by
  address (the key of the \<open>BTreeMap\<close>), here natural numbers; \<open>alive\<close> tells which of them can still be
  upgraded. A notification returns the observers whose \<open>on_events\<close> is called, in order.
\<close>

section \<open>The code\<close>

record 'f subject =
  observers :: "(nat \<times> 'f) list"
  num_observers :: nat

definition subject_new :: "'f subject" where
  "subject_new = \<lparr>observers = [], num_observers = 0\<rparr>"

text \<open>\<open>BTreeMap::insert\<close> and \<open>BTreeMap::remove_entry\<close> on the entries in key order.\<close>

fun btree_insert :: "nat \<Rightarrow> 'v \<Rightarrow> (nat \<times> 'v) list \<Rightarrow> 'v option \<times> (nat \<times> 'v) list" where
  "btree_insert k v [] = (None, [(k, v)])"
| "btree_insert k v ((k', v') # es) =
     (if k = k' then (Some v', (k, v) # es)
      else if k < k' then (None, (k, v) # (k', v') # es)
      else (let (old, es') = btree_insert k v es in (old, (k', v') # es')))"

definition btree_remove :: "nat \<Rightarrow> (nat \<times> 'v) list \<Rightarrow> 'v option \<times> (nat \<times> 'v) list" where
  "btree_remove k es = (map_of es k, filter (\<lambda>(k', _). k' \<noteq> k) es)"

definition register_observer :: "nat \<Rightarrow> 'f \<Rightarrow> 'f subject \<Rightarrow> 'f subject" where
  "register_observer ob flt s =
     (let (old, obs) = btree_insert ob flt (observers s);
          is_new = (old = None)
      in s\<lparr>observers := obs, num_observers := (if is_new then num_observers s + 1 else num_observers s)\<rparr>)"

definition unregister_observer :: "nat \<Rightarrow> 'f subject \<Rightarrow> nat option \<times> 'f subject" where
  "unregister_observer ob s =
     (let (old, obs) = btree_remove ob (observers s)
      in case old of
           None \<Rightarrow> (None, s\<lparr>observers := obs\<rparr>)
         | Some _ \<Rightarrow> (Some ob, s\<lparr>observers := obs, num_observers := num_observers s - 1\<rparr>))"

text \<open>The closure of \<open>retain\<close>, entry by entry: the entries kept, the observers called, the entries dropped.\<close>

fun retain_notify ::
  "(nat \<Rightarrow> bool) \<Rightarrow> ('f \<Rightarrow> 'e \<Rightarrow> bool) \<Rightarrow> 'e \<Rightarrow> (nat \<times> 'f) list \<Rightarrow> (nat \<times> 'f) list \<times> nat list \<times> nat" where
  "retain_notify alive flt ev [] = ([], [], 0)"
| "retain_notify alive flt ev ((ob, f) # es) =
     (let (kept, called, dropped) = retain_notify alive flt ev es
      in if alive ob then ((ob, f) # kept, if flt f ev then ob # called else called, dropped)
         else (kept, called, dropped + 1))"

definition notify_observers ::
  "(nat \<Rightarrow> bool) \<Rightarrow> ('f \<Rightarrow> 'e \<Rightarrow> bool) \<Rightarrow> 'e \<Rightarrow> 'f subject \<Rightarrow> nat list \<times> 'f subject" where
  "notify_observers alive flt ev s =
     (if num_observers s = 0 then ([], s)
      else let (kept, called, dropped) = retain_notify alive flt ev (observers s)
           in (called, s\<lparr>observers := kept, num_observers := num_observers s - dropped\<rparr>))"

section \<open>Invariant\<close>

definition subject_inv :: "'f subject \<Rightarrow> bool" where
  "subject_inv s \<longleftrightarrow> sorted_wrt (<) (map fst (observers s)) \<and> num_observers s = length (observers s)"

section \<open>Lemmas\<close>

lemma btree_insert_spec:
  assumes "sorted_wrt (<) (map fst es)" "btree_insert k v es = (old, es')"
  shows "old = map_of es k \<and> map_of es' = (map_of es)(k \<mapsto> v) \<and> sorted_wrt (<) (map fst es')
    \<and> set (map fst es') = insert k (set (map fst es))
    \<and> length es' = (if old = None then length es + 1 else length es)"
  using assms
proof (induction es arbitrary: old es')
  case (Cons e es)
  obtain k' v' where e: "e = (k', v')" by (cases e)
  have srt: "sorted_wrt (<) (map fst es)" "\<forall>x \<in> set (map fst es). k' < x"
    using Cons.prems(1) by (auto simp: e)
  obtain o1 es1 where r: "btree_insert k v es = (o1, es1)" by fastforce
  note IH = Cons.IH [OF srt(1) r]
  consider "k = k'" | "k < k'" | "k' < k" by linarith
  then show ?case
  proof cases
    case 1
    then show ?thesis using Cons.prems srt by (simp add: e fun_eq_iff) auto
  next
    case 2
    then have "k \<notin> fst ` set es" using srt(2) by force
    then have "map_of es k = None" by (simp add: map_of_eq_None_iff)
    moreover have "\<forall>x \<in> set (map fst es). k < x" using srt(2) 2 by auto
    moreover have "old = None" "es' = (k, v) # (k', v') # es" using Cons.prems(2) 2 by (simp_all add: e)
    ultimately show ?thesis using 2 srt by (simp add: e fun_eq_iff)
  next
    case 3
    then have "old = o1" "es' = (k', v') # es1" using Cons.prems(2) by (simp_all add: e r)
    with 3 IH srt(2) show ?thesis by (auto simp: e)
  qed
qed auto

lemma btree_insert_inv: "subject_inv s \<Longrightarrow> subject_inv (register_observer ob f s)"
  using btree_insert_spec [of "observers s" ob f]
  by (auto simp: subject_inv_def register_observer_def Let_def split: prod.splits)

lemma map_of_register: "subject_inv s \<Longrightarrow>
  map_of (observers (register_observer ob f s)) = (map_of (observers s))(ob \<mapsto> f)"
  using btree_insert_spec [of "observers s" ob f]
  by (auto simp: subject_inv_def register_observer_def Let_def split: prod.splits)

lemma sorted_wrt_map_filter: "sorted_wrt (<) (map fst es) \<Longrightarrow> sorted_wrt (<) (map fst (filter P es))"
  for es :: "(nat \<times> 'v) list"
  by (induction es) auto

lemma sorted_keys_distinct: "sorted_wrt (<) (map fst es) \<Longrightarrow> distinct (map fst es)"
  for es :: "(nat \<times> 'v) list"
  using strict_sorted_iff by blast

lemma retain_notify_eq:
  "retain_notify alive flt ev es =
     (filter (\<lambda>(ob, _). alive ob) es, map fst (filter (\<lambda>(ob, f). alive ob \<and> flt f ev) es),
      length (filter (\<lambda>(ob, _). \<not> alive ob) es))"
  by (induction es) auto

lemma length_filter_remove:
  "sorted_wrt (<) (map fst es) \<Longrightarrow> map_of es k = Some v \<Longrightarrow>
   length (filter (\<lambda>(k', _). k' \<noteq> k) es) = length es - 1" for es :: "(nat \<times> 'v) list"
proof (induction es)
  case (Cons e es)
  obtain k' v' where e: "e = (k', v')" by (cases e)
  show ?case
  proof (cases "k = k'")
    case True
    then have "filter (\<lambda>(a, _). a \<noteq> k) es = es" using Cons.prems(1) by (auto simp: e filter_id_conv)
    then show ?thesis by (simp add: e True)
  next
    case False
    then have "es \<noteq> []" using Cons.prems(2) by (auto simp: e)
    with False Cons show ?thesis by (simp add: e Suc_diff_1)
  qed
qed simp

lemma filter_key_absent: "k \<notin> fst ` set es \<Longrightarrow> filter (\<lambda>(k', _). k' \<noteq> k) es = es"
  by (induction es) auto

lemma map_of_filter_key: "map_of (filter (\<lambda>(k, _). P k) es) = map_of es |` {x. P x}"
  by (induction es) (auto simp: fun_eq_iff restrict_map_def)

lemma set_filter_keys:
  "distinct (map fst es) \<Longrightarrow> fst ` set (filter (\<lambda>(k, v). P k v) es) = {k. \<exists>v. map_of es k = Some v \<and> P k v}"
  by (induction es) (auto simp: image_iff split: if_splits)

lemma unregister_inv: "subject_inv s \<Longrightarrow> subject_inv (snd (unregister_observer ob s))"
  using length_filter_remove [of "observers s" ob]
  by (auto simp: subject_inv_def unregister_observer_def btree_remove_def sorted_wrt_map_filter
      map_of_eq_None_iff filter_key_absent split: option.splits)

lemma notify_observers_eq:
  assumes "subject_inv s"
  shows "notify_observers alive flt ev s =
    (map fst (filter (\<lambda>(ob, f). alive ob \<and> flt f ev) (observers s)),
     \<lparr>observers = filter (\<lambda>(ob, _). alive ob) (observers s),
      num_observers = length (filter (\<lambda>(ob, _). alive ob) (observers s))\<rparr>)"
proof (cases "num_observers s = 0")
  case True
  then show ?thesis using assms by (cases s) (simp add: notify_observers_def subject_inv_def)
next
  case False
  have "length (filter (\<lambda>(ob, _). alive ob) (observers s)) + length (filter (\<lambda>(ob, _). \<not> alive ob) (observers s))
      = length (observers s)"
    using sum_length_filter_compl [of "\<lambda>(ob, _). alive ob" "observers s"] by (simp add: case_prod_unfold)
  with False assms show ?thesis
    by (cases s) (simp add: notify_observers_def subject_inv_def retain_notify_eq)
qed

section \<open>Properties\<close>

text \<open>(C30) The observer table: registration, removal and notification keep the counter equal to the
  number of registered observers, so that the fast path of \<open>notify_observers\<close> never drops an event; a
  notification reaches every registered, live observer whose filter accepts the event exactly once,
  and forgets exactly the observers that were freed.\<close>

theorem notify_observers_correct:
  assumes "subject_inv s"
  shows "subject_inv (register_observer ob f s) \<and> subject_inv (snd (unregister_observer ob s))
    \<and> (case notify_observers alive flt ev s of (called, s') \<Rightarrow>
         distinct called \<and> set called = {x. \<exists>g. map_of (observers s) x = Some g \<and> alive x \<and> flt g ev}
         \<and> subject_inv s' \<and> map_of (observers s') = (map_of (observers s)) |` {x. alive x})"
proof -
  have d: "distinct (map fst (observers s))"
    using assms sorted_keys_distinct by (auto simp: subject_inv_def)
  have "distinct (map fst (filter P (observers s)))" for P
    using d by (rule distinct_map_filter)
  moreover have "fst ` set (filter (\<lambda>(ob, f). alive ob \<and> flt f ev) (observers s)) =
      {x. \<exists>g. map_of (observers s) x = Some g \<and> alive x \<and> flt g ev}"
    using set_filter_keys [OF d, of "\<lambda>ob f. alive ob \<and> flt f ev"] by simp
  moreover have "sorted_wrt (<) (map fst (filter (\<lambda>(ob, _). alive ob) (observers s)))"
    using assms by (simp add: subject_inv_def sorted_wrt_map_filter)
  ultimately show ?thesis
    using btree_insert_inv [OF assms] unregister_inv [OF assms]
    by (simp add: notify_observers_eq [OF assms] subject_inv_def map_of_filter_key)
qed

theorem notify_observers_correct_witness:
  "fst (notify_observers (\<lambda>x. x \<noteq> 7) (\<lambda>f ev. f \<le> ev) (3 :: nat)
     (register_observer 7 1 (register_observer 5 2 (register_observer 9 4 subject_new)))) = [5]
   \<and> subject_inv (register_observer 7 1 (register_observer 5 2 (register_observer 9 (4 :: nat) subject_new)))"
proof -
  have i: "subject_inv (register_observer 5 2 (register_observer 9 (4 :: nat) subject_new))"
    by (simp add: subject_inv_def register_observer_def subject_new_def)
  have "subject_inv (register_observer 7 1 (register_observer 5 2 (register_observer 9 (4 :: nat) subject_new)))"
    by (rule conjunct1 [OF notify_observers_correct [OF i]])
  then show ?thesis
    by (simp add: notify_observers_def register_observer_def subject_new_def)
qed

end
