(* ===== verification/File_Table.thy ===== *)
theory File_Table
  imports Slot_Vec Subject
begin

text \<open>
  \<open>kernel/aster-nix/src/fs/file_table.rs\<close> and the system calls on it (\<open>syscall/close.rs\<close>, \<open>dup.rs\<close>,
  \<open>fcntl.rs\<close>), over the slot vector and the observer subjects. A file descriptor is an \<open>i32\<close>;
  \<open>fd as usize\<close> extends its sign and \<open>idx as FileDescripter\<close> truncates. Growing the vector beyond the
  largest possible allocation is the panic of \<open>Vec\<close>; other allocations succeed. Files are values of a
  type \<open>'f\<close>; their methods are parameters. Operations that notify return the calls \<open>(observer, event)\<close>.
\<close>

section \<open>The code\<close>

type_synonym file_descripter = u32

datatype FdEvents = Close file_descripter | DropFileTable

type_synonym delivery = "nat \<times> FdEvents"

record 'f file_table_entry =
  fte_file :: 'f
  close_on_exec :: bool
  fte_subject :: "unit subject"

record 'f file_table =
  ft_table :: "'f file_table_entry slot_vec"
  ft_subject :: "unit subject"

definition fd_idx :: "file_descripter \<Rightarrow> nat" where
  "fd_idx fd = unat (scast fd :: usize)"

definition idx_fd :: "nat \<Rightarrow> file_descripter" where
  "idx_fd idx = of_nat idx"

definition fte_new :: "'f \<Rightarrow> bool \<Rightarrow> 'f file_table_entry" where
  "fte_new file coe = \<lparr>fte_file = file, close_on_exec = coe, fte_subject = subject_new\<rparr>"

definition fte_clone :: "'f file_table_entry \<Rightarrow> 'f file_table_entry" where
  "fte_clone e = \<lparr>fte_file = fte_file e, close_on_exec = close_on_exec e, fte_subject = subject_new\<rparr>"

definition ft_new :: "'f file_table" where
  "ft_new = \<lparr>ft_table = sv_new, ft_subject = subject_new\<rparr>"

text \<open>The three console files come from \<open>FsResolver::open\<close>, a failure of which panics.\<close>

definition new_with_stdio :: "'f res \<Rightarrow> 'f res \<Rightarrow> 'f res \<Rightarrow> 'f file_table res" where
  "new_with_stdio stdin stdout stderr =
     (case (stdin, stdout, stderr) of
        (Inr i, Inr ou, Inr er) \<Rightarrow>
          (case sv_put (fte_new i False) sv_new of None \<Rightarrow> panic | Some (_, t1) \<Rightarrow>
           case sv_put (fte_new ou False) t1 of None \<Rightarrow> panic | Some (_, t2) \<Rightarrow>
           case sv_put (fte_new er False) t2 of None \<Rightarrow> panic | Some (_, t3) \<Rightarrow>
             Ok \<lparr>ft_table = t3, ft_subject = subject_new\<rparr>)
      | _ \<Rightarrow> panic)"

text \<open>\<open>SlotVec::put_at\<close> with the growth of the vector: an index beyond \<open>isize::MAX\<close> cannot be allocated.\<close>

definition table_put_at :: "nat \<Rightarrow> 'a \<Rightarrow> 'a slot_vec \<Rightarrow> ('a option \<times> 'a slot_vec) res" where
  "table_put_at idx item v =
     (if slots_len v \<le> idx \<and> 2 ^ 63 \<le> idx + 1 then panic else Ok (sv_put_at idx item v))"

definition get_min_free_fd :: "'f file_table \<Rightarrow> file_descripter \<Rightarrow> nat" where
  "get_min_free_fd ft new_fd =
     (let new_fd = fd_idx new_fd in
      if sv_get (ft_table ft) new_fd = None then new_fd
      else (case find (\<lambda>idx. sv_get (ft_table ft) idx = None) [new_fd + 1..<slots_len (ft_table ft)] of
              Some idx \<Rightarrow> idx
            | None \<Rightarrow> slots_len (ft_table ft)))"

definition ft_dup :: "file_descripter \<Rightarrow> file_descripter \<Rightarrow> 'f file_table \<Rightarrow> (file_descripter \<times> 'f file_table) res" where
  "ft_dup fd new_fd ft =
     (case sv_get (ft_table ft) (fd_idx fd) of
        None \<Rightarrow> Err ENOENT
      | Some e \<Rightarrow>
          let entry = fte_clone e;
              min_free_fd = get_min_free_fd ft new_fd
          in bind_res (table_put_at min_free_fd entry (ft_table ft)) (\<lambda>(_, t).
               Ok (idx_fd min_free_fd, ft\<lparr>ft_table := t\<rparr>)))"

definition ft_insert :: "'f \<Rightarrow> 'f file_table \<Rightarrow> (file_descripter \<times> 'f file_table) res" where
  "ft_insert item ft =
     (let entry = fte_new item False in
      case sv_put entry (ft_table ft) of
        None \<Rightarrow> panic
      | Some (idx, t) \<Rightarrow> Ok (idx_fd idx, ft\<lparr>ft_table := t\<rparr>))"

text \<open>Notification of one event to a table and to the entry that leaves it.\<close>

definition notify_fd_events ::
  "(nat \<Rightarrow> bool) \<Rightarrow> FdEvents \<Rightarrow> 'f file_table_entry \<Rightarrow> 'f file_table \<Rightarrow> delivery list \<times> 'f file_table" where
  "notify_fd_events alive ev entry ft =
     (let (called, s) = notify_observers alive (\<lambda>_ _. True) ev (ft_subject ft);
          (called', _) = notify_observers alive (\<lambda>_ _. True) ev (fte_subject entry)
      in (map (\<lambda>ob. (ob, ev)) (called @ called'), ft\<lparr>ft_subject := s\<rparr>))"

definition insert_at ::
  "(nat \<Rightarrow> bool) \<Rightarrow> file_descripter \<Rightarrow> 'f \<Rightarrow> 'f file_table \<Rightarrow> ('f option \<times> delivery list \<times> 'f file_table) res" where
  "insert_at alive fd item ft =
     bind_res (table_put_at (fd_idx fd) (fte_new item False) (ft_table ft)) (\<lambda>(entry, t).
       let ft1 = ft\<lparr>ft_table := t\<rparr> in
       case entry of
         None \<Rightarrow> Ok (None, [], ft1)
       | Some e \<Rightarrow> let (ds, ft2) = notify_fd_events alive (Close fd) e ft1
                   in Ok (Some (fte_file e), ds, ft2))"

definition close_file ::
  "(nat \<Rightarrow> bool) \<Rightarrow> file_descripter \<Rightarrow> 'f file_table \<Rightarrow> 'f option \<times> delivery list \<times> 'f file_table" where
  "close_file alive fd ft =
     (let (entry, t) = sv_remove (fd_idx fd) (ft_table ft);
          ft1 = ft\<lparr>ft_table := t\<rparr>
      in case entry of
           None \<Rightarrow> (None, [], ft1)
         | Some e \<Rightarrow> let (ds, ft2) = notify_fd_events alive (Close fd) e ft1
                     in (Some (fte_file e), ds, ft2))"

definition close_all_step ::
  "(nat \<Rightarrow> bool) \<Rightarrow> file_descripter \<Rightarrow> 'f list \<times> delivery list \<times> 'f file_table
     \<Rightarrow> ('f list \<times> delivery list \<times> 'f file_table) res" where
  "close_all_step alive fd = (\<lambda>(closed_files, ds, ft).
     (case close_file alive fd ft of
        (None, _, _) \<Rightarrow> panic
      | (Some file, ds', ft') \<Rightarrow> Ok (closed_files @ [file], ds @ ds', ft')))"

definition close_all ::
  "(nat \<Rightarrow> bool) \<Rightarrow> 'f file_table \<Rightarrow> ('f list \<times> delivery list \<times> 'f file_table) res" where
  "close_all alive ft =
     (let closed_fds = map (\<lambda>(idx, _). idx_fd idx) (idxes_and_items (ft_table ft))
      in fold_res (close_all_step alive) closed_fds ([], [], ft))"

definition get_file :: "file_descripter \<Rightarrow> 'f file_table \<Rightarrow> 'f res" where
  "get_file fd ft =
     (case sv_get (ft_table ft) (fd_idx fd) of None \<Rightarrow> Err EBADF | Some e \<Rightarrow> Ok (fte_file e))"

definition get_entry :: "file_descripter \<Rightarrow> 'f file_table \<Rightarrow> 'f file_table_entry res" where
  "get_entry fd ft = (case sv_get (ft_table ft) (fd_idx fd) of None \<Rightarrow> Err EBADF | Some e \<Rightarrow> Ok e)"

definition fds_and_files :: "'f file_table \<Rightarrow> (file_descripter \<times> 'f) list" where
  "fds_and_files ft = map (\<lambda>(idx, entry). (idx_fd idx, fte_file entry)) (idxes_and_items (ft_table ft))"

definition ft_clone :: "'f file_table \<Rightarrow> 'f file_table" where
  "ft_clone ft =
     \<lparr>ft_table = (ft_table ft)\<lparr>slots := map (map_option fte_clone) (slots (ft_table ft))\<rparr>,
      ft_subject = subject_new\<rparr>"

definition ft_drop :: "(nat \<Rightarrow> bool) \<Rightarrow> 'f file_table \<Rightarrow> delivery list" where
  "ft_drop alive ft =
     map (\<lambda>ob. (ob, DropFileTable)) (fst (notify_observers alive (\<lambda>_ _. True) DropFileTable (ft_subject ft)))"

subsection \<open>System calls\<close>

text \<open>\<open>clean_for_close\<close> is the file's method.\<close>

definition sys_close ::
  "('f \<Rightarrow> unit res) \<Rightarrow> (nat \<Rightarrow> bool) \<Rightarrow> file_descripter \<Rightarrow> 'f file_table \<Rightarrow> int res \<times> 'f file_table" where
  "sys_close clean_for_close alive fd ft =
     (case get_file fd ft of
        Inl e \<Rightarrow> (Inl e, ft)
      | Inr _ \<Rightarrow>
          (case close_file alive fd ft of
             (None, _, ft') \<Rightarrow> (panic, ft')
           | (Some file, _, ft') \<Rightarrow> (bind_res (clean_for_close file) (\<lambda>_. Ok 0), ft')))"

definition sys_dup :: "file_descripter \<Rightarrow> 'f file_table \<Rightarrow> (file_descripter \<times> 'f file_table) res" where
  "sys_dup old_fd ft = bind_res (get_file old_fd ft) (\<lambda>file. ft_insert file ft)"

definition sys_dup2 ::
  "(nat \<Rightarrow> bool) \<Rightarrow> file_descripter \<Rightarrow> file_descripter \<Rightarrow> 'f file_table \<Rightarrow> (file_descripter \<times> 'f file_table) res" where
  "sys_dup2 alive old_fd new_fd ft =
     bind_res (get_file old_fd ft) (\<lambda>file.
       if old_fd \<noteq> new_fd
       then bind_res (insert_at alive new_fd file ft) (\<lambda>(_, _, ft'). Ok (new_fd, ft'))
       else Ok (new_fd, ft))"

datatype FcntlCmd = F_DUPFD | F_GETFD | F_SETFD | F_GETFL | F_SETFL | F_DUPFD_CLOEXEC

definition FcntlCmd_try_from :: "u32 \<Rightarrow> FcntlCmd res" where
  "FcntlCmd_try_from cmd =
     (if cmd = 0 then Ok F_DUPFD else if cmd = 1 then Ok F_GETFD else if cmd = 2 then Ok F_SETFD
      else if cmd = 3 then Ok F_GETFL else if cmd = 4 then Ok F_SETFL
      else if cmd = 1030 then Ok F_DUPFD_CLOEXEC else Err EINVAL)"

text \<open>\<open>StatusFlags\<close>, the bits of \<open>fs/utils/status_flags.rs\<close>.\<close>

definition O_APPEND :: u32 where "O_APPEND = push_bit 10 1"
definition O_NONBLOCK :: u32 where "O_NONBLOCK = push_bit 11 1"
definition O_DSYNC :: u32 where "O_DSYNC = push_bit 12 1"
definition O_ASYNC :: u32 where "O_ASYNC = push_bit 13 1"
definition O_DIRECT :: u32 where "O_DIRECT = push_bit 14 1"
definition O_NOATIME :: u32 where "O_NOATIME = push_bit 18 1"
definition O_SYNC :: u32 where "O_SYNC = push_bit 20 1"
definition O_PATH :: u32 where "O_PATH = push_bit 21 1"

definition status_flags_all :: u32 where
  "status_flags_all = O_APPEND OR O_NONBLOCK OR O_DSYNC OR O_ASYNC OR O_DIRECT OR O_NOATIME OR O_SYNC OR O_PATH"

definition valid_flags_mask :: u32 where
  "valid_flags_mask = O_APPEND OR O_ASYNC OR O_DIRECT OR O_NOATIME OR O_NONBLOCK"

definition new_status_flags :: "u32 \<Rightarrow> u64 \<Rightarrow> u32" where
  "new_status_flags old arg =
     (let status_flags = old AND NOT valid_flags_mask
      in status_flags OR ((ucast arg AND status_flags_all) AND valid_flags_mask))"

text \<open>\<open>sys_fcntl\<close>. The file's methods are parameters; the result carries the value, the table and the call
  \<open>file.set_status_flags(flags)\<close> made, if any.\<close>

definition sys_fcntl ::
  "('f \<Rightarrow> u32) \<Rightarrow> ('f \<Rightarrow> u32) \<Rightarrow> ('f \<Rightarrow> u32 \<Rightarrow> unit res) \<Rightarrow> file_descripter \<Rightarrow> u32 \<Rightarrow> u64 \<Rightarrow> 'f file_table
     \<Rightarrow> (u32 \<times> 'f file_table \<times> ('f \<times> u32) option) res" where
  "sys_fcntl status_flags access_mode set_status_flags fd cmd arg ft =
     bind_res (FcntlCmd_try_from cmd) (\<lambda>fcntl_cmd. case fcntl_cmd of
       F_DUPFD_CLOEXEC \<Rightarrow>
         bind_res (ft_dup fd (ucast arg) ft) (\<lambda>(new_fd, ft'). Ok (new_fd, ft', None))
     | F_SETFD \<Rightarrow> if arg \<noteq> 1 then panic else Ok (0, ft, None)
     | F_GETFL \<Rightarrow>
         bind_res (get_file fd ft) (\<lambda>file. Ok (status_flags file OR access_mode file, ft, None))
     | F_SETFL \<Rightarrow>
         bind_res (get_file fd ft) (\<lambda>file.
           let flags = new_status_flags (status_flags file) arg
           in bind_res (set_status_flags file flags) (\<lambda>_. Ok (0, ft, Some (file, flags))))
     | _ \<Rightarrow> panic)"

section \<open>Specification\<close>

text \<open>What the table means: the file behind each descriptor number.\<close>

definition ft_files :: "'f file_table \<Rightarrow> nat \<rightharpoonup> 'f" where
  "ft_files ft i = map_option fte_file (sv_lookup (ft_table ft) i)"

definition ft_inv :: "'f file_table \<Rightarrow> bool" where
  "ft_inv ft \<longleftrightarrow> sv_inv (ft_table ft) \<and> slots_len (ft_table ft) < 2 ^ 31"

section \<open>Lemmas\<close>

lemma fd_idx_eq: "fd_idx fd = (if unat fd < 2 ^ 31 then unat fd else 2 ^ 64 - 2 ^ 32 + unat fd)"
  unfolding fd_idx_def by (rule scast32)

lemma fd_idx_neg: "2 ^ 31 \<le> unat fd \<Longrightarrow> 2 ^ 63 \<le> fd_idx fd"
  by (simp add: fd_idx_eq)

lemma fd_idx_idx_fd: "idx < 2 ^ 31 \<Longrightarrow> fd_idx (idx_fd idx) = idx"
  by (simp add: fd_idx_eq idx_fd_def unat_of_nat take_bit_nat_eq_self)

lemma fd_idx_inj: "fd_idx a = fd_idx b \<longleftrightarrow> a = b"
  using unsigned_less [of a, where ?'a = nat] unsigned_less [of b, where ?'a = nat]
  by (auto simp: fd_idx_eq word_unat_eq_iff split: if_splits)

lemma sv_lookup_len: "sv_lookup v i \<noteq> None \<Longrightarrow> i < slots_len v"
  by (auto simp: sv_lookup_def slots_len_def split: if_splits)

lemma ft_files_None: "ft_files ft i = None \<longleftrightarrow> sv_lookup (ft_table ft) i = None"
  by (simp add: ft_files_def)

lemma slots_len_put: "sv_put x v = Some (i, v') \<Longrightarrow> slots_len v' \<le> slots_len v + 1"
  by (auto simp: sv_put_def slots_len_def split: if_splits option.splits)

lemma slots_len_put_at: "slots_len (snd (sv_put_at i x v)) = max (slots_len v) (i + 1)"
  by (simp add: sv_put_at_def slots_len_def Let_def)

lemma ft_inv_new: "ft_inv ft_new"
  by (simp add: ft_inv_def ft_new_def sv_inv_new slots_len_def) (simp add: sv_new_def)

lemma get_min_free_fd_spec:
  assumes "n = get_min_free_fd ft new_fd"
  shows "fd_idx new_fd \<le> n" "sv_lookup (ft_table ft) n = None"
    "\<forall>j. fd_idx new_fd \<le> j \<longrightarrow> j < n \<longrightarrow> sv_lookup (ft_table ft) j \<noteq> None"
    "fd_idx new_fd < slots_len (ft_table ft) \<longrightarrow> n \<le> slots_len (ft_table ft)"
proof -
  let ?P = "\<lambda>idx. sv_lookup (ft_table ft) idx = None"
  define k where "k = fd_idx new_fd"
  define m where "m = slots_len (ft_table ft)"
  have out: "?P m" by (simp add: m_def sv_lookup_def slots_len_def)
  have "k \<le> n \<and> ?P n \<and> (\<forall>j. k \<le> j \<longrightarrow> j < n \<longrightarrow> \<not> ?P j) \<and> (k < m \<longrightarrow> n \<le> m)"
  proof (cases "?P k")
    case True
    then have "n = k" using assms by (simp add: get_min_free_fd_def k_def)
    with True show ?thesis by auto
  next
    case False
    then have km: "k < m" using sv_lookup_len [of "ft_table ft" k] by (simp add: m_def)
    have n: "n = (case find ?P [k + 1..<m] of None \<Rightarrow> m | Some idx \<Rightarrow> idx)"
      by (simp only: assms get_min_free_fd_def Let_def sv_get_lookup k_def [symmetric] m_def [symmetric]
          False if_False)
    show ?thesis
    proof (cases "find ?P [k + 1..<m]")
      case None
      then have "n = m" using n by simp
      moreover have "\<not> ?P j" if "k \<le> j" "j < m" for j
        using that None False by (cases "j = k") (auto simp: find_upt_None)
      ultimately show ?thesis using km out by auto
    next
      case (Some i)
      then have "n = i" using n by simp
      moreover from find_upt_Some [OF Some] have "k + 1 \<le> i" "i < m" "?P i" and l: "\<And>j. k + 1 \<le> j \<Longrightarrow> j < i \<Longrightarrow> \<not> ?P j"
        by auto
      moreover have "\<not> ?P j" if "k \<le> j" "j < i" for j
        using that l [of j] False by (cases "j = k") auto
      ultimately show ?thesis by auto
    qed
  qed
  then show "fd_idx new_fd \<le> n" "sv_lookup (ft_table ft) n = None"
    "\<forall>j. fd_idx new_fd \<le> j \<longrightarrow> j < n \<longrightarrow> sv_lookup (ft_table ft) j \<noteq> None"
    "fd_idx new_fd < slots_len (ft_table ft) \<longrightarrow> n \<le> slots_len (ft_table ft)"
    by (simp_all add: k_def m_def)
qed

lemma ft_insert_spec:
  assumes inv: "ft_inv ft" and room: "slots_len (ft_table ft) + 1 < 2 ^ 31"
  obtains fd ft' where "ft_insert f ft = Ok (fd, ft')" "ft_files ft (fd_idx fd) = None"
    "\<forall>j < fd_idx fd. ft_files ft j \<noteq> None" "ft_files ft' = (ft_files ft)(fd_idx fd \<mapsto> f)" "ft_inv ft'"
    "ft_subject ft' = ft_subject ft"
proof -
  have sv: "sv_inv (ft_table ft)" using inv by (simp add: ft_inv_def)
  obtain i t where put: "sv_put (fte_new f False) (ft_table ft) = Some (i, t)" by (rule sv_put_total [OF sv])
  note sp = sv_put_spec [OF sv put]
  have "sv_lookup t i \<noteq> None" using sp(2) by simp
  then have i: "i < 2 ^ 31" using sv_lookup_len slots_len_put [OF put] room by fastforce
  show ?thesis
  proof (rule that [of "idx_fd i" "ft\<lparr>ft_table := t\<rparr>"])
    show "ft_insert f ft = Ok (idx_fd i, ft\<lparr>ft_table := t\<rparr>)" by (simp add: ft_insert_def put)
    show "ft_inv (ft\<lparr>ft_table := t\<rparr>)" using sp(3) slots_len_put [OF put] room by (simp add: ft_inv_def)
    show "ft_files (ft\<lparr>ft_table := t\<rparr>) = (ft_files ft)(fd_idx (idx_fd i) \<mapsto> f)"
      by (auto simp: fun_eq_iff ft_files_def sp(2) fd_idx_idx_fd [OF i] fte_new_def)
  qed (use sp in \<open>auto simp: fd_idx_idx_fd [OF i] ft_files_def\<close>)
qed

lemma table_put_at_ok: "i < 2 ^ 31 \<Longrightarrow> table_put_at i x v = Ok (sv_put_at i x v)"
  by (simp add: table_put_at_def)

lemma sv_put_at_effect:
  assumes "sv_inv v"
  shows "fst (sv_put_at i x v) = sv_lookup v i" "sv_lookup (snd (sv_put_at i x v)) = (sv_lookup v)(i \<mapsto> x)"
    "sv_inv (snd (sv_put_at i x v))"
  using sv_put_at_spec [OF assms surjective_pairing [of "sv_put_at i x v"]] by blast+

lemma sv_remove_effect:
  assumes "sv_inv v"
  shows "fst (sv_remove i v) = sv_lookup v i" "sv_lookup (snd (sv_remove i v)) = (sv_lookup v)(i := None)"
    "sv_inv (snd (sv_remove i v))" "slots_len (snd (sv_remove i v)) = slots_len v"
  using sv_remove_spec [OF assms surjective_pairing [of "sv_remove i v"]] unfolding slots_len_def by blast+

lemma notify_fd_events_table: "ft_table (snd (notify_fd_events alive ev e ft)) = ft_table ft"
  by (simp add: notify_fd_events_def Let_def split: prod.splits)

lemma ft_dup_spec:
  assumes inv: "ft_inv ft" and new: "unat new_fd < 2 ^ 31" and room: "slots_len (ft_table ft) + 1 < 2 ^ 31"
    and f: "ft_files ft (fd_idx fd) = Some f" and last: "unat new_fd + 1 < 2 ^ 31"
  obtains n ft' where "ft_dup fd new_fd ft = Ok (n, ft')" "fd_idx new_fd \<le> fd_idx n"
    "ft_files ft (fd_idx n) = None" "\<forall>j. fd_idx new_fd \<le> j \<longrightarrow> j < fd_idx n \<longrightarrow> ft_files ft j \<noteq> None"
    "ft_files ft' = (ft_files ft)(fd_idx n \<mapsto> f)" "ft_inv ft'"
proof -
  obtain e where e: "sv_lookup (ft_table ft) (fd_idx fd) = Some e" "fte_file e = f"
    using f by (auto simp: ft_files_def)
  define n where "n = get_min_free_fd ft new_fd"
  note g = get_min_free_fd_spec [OF n_def]
  have k: "fd_idx new_fd = unat new_fd" using new by (simp add: fd_idx_eq)
  have n1: "n + 1 < 2 ^ 31"
  proof (cases "fd_idx new_fd < slots_len (ft_table ft)")
    case True
    with g(4) room show ?thesis by linarith
  next
    case False
    then have "sv_lookup (ft_table ft) (fd_idx new_fd) = None" by (simp add: sv_lookup_def slots_len_def)
    then have "n = fd_idx new_fd" by (simp add: n_def get_min_free_fd_def Let_def)
    with last k show ?thesis by simp
  qed
  then have n: "n < 2 ^ 31" by linarith
  define t where "t = snd (sv_put_at n (fte_clone e) (ft_table ft))"
  have sv: "sv_inv (ft_table ft)" using inv by (simp add: ft_inv_def)
  note p = sv_put_at_effect [OF sv, of n "fte_clone e", folded t_def]
  have c: "fte_file (fte_clone e) = f" using e by (simp add: fte_clone_def)
  show ?thesis
  proof (rule that [of "idx_fd n" "ft\<lparr>ft_table := t\<rparr>"])
    show "ft_dup fd new_fd ft = Ok (idx_fd n, ft\<lparr>ft_table := t\<rparr>)"
      by (simp add: ft_dup_def e Let_def n_def [symmetric] table_put_at_ok [OF n] t_def split_beta)
    show "ft_files (ft\<lparr>ft_table := t\<rparr>) = (ft_files ft)(fd_idx (idx_fd n) \<mapsto> f)"
      by (auto simp: fun_eq_iff ft_files_def p(2) fd_idx_idx_fd [OF n] c)
    show "ft_inv (ft\<lparr>ft_table := t\<rparr>)"
      using p(3) slots_len_put_at [of n "fte_clone e" "ft_table ft"] n1 inv
      by (simp add: ft_inv_def t_def)
  qed (use g in \<open>auto simp: fd_idx_idx_fd [OF n] ft_files_def\<close>)
qed

lemma close_file_spec:
  assumes inv: "ft_inv ft" and c: "close_file alive fd ft = (r, ds, ft')"
  shows "r = ft_files ft (fd_idx fd)" "ft_files ft' = (ft_files ft)(fd_idx fd := None)" "ft_inv ft'"
    "sv_lookup (ft_table ft') = (sv_lookup (ft_table ft))(fd_idx fd := None)"
proof -
  have sv: "sv_inv (ft_table ft)" using inv by (simp add: ft_inv_def)
  obtain en t where en: "sv_remove (fd_idx fd) (ft_table ft) = (en, t)" by fastforce
  note rm = sv_remove_effect [OF sv, of "fd_idx fd", unfolded en fst_conv snd_conv]
  from c en have tab: "ft_table ft' = t"
    by (auto simp: close_file_def notify_fd_events_def Let_def split: option.splits prod.splits)
  from c en show "r = ft_files ft (fd_idx fd)"
    by (auto simp: close_file_def ft_files_def rm(1) [symmetric] Let_def split: option.splits prod.splits)
  show "sv_lookup (ft_table ft') = (sv_lookup (ft_table ft))(fd_idx fd := None)" by (simp add: tab rm(2))
  then show "ft_files ft' = (ft_files ft)(fd_idx fd := None)" by (auto simp: ft_files_def fun_eq_iff)
  show "ft_inv ft'" using inv rm(3,4) by (simp add: ft_inv_def tab)
qed

lemma insert_at_spec:
  assumes inv: "ft_inv ft" and fd: "unat fd + 1 < 2 ^ 31"
  obtains ds ft' where "insert_at alive fd f ft = Ok (ft_files ft (fd_idx fd), ds, ft')"
    "ft_files ft' = (ft_files ft)(fd_idx fd \<mapsto> f)" "ft_inv ft'"
proof -
  define i where "i = fd_idx fd"
  have i: "i + 1 < 2 ^ 31" using fd by (simp add: i_def fd_idx_eq)
  define t where "t = snd (sv_put_at i (fte_new f False) (ft_table ft))"
  have sv: "sv_inv (ft_table ft)" using inv by (simp add: ft_inv_def)
  note p = sv_put_at_effect [OF sv, of i "fte_new f False", folded t_def]
  have put: "table_put_at i (fte_new f False) (ft_table ft) = Ok (sv_lookup (ft_table ft) i, t)"
    using i p(1) by (simp add: table_put_at_ok t_def prod_eq_iff)
  have len: "slots_len t < 2 ^ 31"
    using slots_len_put_at [of i "fte_new f False" "ft_table ft"] i inv by (simp add: t_def ft_inv_def)
  have "\<exists>ds ft'. insert_at alive fd f ft = Ok (ft_files ft i, ds, ft') \<and> ft_table ft' = t"
  proof (cases "sv_lookup (ft_table ft) i")
    case None
    then show ?thesis by (simp add: insert_at_def i_def [symmetric] put ft_files_def)
  next
    case (Some e)
    let ?r = "notify_fd_events alive (Close fd) e (ft\<lparr>ft_table := t\<rparr>)"
    have "insert_at alive fd f ft = Ok (ft_files ft i, fst ?r, snd ?r)"
      by (simp add: insert_at_def i_def [symmetric] put ft_files_def Some Let_def split_beta)
    moreover have "ft_table (snd ?r) = t" by (simp add: notify_fd_events_table)
    ultimately show ?thesis by blast
  qed
  then obtain ds ft' where r: "insert_at alive fd f ft = Ok (ft_files ft i, ds, ft')" and tab: "ft_table ft' = t"
    by blast
  have "ft_files ft' = (ft_files ft)(i \<mapsto> f)"
    by (auto simp: fun_eq_iff ft_files_def tab p(2) fte_new_def)
  moreover have "ft_inv ft'" using p(3) len by (simp add: ft_inv_def tab)
  ultimately show ?thesis using r that by (simp add: i_def)
qed

lemma close_all_loop:
  assumes "ft_inv ft" "distinct (map fst its)"
    "\<forall>(i, e) \<in> set its. sv_lookup (ft_table ft) i = Some e \<and> i < 2 ^ 31"
  shows "\<exists>ds' ft'. fold_res (close_all_step alive) (map (\<lambda>(i, _). idx_fd i) its) (fs, ds, ft)
      = Ok (fs @ map (\<lambda>(_, e). fte_file e) its, ds', ft')
    \<and> ft_inv ft' \<and> (\<forall>i. ft_files ft' i = (if i \<in> fst ` set its then None else ft_files ft i))"
  using assms
proof (induction its arbitrary: fs ds ft)
  case Nil
  then show ?case by simp
next
  case (Cons p its)
  obtain i e where p: "p = (i, e)" by (cases p)
  from Cons.prems(3) have i: "sv_lookup (ft_table ft) i = Some e" "i < 2 ^ 31" by (auto simp: p)
  obtain r ds1 ft1 where c: "close_file alive (idx_fd i) ft = (r, ds1, ft1)" by (metis prod_cases3)
  note cs = close_file_spec [OF Cons.prems(1) c, unfolded fd_idx_idx_fd [OF i(2)]]
  have r: "r = Some (fte_file e)" using cs(1) i by (simp add: ft_files_def)
  have step: "close_all_step alive (idx_fd i) (fs, ds, ft) = Ok (fs @ [fte_file e], ds @ ds1, ft1)"
    by (simp add: close_all_step_def c r)
  have "\<forall>(j, d) \<in> set its. sv_lookup (ft_table ft1) j = Some d \<and> j < 2 ^ 31"
  proof clarify
    fix j d
    assume jd: "(j, d) \<in> set its"
    then have "j \<noteq> i" using Cons.prems(2) by (force simp: p)
    with jd Cons.prems(3) show "sv_lookup (ft_table ft1) j = Some d \<and> j < 2 ^ 31" by (auto simp: cs(4))
  qed
  moreover have "distinct (map fst its)" using Cons.prems(2) by simp
  ultimately obtain ds2 ft2 where
    ft2: "fold_res (close_all_step alive) (map (\<lambda>(i, _). idx_fd i) its) (fs @ [fte_file e], ds @ ds1, ft1)
        = Ok ((fs @ [fte_file e]) @ map (\<lambda>(_, e). fte_file e) its, ds2, ft2)"
      "ft_inv ft2" "\<forall>i. ft_files ft2 i = (if i \<in> fst ` set its then None else ft_files ft1 i)"
    using Cons.IH [OF cs(3)] by blast
  have "ft_files ft2 j = (if j \<in> fst ` set (p # its) then None else ft_files ft j)" for j
    using ft2(3) cs(2) by (simp add: p)
  with ft2(1,2) step show ?case by (simp add: p)
qed

section \<open>Properties\<close>

text \<open>(C26) Descriptor allocation: \<open>dup\<close> takes the lowest free descriptor, and \<open>fcntl(F_DUPFD_CLOEXEC, n)\<close>
  the lowest free one not below \<open>n\<close>; the new descriptor names the same file and every other descriptor
  is as before. (The table has fewer than \<open>2 ^ 31 - 1\<close> slots.)\<close>

theorem dup_takes_lowest_fd:
  assumes "ft_inv ft" "slots_len (ft_table ft) + 1 < 2 ^ 31" "ft_files ft (fd_idx fd) = Some f"
    and "unat new_fd + 1 < 2 ^ 31"
  shows "(\<exists>n ft'. sys_dup fd ft = Ok (n, ft') \<and> ft_files ft (fd_idx n) = None
        \<and> {..<fd_idx n} \<subseteq> dom (ft_files ft) \<and> ft_files ft' = (ft_files ft)(fd_idx n \<mapsto> f) \<and> ft_inv ft')
    \<and> (\<exists>n ft'. ft_dup fd new_fd ft = Ok (n, ft') \<and> ft_files ft (fd_idx n) = None
        \<and> fd_idx new_fd \<le> fd_idx n \<and> {fd_idx new_fd..<fd_idx n} \<subseteq> dom (ft_files ft)
        \<and> ft_files ft' = (ft_files ft)(fd_idx n \<mapsto> f) \<and> ft_inv ft')"
proof (rule conjI)
  have get: "get_file fd ft = Ok f" using assms(3) by (auto simp: get_file_def ft_files_def)
  show "\<exists>n ft'. sys_dup fd ft = Ok (n, ft') \<and> ft_files ft (fd_idx n) = None
      \<and> {..<fd_idx n} \<subseteq> dom (ft_files ft) \<and> ft_files ft' = (ft_files ft)(fd_idx n \<mapsto> f) \<and> ft_inv ft'"
    by (rule ft_insert_spec [OF assms(1,2), of f]) (auto simp: sys_dup_def get)
  have "unat new_fd < 2 ^ 31" using assms(4) by linarith
  from ft_dup_spec [OF assms(1) this assms(2,3,4)]
  show "\<exists>n ft'. ft_dup fd new_fd ft = Ok (n, ft') \<and> ft_files ft (fd_idx n) = None
      \<and> fd_idx new_fd \<le> fd_idx n \<and> {fd_idx new_fd..<fd_idx n} \<subseteq> dom (ft_files ft)
      \<and> ft_files ft' = (ft_files ft)(fd_idx n \<mapsto> f) \<and> ft_inv ft'"
    by (metis (no_types, lifting) atLeastLessThan_iff domIff subsetI)
qed

text \<open>A table with one open file at descriptor 0.\<close>

lemma ft_example:
  fixes f :: 'f
  defines "ft \<equiv> \<lparr>ft_table = \<lparr>slots = [Some (fte_new f False)], num_occupied = 1\<rparr>, ft_subject = subject_new\<rparr>"
  shows "ft_inv ft" "ft_files ft (fd_idx 0) = Some f" "slots_len (ft_table ft) = 1"
  by (simp_all add: ft_def ft_inv_def sv_inv_def slots_len_def ft_files_def sv_lookup_def fd_idx_def fte_new_def)

theorem dup_takes_lowest_fd_witness:
  "\<exists>n ft'. ft_dup 0 5 \<lparr>ft_table = \<lparr>slots = [Some (fte_new CHR ''a'' False)], num_occupied = 1\<rparr>,
      ft_subject = subject_new\<rparr> = Ok (n, ft') \<and> fd_idx 5 \<le> fd_idx n"
proof -
  have "slots_len (ft_table \<lparr>ft_table = \<lparr>slots = [Some (fte_new CHR ''a'' False)], num_occupied = 1\<rparr>,
      ft_subject = subject_new\<rparr>) + 1 < 2 ^ 31" by (simp add: slots_len_def)
  from dup_takes_lowest_fd [OF ft_example(1) this ft_example(2), of 5] show ?thesis by auto
qed

text \<open>(C27) \<open>dup2\<close> and \<open>close\<close> act on the table of open files as an update and a removal at one descriptor:
  after \<open>dup2(old, new)\<close> the descriptor \<open>new\<close> names the file of \<open>old\<close>; after \<open>close(fd)\<close> a further use of
  \<open>fd\<close> fails with \<open>EBADF\<close> and changes nothing.\<close>

theorem dup2_close_effect:
  assumes "ft_inv ft" "ft_files ft (fd_idx fd) = Some f" "unat new_fd + 1 < 2 ^ 31"
  shows "(\<exists>ft'. sys_dup2 alive fd new_fd ft = Ok (new_fd, ft')
        \<and> ft_files ft' = (ft_files ft)(fd_idx new_fd \<mapsto> f) \<and> ft_inv ft')
    \<and> (\<exists>ft'. sys_close clean alive fd ft = (bind_res (clean f) (\<lambda>_. Ok 0), ft')
        \<and> ft_files ft' = (ft_files ft)(fd_idx fd := None) \<and> ft_inv ft'
        \<and> get_file fd ft' = Err EBADF \<and> sys_close clean alive fd ft' = (Err EBADF, ft')
        \<and> sys_dup2 alive fd new_fd ft' = Err EBADF)"
proof (rule conjI)
  have get: "get_file fd ft = Ok f" using assms(2) by (auto simp: get_file_def ft_files_def)
  show "\<exists>ft'. sys_dup2 alive fd new_fd ft = Ok (new_fd, ft')
      \<and> ft_files ft' = (ft_files ft)(fd_idx new_fd \<mapsto> f) \<and> ft_inv ft'"
  proof (cases "fd = new_fd")
    case True
    then show ?thesis using assms(1,2) get by (auto simp: sys_dup2_def fun_eq_iff)
  next
    case False
    then show ?thesis
      by (rule_tac insert_at_spec [OF assms(1,3), of alive f]) (auto simp: sys_dup2_def get)
  qed
  obtain r ds ft' where c: "close_file alive fd ft = (r, ds, ft')" by (metis prod_cases3)
  note cs = close_file_spec [OF assms(1) c]
  have g': "get_file fd ft' = Err EBADF" using cs(4) by (simp add: get_file_def)
  have "sys_close clean alive fd ft = (bind_res (clean f) (\<lambda>_. Ok 0), ft')"
    using cs(1) assms(2) by (simp add: sys_close_def get c)
  with cs(2,3) g' show "\<exists>ft'. sys_close clean alive fd ft = (bind_res (clean f) (\<lambda>_. Ok 0), ft')
      \<and> ft_files ft' = (ft_files ft)(fd_idx fd := None) \<and> ft_inv ft'
      \<and> get_file fd ft' = Err EBADF \<and> sys_close clean alive fd ft' = (Err EBADF, ft')
      \<and> sys_dup2 alive fd new_fd ft' = Err EBADF"
    by (intro exI [of _ ft']) (simp add: sys_close_def sys_dup2_def)
qed

theorem dup2_close_effect_witness:
  "\<exists>ft'. sys_dup2 (\<lambda>_. True) 0 7 \<lparr>ft_table = \<lparr>slots = [Some (fte_new CHR ''a'' False)], num_occupied = 1\<rparr>,
      ft_subject = subject_new\<rparr> = Ok (7, ft') \<and> ft_files ft' (fd_idx 7) = Some CHR ''a''"
  using dup2_close_effect [OF ft_example(1,2), of 7] by fastforce

text \<open>(C28) \<open>close_all\<close> (used when a process exits) never panics: it closes every open file exactly once,
  returns the files in descriptor order and leaves the table empty.\<close>

theorem close_all_total:
  assumes "ft_inv ft"
  shows "\<exists>ds ft'. close_all alive ft = Ok (map snd (fds_and_files ft), ds, ft')
    \<and> ft_files ft' = Map.empty \<and> ft_inv ft'"
proof -
  let ?its = "idxes_and_items (ft_table ft)"
  have "\<forall>(i, e) \<in> set ?its. sv_lookup (ft_table ft) i = Some e \<and> i < 2 ^ 31"
    using assms sv_lookup_len by (fastforce simp: idxes_and_items_iff ft_inv_def)
  from close_all_loop [OF assms distinct_idxes this, of alive "[]" "[]"] obtain ds ft' where
    r: "close_all alive ft = Ok (map (\<lambda>(_, e). fte_file e) ?its, ds, ft')" "ft_inv ft'"
    and f: "\<forall>i. ft_files ft' i = (if i \<in> fst ` set ?its then None else ft_files ft i)"
    by (auto simp: close_all_def)
  have "ft_files ft' i = None" for i
  proof (cases "i \<in> fst ` set ?its")
    case False
    then have "sv_lookup (ft_table ft) i = None"
      using idxes_and_items_iff [of i _ "ft_table ft"] by (cases "sv_lookup (ft_table ft) i") force+
    with f False show ?thesis by (simp add: ft_files_def)
  qed (use f in simp)
  moreover have "map (\<lambda>(_, e). fte_file e) ?its = map snd (fds_and_files ft)"
    by (simp add: fds_and_files_def case_prod_unfold)
  ultimately show ?thesis using r by auto
qed

theorem close_all_total_witness:
  "\<exists>ds ft'. close_all (\<lambda>_. True) \<lparr>ft_table = \<lparr>slots = [Some (fte_new CHR ''a'' False)], num_occupied = 1\<rparr>,
      ft_subject = subject_new\<rparr> = Ok (''a'', ds, ft') \<and> ft_files ft' = Map.empty"
proof -
  have "map snd (fds_and_files \<lparr>ft_table = \<lparr>slots = [Some (fte_new CHR ''a'' False)], num_occupied = 1\<rparr>,
      ft_subject = subject_new\<rparr>) = ''a''"
    by (simp add: fds_and_files_def idxes_and_items_def fte_new_def)
  with close_all_total [OF ft_example(1)] show ?thesis by metis
qed

text \<open>A negative target descriptor is not rejected: \<open>dup2(old, new)\<close> and \<open>F_DUPFD_CLOEXEC\<close> with
  \<open>new < 0\<close> and an open \<open>old\<close> (other than \<open>new\<close>) panic the kernel when the slot vector is asked to grow
  to the sign-extended index, where \<open>EBADF\<close> and \<open>EINVAL\<close> are due.\<close>

theorem dup_negative_panics:
  assumes "ft_inv ft" "ft_files ft (fd_idx fd) = Some f" "sint new_fd < 0"
  shows "sys_dup2 alive fd new_fd ft = panic \<and> ft_dup fd new_fd ft = panic"
proof -
  have neg: "2 ^ 63 \<le> fd_idx new_fd" using assms(3) by (intro fd_idx_neg) (simp add: sint32 split: if_splits)
  then have big: "slots_len (ft_table ft) \<le> fd_idx new_fd" using assms(1) by (simp add: ft_inv_def)
  have get: "get_file fd ft = Ok f" using assms(2) by (auto simp: get_file_def ft_files_def)
  have none: "sv_lookup (ft_table ft) (fd_idx new_fd) = None" using big by (simp add: sv_lookup_def slots_len_def)
  have "fd \<noteq> new_fd" using none assms(2) by (auto simp: ft_files_def)
  moreover have "get_min_free_fd ft new_fd = fd_idx new_fd"
    by (simp add: get_min_free_fd_def none Let_def)
  ultimately show ?thesis
    using assms(2) neg big
    by (auto simp: sys_dup2_def get insert_at_def table_put_at_def ft_dup_def ft_files_def Let_def)
qed

theorem dup_negative_panics_witness:
  "sys_dup2 (\<lambda>_. True) 0 (- 1) \<lparr>ft_table = \<lparr>slots = [Some (fte_new CHR ''a'' False)], num_occupied = 1\<rparr>,
      ft_subject = subject_new\<rparr> = panic"
proof -
  have "sint (- 1 :: u32) < 0" by simp
  from dup_negative_panics [OF ft_example(1,2) [of "CHR ''a''"] this] show ?thesis by simp
qed

end
