(* ===== verification/Signal_Queues.thy ===== *)
theory Signal_Queues
  imports Subject
begin

text \<open>
  \<open>kernel/aster-nix/src/process/signal/\<close>: signal numbers (\<open>sig_num.rs\<close>, \<open>constants.rs\<close>), masks
  (\<open>sig_mask.rs\<close>), actions and dispositions (\<open>sig_action.rs\<close>, \<open>sig_disposition.rs\<close>) and the queues of
  pending signals (\<open>sig_queues.rs\<close>, \<open>events.rs\<close>). A signal number is the natural number 1..64 that
  \<open>SigNum::try_from\<close> lets through; a mask is a 64-bit word. A \<open>Box<dyn Signal>\<close> is its number and its
  payload \<open>'i\<close> (what \<open>to_info\<close> returns).
\<close>

section \<open>Signal numbers\<close>

type_synonym sig_num = nat

abbreviation MIN_STD_SIG_NUM :: nat where "MIN_STD_SIG_NUM \<equiv> 1"
abbreviation MAX_STD_SIG_NUM :: nat where "MAX_STD_SIG_NUM \<equiv> 31"
abbreviation MIN_RT_SIG_NUM :: nat where "MIN_RT_SIG_NUM \<equiv> 32"
abbreviation MAX_RT_SIG_NUM :: nat where "MAX_RT_SIG_NUM \<equiv> 64"
abbreviation COUNT_STD_SIGS :: nat where "COUNT_STD_SIGS \<equiv> 31"
abbreviation COUNT_RT_SIGS :: nat where "COUNT_RT_SIGS \<equiv> 33"
abbreviation COUNT_ALL_SIGS :: nat where "COUNT_ALL_SIGS \<equiv> 64"

abbreviation SIGHUP :: sig_num where "SIGHUP \<equiv> 1"
abbreviation SIGINT :: sig_num where "SIGINT \<equiv> 2"
abbreviation SIGQUIT :: sig_num where "SIGQUIT \<equiv> 3"
abbreviation SIGILL :: sig_num where "SIGILL \<equiv> 4"
abbreviation SIGTRAP :: sig_num where "SIGTRAP \<equiv> 5"
abbreviation SIGABRT :: sig_num where "SIGABRT \<equiv> 6"
abbreviation SIGBUS :: sig_num where "SIGBUS \<equiv> 7"
abbreviation SIGFPE :: sig_num where "SIGFPE \<equiv> 8"
abbreviation SIGKILL :: sig_num where "SIGKILL \<equiv> 9"
abbreviation SIGUSR1 :: sig_num where "SIGUSR1 \<equiv> 10"
abbreviation SIGSEGV :: sig_num where "SIGSEGV \<equiv> 11"
abbreviation SIGUSR2 :: sig_num where "SIGUSR2 \<equiv> 12"
abbreviation SIGPIPE :: sig_num where "SIGPIPE \<equiv> 13"
abbreviation SIGALRM :: sig_num where "SIGALRM \<equiv> 14"
abbreviation SIGTERM :: sig_num where "SIGTERM \<equiv> 15"
abbreviation SIGSTKFLT :: sig_num where "SIGSTKFLT \<equiv> 16"
abbreviation SIGCHLD :: sig_num where "SIGCHLD \<equiv> 17"
abbreviation SIGCONT :: sig_num where "SIGCONT \<equiv> 18"
abbreviation SIGSTOP :: sig_num where "SIGSTOP \<equiv> 19"
abbreviation SIGTSTP :: sig_num where "SIGTSTP \<equiv> 20"
abbreviation SIGTTIN :: sig_num where "SIGTTIN \<equiv> 21"
abbreviation SIGTTOU :: sig_num where "SIGTTOU \<equiv> 22"
abbreviation SIGURG :: sig_num where "SIGURG \<equiv> 23"
abbreviation SIGXCPU :: sig_num where "SIGXCPU \<equiv> 24"
abbreviation SIGXFSZ :: sig_num where "SIGXFSZ \<equiv> 25"
abbreviation SIGVTALRM :: sig_num where "SIGVTALRM \<equiv> 26"
abbreviation SIGPROF :: sig_num where "SIGPROF \<equiv> 27"
abbreviation SIGWINCH :: sig_num where "SIGWINCH \<equiv> 28"
abbreviation SIGIO :: sig_num where "SIGIO \<equiv> 29"
abbreviation SIGPWR :: sig_num where "SIGPWR \<equiv> 30"
abbreviation SIGSYS :: sig_num where "SIGSYS \<equiv> 31"

definition std_signums :: "(sig_num \<times> string) list" where
  "std_signums =
    [(SIGHUP, ''SIGHUP''), (SIGINT, ''SIGINT''), (SIGQUIT, ''SIGQUIT''), (SIGILL, ''SIGILL''), (SIGTRAP, ''SIGTRAP''), (SIGABRT, ''SIGABRT''),
     (SIGBUS, ''SIGBUS''), (SIGFPE, ''SIGFPE''), (SIGKILL, ''SIGKILL''), (SIGUSR1, ''SIGUSR1''), (SIGSEGV, ''SIGSEGV''), (SIGUSR2, ''SIGUSR2''),
     (SIGPIPE, ''SIGPIPE''), (SIGALRM, ''SIGALRM''), (SIGTERM, ''SIGTERM''), (SIGSTKFLT, ''SIGSTKFLT''), (SIGCHLD, ''SIGCHLD''), (SIGCONT, ''SIGCONT''),
     (SIGSTOP, ''SIGSTOP''), (SIGTSTP, ''SIGTSTP''), (SIGTTIN, ''SIGTTIN''), (SIGTTOU, ''SIGTTOU''), (SIGURG, ''SIGURG''), (SIGXCPU, ''SIGXCPU''),
     (SIGXFSZ, ''SIGXFSZ''), (SIGVTALRM, ''SIGVTALRM''), (SIGPROF, ''SIGPROF''), (SIGWINCH, ''SIGWINCH''), (SIGIO, ''SIGIO''), (SIGPWR, ''SIGPWR''),
     (SIGSYS, ''SIGSYS'')]"

definition sig_name :: "sig_num \<Rightarrow> string" where
  "sig_name n = (case map_of std_signums n of Some s \<Rightarrow> s | None \<Rightarrow> ''Realtime Signal'')"

definition sig_num_try_from :: "u8 \<Rightarrow> sig_num res" where
  "sig_num_try_from n =
     (if \<not> (MIN_STD_SIG_NUM \<le> unat n \<and> unat n \<le> MAX_RT_SIG_NUM) then Err EINVAL else Ok (unat n))"

definition sig_num_from_u8 :: "u8 \<Rightarrow> sig_num res" where
  "sig_num_from_u8 n =
     (if MAX_RT_SIG_NUM < unat n \<or> unat n < MIN_STD_SIG_NUM then panic else Ok (unat n))"

definition is_std :: "sig_num \<Rightarrow> bool" where
  "is_std n \<longleftrightarrow> n \<le> MAX_STD_SIG_NUM"

definition is_real_time :: "sig_num \<Rightarrow> bool" where
  "is_real_time n \<longleftrightarrow> MIN_RT_SIG_NUM \<le> n"

section \<open>Masks\<close>

type_synonym sig_mask = u64

definition num_to_idx :: "sig_num \<Rightarrow> nat" where
  "num_to_idx n = n - MIN_STD_SIG_NUM"

definition sig_mask_from_num :: "sig_num \<Rightarrow> sig_mask" where
  "sig_mask_from_num n = push_bit (num_to_idx n) 1"

definition mask_new_empty :: sig_mask where "mask_new_empty = 0"
definition mask_new_full :: sig_mask where "mask_new_full = NOT 0"
definition mask_empty :: "sig_mask \<Rightarrow> bool" where "mask_empty k \<longleftrightarrow> k = 0"
definition mask_full :: "sig_mask \<Rightarrow> bool" where "mask_full k \<longleftrightarrow> k = NOT 0"

definition mask_block :: "u64 \<Rightarrow> sig_mask \<Rightarrow> sig_mask" where
  "mask_block block_sets k = k OR block_sets"

definition mask_unblock :: "u64 \<Rightarrow> sig_mask \<Rightarrow> sig_mask" where
  "mask_unblock unblock_sets k = k AND NOT unblock_sets"

definition mask_set :: "u64 \<Rightarrow> sig_mask \<Rightarrow> sig_mask" where
  "mask_set new_set k = new_set"

definition mask_contains :: "sig_mask \<Rightarrow> sig_num \<Rightarrow> bool" where
  "mask_contains k n \<longleftrightarrow> k AND push_bit (num_to_idx n) 1 \<noteq> 0"

definition remove_signal :: "sig_num \<Rightarrow> sig_mask \<Rightarrow> sig_mask" where
  "remove_signal n k = k AND NOT (push_bit (num_to_idx n) 1)"

definition add_signal :: "sig_num \<Rightarrow> sig_mask \<Rightarrow> sig_mask" where
  "add_signal n k = k OR push_bit (num_to_idx n) 1"

section \<open>Actions and dispositions\<close>

datatype SigAction = Dfl | Ign | User (handler_addr: nat) (sa_flags: u32) (restorer_addr: nat) (sa_mask: sig_mask)

record sigaction_t =
  handler_ptr :: nat
  act_flags :: u32
  restorer_ptr :: nat
  act_mask :: u64

definition SA_NOCLDSTOP :: u32 where "SA_NOCLDSTOP = 1"
definition SA_NOCLDWAIT :: u32 where "SA_NOCLDWAIT = 2"
definition SA_SIGINFO :: u32 where "SA_SIGINFO = 4"
definition SA_RESTORER :: u32 where "SA_RESTORER = 0x04000000"
definition SA_ONSTACK :: u32 where "SA_ONSTACK = 0x08000000"
definition SA_RESTART :: u32 where "SA_RESTART = 0x10000000"
definition SA_NODEFER :: u32 where "SA_NODEFER = 0x40000000"
definition SA_RESETHAND :: u32 where "SA_RESETHAND = 0x80000000"

definition sa_flags_all :: u32 where
  "sa_flags_all = SA_NOCLDSTOP OR SA_NOCLDWAIT OR SA_SIGINFO OR SA_ONSTACK OR SA_RESTART OR SA_NODEFER
     OR SA_RESETHAND OR SA_RESTORER"

definition sigaction_try_from :: "sigaction_t \<Rightarrow> SigAction res" where
  "sigaction_try_from input =
     (if handler_ptr input = 0 then Ok Dfl
      else if handler_ptr input = 1 then Ok Ign
      else Ok (User (handler_ptr input) (act_flags input AND sa_flags_all) (restorer_ptr input) (act_mask input)))"

fun as_c_type :: "SigAction \<Rightarrow> sigaction_t" where
  "as_c_type Dfl = \<lparr>handler_ptr = 0, act_flags = 0, restorer_ptr = 0, act_mask = 0\<rparr>"
| "as_c_type Ign = \<lparr>handler_ptr = 1, act_flags = 0, restorer_ptr = 0, act_mask = 0\<rparr>"
| "as_c_type (User h f r k) = \<lparr>handler_ptr = h, act_flags = f, restorer_ptr = r, act_mask = k\<rparr>"

definition contains_unsupported_flag :: "u32 \<Rightarrow> bool" where
  "contains_unsupported_flag f \<longleftrightarrow> f AND (SA_NOCLDSTOP OR SA_NOCLDWAIT OR SA_RESETHAND) \<noteq> 0"

datatype SigDefaultAction = DaTerm | DaIgn | DaCore | DaStop | DaCont

definition default_action_from_signum :: "sig_num \<Rightarrow> SigDefaultAction" where
  "default_action_from_signum n =
     (if n \<in> {SIGABRT, SIGBUS, SIGFPE, SIGILL, SIGQUIT, SIGSEGV, SIGSYS, SIGTRAP, SIGXCPU, SIGXFSZ} then DaCore
      else if n \<in> {SIGCHLD, SIGURG, SIGWINCH} then DaIgn
      else if n = SIGCONT then DaCont
      else if n \<in> {SIGSTOP, SIGTSTP, SIGTTIN, SIGTTOU} then DaStop
      else DaTerm)"

type_synonym sig_dispositions = "SigAction list"

definition disp_new :: sig_dispositions where
  "disp_new = replicate COUNT_ALL_SIGS Dfl"

definition disp_get :: "sig_num \<Rightarrow> sig_dispositions \<Rightarrow> SigAction res" where
  "disp_get n d = (if num_to_idx n < length d then Ok (d ! num_to_idx n) else panic)"

definition disp_set :: "sig_num \<Rightarrow> SigAction \<Rightarrow> sig_dispositions \<Rightarrow> sig_dispositions res" where
  "disp_set n sa d = (if num_to_idx n < length d then Ok (d[num_to_idx n := sa]) else panic)"

definition disp_set_default :: "sig_num \<Rightarrow> sig_dispositions \<Rightarrow> sig_dispositions res" where
  "disp_set_default n d = (if num_to_idx n < length d then Ok (d[num_to_idx n := Dfl]) else panic)"

definition disp_inherit :: "sig_dispositions \<Rightarrow> sig_dispositions" where
  "disp_inherit = map (\<lambda>a. case a of User _ _ _ _ \<Rightarrow> Dfl | _ \<Rightarrow> a)"

section \<open>Queues of pending signals\<close>

record 'i signal =
  sg_num :: sig_num
  sg_info :: 'i

definition sig_events_filter :: "sig_mask \<Rightarrow> sig_num \<Rightarrow> bool" where
  "sig_events_filter flt ev \<longleftrightarrow> \<not> mask_contains flt ev"

record 'i sig_queues =
  sq_count :: nat
  std_queues :: "'i signal option list"
  rt_queues :: "'i signal list list"
  sq_subject :: "sig_mask subject"

definition sq_new :: "'i sig_queues" where
  "sq_new = \<lparr>sq_count = 0, std_queues = replicate COUNT_STD_SIGS None, rt_queues = replicate COUNT_RT_SIGS [],
             sq_subject = subject_new\<rparr>"

definition sq_is_empty :: "'i sig_queues \<Rightarrow> bool" where
  "sq_is_empty q \<longleftrightarrow> sq_count q = 0"

text \<open>The index of the queue of a signal, with the bounds check of the vector.\<close>

definition std_queue_idx :: "'i sig_queues \<Rightarrow> sig_num \<Rightarrow> nat res" where
  "std_queue_idx q n =
     (if is_std n \<and> n - MIN_STD_SIG_NUM < length (std_queues q) then Ok (n - MIN_STD_SIG_NUM) else panic)"

definition rt_queue_idx :: "'i sig_queues \<Rightarrow> sig_num \<Rightarrow> nat res" where
  "rt_queue_idx q n =
     (if is_real_time n \<and> n - MIN_RT_SIG_NUM < length (rt_queues q) then Ok (n - MIN_RT_SIG_NUM) else panic)"

definition sq_notify :: "(nat \<Rightarrow> bool) \<Rightarrow> sig_num \<Rightarrow> 'i sig_queues \<Rightarrow> nat list \<times> 'i sig_queues" where
  "sq_notify alive n q =
     (let (called, s) = notify_observers alive sig_events_filter n (sq_subject q) in (called, q\<lparr>sq_subject := s\<rparr>))"

text \<open>\<open>enqueue\<close> returns the observers it calls.\<close>

definition enqueue :: "(nat \<Rightarrow> bool) \<Rightarrow> 'i signal \<Rightarrow> 'i sig_queues \<Rightarrow> (nat list \<times> 'i sig_queues) res" where
  "enqueue alive s q =
     (let signum = sg_num s in
      if is_std signum then
        bind_res (std_queue_idx q signum) (\<lambda>idx.
          if std_queues q ! idx \<noteq> None then Ok ([], q)
          else Ok (sq_notify alive signum
                 (q\<lparr>std_queues := (std_queues q)[idx := Some s], sq_count := sq_count q + 1\<rparr>)))
      else
        bind_res (rt_queue_idx q signum) (\<lambda>idx.
          Ok (sq_notify alive signum
                (q\<lparr>rt_queues := (rt_queues q)[idx := rt_queues q ! idx @ [s]], sq_count := sq_count q + 1\<rparr>))))"

definition ORDERED_STD_SIGS :: "sig_num list" where
  "ORDERED_STD_SIGS =
     [SIGKILL, SIGTERM, SIGSTOP, SIGSEGV, SIGILL, SIGHUP, SIGCONT, SIGINT, SIGQUIT, SIGTRAP,
      SIGABRT, SIGBUS, SIGFPE, SIGUSR1, SIGUSR2, SIGPIPE, SIGALRM, SIGSTKFLT, SIGCHLD,
      SIGTSTP, SIGTTIN, SIGTTOU, SIGURG, SIGXCPU, SIGXFSZ, SIGVTALRM, SIGPROF, SIGWINCH,
      SIGIO, SIGPWR, SIGSYS]"

text \<open>The loop over the standard signals; \<open>Ok None\<close> when it ends without one.\<close>

fun dequeue_std :: "sig_mask \<Rightarrow> sig_num list \<Rightarrow> 'i sig_queues \<Rightarrow> ('i signal \<times> 'i sig_queues) option res" where
  "dequeue_std blocked [] q = Ok None"
| "dequeue_std blocked (signum # ns) q =
     (if mask_contains blocked signum then dequeue_std blocked ns q
      else bind_res (std_queue_idx q signum) (\<lambda>idx.
        case std_queues q ! idx of
          None \<Rightarrow> dequeue_std blocked ns q
        | Some s \<Rightarrow>
            if sq_count q = 0 then panic
            else Ok (Some (s, q\<lparr>std_queues := (std_queues q)[idx := None], sq_count := sq_count q - 1\<rparr>))))"

fun dequeue_rt :: "sig_mask \<Rightarrow> sig_num list \<Rightarrow> 'i sig_queues \<Rightarrow> ('i signal \<times> 'i sig_queues) option res" where
  "dequeue_rt blocked [] q = Ok None"
| "dequeue_rt blocked (n # ns) q =
     bind_res (case sig_num_try_from (of_nat n) of Inl _ \<Rightarrow> panic | Inr k \<Rightarrow> Ok k) (\<lambda>signum.
       if mask_contains blocked signum then dequeue_rt blocked ns q
       else bind_res (rt_queue_idx q signum) (\<lambda>idx.
         case rt_queues q ! idx of
           [] \<Rightarrow> dequeue_rt blocked ns q
         | s # rest \<Rightarrow>
             if sq_count q = 0 then panic
             else Ok (Some (s, q\<lparr>rt_queues := (rt_queues q)[idx := rest], sq_count := sq_count q - 1\<rparr>))))"

definition dequeue :: "sig_mask \<Rightarrow> 'i sig_queues \<Rightarrow> ('i signal \<times> 'i sig_queues) option res" where
  "dequeue blocked q =
     (if sq_is_empty q then Ok None
      else bind_res (dequeue_std blocked ORDERED_STD_SIGS q) (\<lambda>r.
        case r of
          Some x \<Rightarrow> Ok (Some x)
        | None \<Rightarrow> dequeue_rt blocked [MIN_RT_SIG_NUM..<MAX_RT_SIG_NUM + 1] q))"

section \<open>Specification\<close>

text \<open>The pending instances of each signal, oldest first.\<close>

definition pending :: "'i sig_queues \<Rightarrow> sig_num \<Rightarrow> 'i signal list" where
  "pending q n =
     (if n = 0 \<or> MAX_RT_SIG_NUM < n then []
      else if n \<le> MAX_STD_SIG_NUM then (case std_queues q ! (n - 1) of None \<Rightarrow> [] | Some s \<Rightarrow> [s])
      else rt_queues q ! (n - 32))"

definition sq_inv :: "'i sig_queues \<Rightarrow> bool" where
  "sq_inv q \<longleftrightarrow> length (std_queues q) = COUNT_STD_SIGS \<and> length (rt_queues q) = COUNT_RT_SIGS
     \<and> (\<forall>n s. s \<in> set (pending q n) \<longrightarrow> sg_num s = n)
     \<and> sq_count q = (\<Sum>n = 1..64. length (pending q n)) \<and> subject_inv (sq_subject q)"

text \<open>The order of delivery: first the standard signals by urgency, then the real-time signals by number.\<close>

definition delivery_order :: "sig_num list" where
  "delivery_order = ORDERED_STD_SIGS @ [MIN_RT_SIG_NUM..<MAX_RT_SIG_NUM + 1]"

definition next_signal :: "sig_mask \<Rightarrow> 'i sig_queues \<Rightarrow> sig_num option" where
  "next_signal blocked q = find (\<lambda>n. \<not> mask_contains blocked n \<and> pending q n \<noteq> []) delivery_order"

text \<open>The queues after the oldest instance of \<open>n\<close> was taken.\<close>

definition sq_pop :: "sig_num \<Rightarrow> 'i sig_queues \<Rightarrow> 'i sig_queues" where
  "sq_pop n q =
     (if n \<le> MAX_STD_SIG_NUM
      then q\<lparr>std_queues := (std_queues q)[n - 1 := None], sq_count := sq_count q - 1\<rparr>
      else q\<lparr>rt_queues := (rt_queues q)[n - 32 := tl (rt_queues q ! (n - 32))], sq_count := sq_count q - 1\<rparr>)"

section \<open>Lemmas\<close>

lemma and_push_bit_neq_0: "k AND push_bit i (1 :: u64) \<noteq> 0 \<longleftrightarrow> i < 64 \<and> bit k i"
  by (auto simp: bit_eq_iff [where ?a = "_ :: u64"] bit_simps)

lemma mask_contains_bit: "mask_contains k n \<longleftrightarrow> n - 1 < 64 \<and> bit k (n - 1)"
  unfolding mask_contains_def num_to_idx_def and_push_bit_neq_0 by simp

lemma find_append: "find P (xs @ ys) = (case find P xs of None \<Rightarrow> find P ys | Some x \<Rightarrow> Some x)"
  by (induction xs) auto

lemma set_ordered: "set ORDERED_STD_SIGS = {1..31}"
proof -
  have "set ORDERED_STD_SIGS = set [1..<32]" by code_simp
  also have "\<dots> = {1..31}" unfolding set_upt by (intro set_eqI) (simp only: atLeastLessThan_iff atLeastAtMost_iff, arith)
  finally show ?thesis .
qed

lemma set_delivery_order: "set delivery_order = {1..64}"
  unfolding delivery_order_def set_append set_ordered set_upt
  by (intro set_eqI) (simp only: Un_iff atLeastLessThan_iff atLeastAtMost_iff, arith)

lemma sum_update_at:
  fixes f g :: "nat \<Rightarrow> nat"
  assumes "finite A" "n \<in> A" "\<And>m. m \<noteq> n \<Longrightarrow> g m = f m"
  shows "(\<Sum>m\<in>A. g m) + f n = (\<Sum>m\<in>A. f m) + g n"
proof -
  have "(\<Sum>m\<in>A - {n}. g m) = (\<Sum>m\<in>A - {n}. f m)" using assms(3) by (intro sum.cong) auto
  then show ?thesis using sum.remove [OF assms(1,2), of f] sum.remove [OF assms(1,2), of g] by simp
qed

lemma pending_std_update:
  assumes "1 \<le> n" "n \<le> 31" "length (std_queues q) = 31"
  shows "pending (q\<lparr>std_queues := (std_queues q)[n - 1 := x], sq_count := c\<rparr>)
    = (pending q)(n := (case x of None \<Rightarrow> [] | Some s \<Rightarrow> [s]))"
  using assms by (auto simp: pending_def fun_eq_iff nth_list_update)

lemma pending_rt_update:
  assumes "32 \<le> n" "n \<le> 64" "length (rt_queues q) = 33"
  shows "pending (q\<lparr>rt_queues := (rt_queues q)[n - 32 := xs], sq_count := c\<rparr>) = (pending q)(n := xs)"
  using assms by (auto simp: pending_def fun_eq_iff nth_list_update)

lemma pending_subject [simp]: "pending (q\<lparr>sq_subject := s\<rparr>) = pending q"
  by (simp add: pending_def fun_eq_iff)

lemma pending_range: "pending q n \<noteq> [] \<Longrightarrow> 1 \<le> n \<and> n \<le> 64"
  by (auto simp: pending_def split: if_splits)

lemma pending_count_pos:
  assumes "sq_inv q" "pending q n \<noteq> []"
  shows "0 < sq_count q"
proof -
  have "n \<in> {1..64}" using pending_range [OF assms(2)] by simp
  then have "length (pending q n) \<le> (\<Sum>m = 1..64. length (pending q m))" by (intro member_le_sum) auto
  moreover have "sq_count q = (\<Sum>m = 1..64. length (pending q m))" using assms(1) by (simp add: sq_inv_def)
  moreover have "0 < length (pending q n)" using assms(2) by simp
  ultimately show ?thesis by linarith
qed

lemma sq_inv_update:
  assumes inv: "sq_inv q" and n: "n \<in> {1..64}" and p: "pending q' = (pending q)(n := xs)"
    and "length (std_queues q') = 31" "length (rt_queues q') = 33" "\<forall>s \<in> set xs. sg_num s = n"
    and c: "sq_count q' + length (pending q n) = sq_count q + length xs" and "subject_inv (sq_subject q')"
  shows "sq_inv q'"
proof -
  have "(\<Sum>m = 1..64. length (pending q' m)) + length (pending q n) = (\<Sum>m = 1..64. length (pending q m)) + length xs"
    using sum_update_at [OF _ n, of "\<lambda>m. length (pending q' m)" "\<lambda>m. length (pending q m)"] by (simp add: p)
  then show ?thesis using assms by (auto simp: sq_inv_def)
qed

lemma sq_pop_spec:
  assumes inv: "sq_inv q" and ne: "pending q n \<noteq> []"
  shows "pending (sq_pop n q) = (pending q)(n := tl (pending q n))" "sq_inv (sq_pop n q)"
proof -
  have n: "1 \<le> n" "n \<le> 64" using pending_range [OF ne] by auto
  have len: "length (std_queues q) = 31" "length (rt_queues q) = 33" using inv by (auto simp: sq_inv_def)
  have sub: "subject_inv (sq_subject q)" using inv by (simp add: sq_inv_def)
  show p: "pending (sq_pop n q) = (pending q)(n := tl (pending q n))"
  proof (cases "n \<le> 31")
    case True
    then have "tl (pending q n) = []" using n by (auto simp: pending_def split: option.splits)
    with True n len show ?thesis by (simp add: sq_pop_def pending_std_update [unfolded One_nat_def])
  next
    case False
    then have "pending q n = rt_queues q ! (n - 32)" using n by (simp add: pending_def)
    with False n len show ?thesis by (simp add: sq_pop_def pending_rt_update)
  qed
  have "\<forall>s \<in> set (tl (pending q n)). sg_num s = n"
    using inv by (auto simp: sq_inv_def dest: list.set_sel(2) [OF ne])
  moreover have "0 < sq_count q" using pending_count_pos [OF inv ne] .
  moreover have "Suc (length (tl (pending q n))) = length (pending q n)" using ne by (cases "pending q n") auto
  ultimately show "sq_inv (sq_pop n q)"
    using n len sub by (intro sq_inv_update [OF inv _ p]) (auto simp: sq_pop_def simp del: length_tl)
qed

lemma dequeue_std_eq:
  assumes inv: "sq_inv q" and "set ns \<subseteq> {1..31}"
  shows "dequeue_std blocked ns q = Ok (map_option (\<lambda>n. (hd (pending q n), sq_pop n q))
    (find (\<lambda>n. \<not> mask_contains blocked n \<and> pending q n \<noteq> []) ns))"
  using assms(2)
proof (induction ns)
  case (Cons n ns)
  have n: "1 \<le> n" "n \<le> 31" using Cons.prems by auto
  have len: "length (std_queues q) = 31" using inv by (simp add: sq_inv_def)
  have idx: "std_queue_idx q n = Ok (n - 1)" using n len by (simp add: std_queue_idx_def is_std_def)
  have p: "pending q n = (case std_queues q ! (n - 1) of None \<Rightarrow> [] | Some s \<Rightarrow> [s])"
    using n by (simp add: pending_def)
  show ?case
  proof (cases "std_queues q ! (n - 1)")
    case None
    then show ?thesis using Cons p by (simp add: idx)
  next
    case (Some s)
    then have "0 < sq_count q" using pending_count_pos [OF inv, of n] p by simp
    then show ?thesis using Cons p n Some by (simp add: idx sq_pop_def)
  qed
qed simp

lemma dequeue_rt_eq:
  assumes inv: "sq_inv q" and "set ns \<subseteq> {32..64}"
  shows "dequeue_rt blocked ns q = Ok (map_option (\<lambda>n. (hd (pending q n), sq_pop n q))
    (find (\<lambda>n. \<not> mask_contains blocked n \<and> pending q n \<noteq> []) ns))"
  using assms(2)
proof (induction ns)
  case (Cons n ns)
  have n: "32 \<le> n" "n \<le> 64" using Cons.prems by auto
  have u: "unat (of_nat n :: u8) = n" using n by (simp add: unat_of_nat take_bit_nat_eq_self)
  have num: "sig_num_try_from (of_nat n) = Ok n" unfolding sig_num_try_from_def u using n by simp
  have len: "length (rt_queues q) = 33" using inv by (simp add: sq_inv_def)
  have idx: "rt_queue_idx q n = Ok (n - 32)" using n len by (simp add: rt_queue_idx_def is_real_time_def)
  have p: "pending q n = rt_queues q ! (n - 32)" using n by (simp add: pending_def)
  show ?case
  proof (cases "rt_queues q ! (n - 32)")
    case Nil
    then show ?thesis using Cons p by (simp add: idx num)
  next
    case (Cons s rest)
    then have "0 < sq_count q" using pending_count_pos [OF inv, of n] p by simp
    then show ?thesis using Cons.IH Cons.prems p n \<open>rt_queues q ! (n - 32) = s # rest\<close>
      by (simp add: idx num sq_pop_def)
  qed
qed simp

lemma sq_empty_pending:
  assumes "sq_inv q" "sq_count q = 0"
  shows "pending q n = []"
  using pending_count_pos [OF assms(1), of n] assms(2) by auto

lemma dequeue_eq:
  assumes "sq_inv q"
  shows "dequeue blocked q = Ok (map_option (\<lambda>n. (hd (pending q n), sq_pop n q)) (next_signal blocked q))"
proof (cases "sq_count q = 0")
  case True
  then have "next_signal blocked q = None"
    using sq_empty_pending [OF assms] by (auto simp: next_signal_def find_None_iff)
  with True show ?thesis by (simp add: dequeue_def sq_is_empty_def)
next
  case False
  have "set [MIN_RT_SIG_NUM..<MAX_RT_SIG_NUM + 1] \<subseteq> {32..64}" unfolding set_upt by auto
  note r = dequeue_std_eq [OF assms equalityD1 [OF set_ordered]] dequeue_rt_eq [OF assms this]
  show ?thesis using False
    unfolding dequeue_def r next_signal_def delivery_order_def find_append sq_is_empty_def
    by (simp del: upt_Suc upt_conv_Cons split: option.split)
qed

lemma pending_new [simp]: "pending sq_new n = []"
  by (simp add: pending_def sq_new_def)

lemma sq_inv_new: "sq_inv sq_new"
proof -
  have "length (std_queues sq_new) = 31" "length (rt_queues sq_new) = 33" "sq_count sq_new = 0"
    "subject_inv (sq_subject sq_new)"
    by (simp_all add: sq_new_def subject_inv_def subject_new_def)
  then show ?thesis unfolding sq_inv_def by simp
qed

lemma sq_notify_spec:
  assumes "subject_inv (sq_subject q)" "sq_notify alive n q = (called, q')"
  shows "pending q' = pending q" "std_queues q' = std_queues q" "rt_queues q' = rt_queues q"
    "sq_count q' = sq_count q" "subject_inv (sq_subject q')"
proof -
  obtain s where s: "q' = q\<lparr>sq_subject := s\<rparr>" "notify_observers alive sig_events_filter n (sq_subject q) = (called, s)"
    using assms(2) by (auto simp: sq_notify_def Let_def split: prod.splits)
  then show "pending q' = pending q" "std_queues q' = std_queues q" "rt_queues q' = rt_queues q"
    "sq_count q' = sq_count q" by simp_all
  have "s = snd (notify_observers alive sig_events_filter n (sq_subject q))" using s by simp
  then show "subject_inv (sq_subject q')"
    using assms(1) by (simp add: s(1) notify_observers_eq subject_inv_def sorted_wrt_map_filter)
qed

lemma enqueue_store:
  assumes inv: "sq_inv q" and n: "n \<in> {1..64}" and p: "pending q1 = (pending q)(n := pending q n @ [s])"
    and len: "length (std_queues q1) = 31" "length (rt_queues q1) = 33" and s: "sg_num s = n"
    and c: "sq_count q1 = sq_count q + 1" and sub: "sq_subject q1 = sq_subject q"
    and r: "sq_notify alive n q1 = (called, q')"
  shows "sq_inv q' \<and> pending q' = (pending q)(n := pending q n @ [s])"
proof -
  have "subject_inv (sq_subject q1)" using inv by (simp add: sub sq_inv_def)
  note ns = sq_notify_spec [OF this r]
  have "\<forall>x \<in> set (pending q n @ [s]). sg_num x = n" using inv s by (auto simp: sq_inv_def)
  then have "sq_inv q'"
    using ns len c by (intro sq_inv_update [OF inv n, of q' "pending q n @ [s]"]) (auto simp: p)
  then show ?thesis using ns(1) p by simp
qed

lemma enqueue_spec:
  assumes inv: "sq_inv q" and n: "sg_num s \<in> {1..64}"
  obtains called q' where "enqueue alive s q = Ok (called, q')" "sq_inv q'"
    "pending q' = (pending q)(sg_num s :=
       (if is_std (sg_num s) \<and> pending q (sg_num s) \<noteq> [] then pending q (sg_num s)
        else pending q (sg_num s) @ [s]))"
proof -
  define n where "n = sg_num s"
  have r: "1 \<le> n" "n \<le> 64" using assms(2) by (auto simp: n_def)
  have len: "length (std_queues q) = 31" "length (rt_queues q) = 33" using inv by (auto simp: sq_inv_def)
  consider (dup) "is_std n" "pending q n \<noteq> []" | (std) "is_std n" "pending q n = []" | (rt) "\<not> is_std n" by blast
  then show ?thesis
  proof cases
    case dup
    then have "std_queues q ! (n - 1) \<noteq> None" using r by (auto simp: pending_def is_std_def split: option.splits)
    then have "enqueue alive s q = Ok ([], q)"
      using dup r len by (simp add: enqueue_def Let_def n_def [symmetric] std_queue_idx_def is_std_def)
    with inv dup that show ?thesis by (simp add: n_def)
  next
    case std
    define q1 where "q1 = q\<lparr>std_queues := (std_queues q)[n - 1 := Some s], sq_count := sq_count q + 1\<rparr>"
    obtain called q' where no: "sq_notify alive n q1 = (called, q')" by fastforce
    have "std_queues q ! (n - 1) = None" using std r by (auto simp: pending_def is_std_def split: option.splits)
    then have e: "enqueue alive s q = Ok (called, q')"
      using std r len no by (simp add: enqueue_def Let_def n_def [symmetric] std_queue_idx_def is_std_def q1_def)
    have "pending q1 = (pending q)(n := pending q n @ [s])"
      using std r len unfolding q1_def is_std_def by (subst pending_std_update) auto
    from enqueue_store [OF inv _ this _ _ n_def [symmetric] _ _ no] r len e that std
    show ?thesis by (auto simp: n_def q1_def)
  next
    case rt
    define q1 where "q1 = q\<lparr>rt_queues := (rt_queues q)[n - 32 := rt_queues q ! (n - 32) @ [s]], sq_count := sq_count q + 1\<rparr>"
    obtain called q' where no: "sq_notify alive n q1 = (called, q')" by fastforce
    have e: "enqueue alive s q = Ok (called, q')"
      using rt r len no
      by (simp add: enqueue_def Let_def n_def [symmetric] rt_queue_idx_def is_std_def is_real_time_def q1_def)
    have "pending q n = rt_queues q ! (n - 32)" using rt r by (simp add: pending_def is_std_def)
    then have "pending q1 = (pending q)(n := pending q n @ [s])"
      using rt r len unfolding q1_def is_std_def by (subst pending_rt_update) auto
    from enqueue_store [OF inv _ this _ _ n_def [symmetric] _ _ no] r len e that rt
    show ?thesis by (auto simp: n_def q1_def)
  qed
qed

lemma sigaction_round_trip:
  "(case a of User h f _ _ \<Rightarrow> h \<noteq> 0 \<and> h \<noteq> 1 \<and> f AND sa_flags_all = f | _ \<Rightarrow> True) \<Longrightarrow>
   sigaction_try_from (as_c_type a) = Ok a"
  by (cases a) (auto simp: sigaction_try_from_def)

section \<open>Properties\<close>

text \<open>(C14) Queues of pending signals. Queueing a valid signal never panics; it appends the signal to its
  queue, except that a standard signal that is already pending stays as it is. Dequeueing never panics;
  it takes the oldest instance of the first signal, in the order of delivery, that is pending and not
  blocked, leaves all other queues alone, and returns nothing exactly when every pending signal is
  blocked.\<close>

theorem signal_queue_correct:
  assumes "sq_inv q" "sg_num s \<in> {1..64}"
  shows "(\<exists>called q'. enqueue alive s q = Ok (called, q') \<and> sq_inv q'
        \<and> pending q' = (pending q)(sg_num s :=
            (if is_std (sg_num s) \<and> pending q (sg_num s) \<noteq> [] then pending q (sg_num s)
             else pending q (sg_num s) @ [s])))
    \<and> (case next_signal blocked q of
         None \<Rightarrow> dequeue blocked q = Ok None \<and> (\<forall>n. pending q n \<noteq> [] \<longrightarrow> mask_contains blocked n)
       | Some n \<Rightarrow> \<not> mask_contains blocked n
           \<and> (\<exists>t rest q'. pending q n = t # rest \<and> sg_num t = n \<and> dequeue blocked q = Ok (Some (t, q'))
                \<and> pending q' = (pending q)(n := rest) \<and> sq_inv q'))"
proof (rule conjI)
  show "\<exists>called q'. enqueue alive s q = Ok (called, q') \<and> sq_inv q'
      \<and> pending q' = (pending q)(sg_num s :=
          (if is_std (sg_num s) \<and> pending q (sg_num s) \<noteq> [] then pending q (sg_num s)
           else pending q (sg_num s) @ [s]))"
    by (rule enqueue_spec [OF assms, of alive]) blast
  show "case next_signal blocked q of
      None \<Rightarrow> dequeue blocked q = Ok None \<and> (\<forall>n. pending q n \<noteq> [] \<longrightarrow> mask_contains blocked n)
    | Some n \<Rightarrow> \<not> mask_contains blocked n
        \<and> (\<exists>t rest q'. pending q n = t # rest \<and> sg_num t = n \<and> dequeue blocked q = Ok (Some (t, q'))
             \<and> pending q' = (pending q)(n := rest) \<and> sq_inv q')"
  proof (cases "next_signal blocked q")
    case None
    then have "\<forall>n \<in> {1..64}. mask_contains blocked n \<or> pending q n = []"
      by (auto simp: next_signal_def find_None_iff set_delivery_order)
    with None show ?thesis
      using pending_range [of q] by (auto simp: dequeue_eq [OF assms(1)])
  next
    case (Some n)
    then have n: "\<not> mask_contains blocked n" "pending q n \<noteq> []"
      by (auto simp: next_signal_def find_Some_iff)
    then obtain t rest where t: "pending q n = t # rest" by (cases "pending q n") auto
    moreover have "sg_num t = n" using assms(1) t by (auto simp: sq_inv_def)
    ultimately show ?thesis
      using Some n sq_pop_spec [OF assms(1) n(2)] by (auto simp: dequeue_eq [OF assms(1)])
  qed
qed

theorem signal_queue_correct_witness:
  "\<exists>called q'. enqueue (\<lambda>_. True) \<lparr>sg_num = SIGTERM, sg_info = ()\<rparr> sq_new = Ok (called, q')
    \<and> pending q' SIGTERM = [\<lparr>sg_num = SIGTERM, sg_info = ()\<rparr>]"
proof -
  let ?s = "\<lparr>sg_num = SIGTERM, sg_info = ()\<rparr>"
  have "sg_num ?s \<in> {1..64}" by simp
  from conjunct1 [OF signal_queue_correct [OF sq_inv_new this, of "\<lambda>_. True"]]
  show ?thesis by auto
qed

end
