(* ===== verification/Signal_Delivery.thy ===== *)
theory Signal_Delivery
  imports Signal_Queues Credentials Align_Ext
begin

text \<open>
  Sending and delivering signals: \<open>process/kill.rs\<close>, \<open>posix_thread/mod.rs\<close> (the signal part of a thread),
  \<open>process/signal/mod.rs\<close>, \<open>sig_stack.rs\<close>, \<open>thread/status.rs\<close> and the calls \<open>rt_sigaction\<close>,
  \<open>rt_sigprocmask\<close>, \<open>rt_sigreturn\<close>, \<open>sigaltstack\<close>, \<open>kill\<close>. A process is the list of its threads in
  table order. User memory is a value of a type \<open>'m\<close>; reading and writing it are parameters. Registers
  other than those the code sets are a component \<open>'r\<close>. The size of \<open>ucontext_t\<close> depends on the register
  block of the \<open>trapframe\<close> crate and is a parameter.
\<close>

section \<open>Threads\<close>

datatype ThreadStatus = TInit | TRunning | TExited | TStopped

definition set_running :: "ThreadStatus \<Rightarrow> ThreadStatus res" where
  "set_running st = (if st = TExited then panic else Ok TRunning)"

definition set_stopped :: "ThreadStatus \<Rightarrow> ThreadStatus res" where
  "set_stopped st = (if st = TExited then panic else Ok TStopped)"

definition SS_AUTODISARM :: u32 where "SS_AUTODISARM = push_bit 31 1"

record sig_stack =
  ss_base :: nat
  ss_flags :: u32
  ss_size :: nat
  handler_counter :: nat

datatype SigStackStatus = SS_INACTIVE | SS_ONSTACK | SS_DISABLE

definition ss_new :: "nat \<Rightarrow> u32 \<Rightarrow> nat \<Rightarrow> sig_stack" where
  "ss_new b f z = \<lparr>ss_base = b, ss_flags = f, ss_size = z, handler_counter = 0\<rparr>"

definition ss_status :: "sig_stack \<Rightarrow> SigStackStatus" where
  "ss_status s =
     (if handler_counter s = 0 then SS_INACTIVE
      else if ss_flags s AND SS_AUTODISARM = SS_AUTODISARM then SS_DISABLE else SS_ONSTACK)"

definition increase_handler_counter :: "sig_stack \<Rightarrow> sig_stack" where
  "increase_handler_counter s = s\<lparr>handler_counter := handler_counter s + 1\<rparr>"

definition decrease_handler_counter :: "sig_stack \<Rightarrow> sig_stack res" where
  "decrease_handler_counter s =
     (if handler_counter s = 0 then panic else Ok (s\<lparr>handler_counter := handler_counter s - 1\<rparr>))"

definition ss_is_active :: "sig_stack \<Rightarrow> bool" where
  "ss_is_active s \<longleftrightarrow> handler_counter s \<noteq> 0 \<and> ss_flags s AND SS_AUTODISARM \<noteq> SS_AUTODISARM"

definition ss_is_disabled :: "sig_stack \<Rightarrow> bool" where
  "ss_is_disabled s \<longleftrightarrow> handler_counter s \<noteq> 0 \<and> ss_flags s AND SS_AUTODISARM = SS_AUTODISARM"

record 'i posix_thread =
  pt_credentials :: credentials
  pt_mask :: sig_mask
  pt_queues :: "'i sig_queues"
  pt_context :: "u64 option"
  pt_stack :: "sig_stack option"
  pt_status :: ThreadStatus
  pt_sid :: "nat option"

definition has_pending_signal :: "'i posix_thread \<Rightarrow> bool" where
  "has_pending_signal t \<longleftrightarrow> \<not> sq_is_empty (pt_queues t)"

definition has_signal_blocked :: "sig_num \<Rightarrow> 'i posix_thread \<Rightarrow> bool" where
  "has_signal_blocked n t \<longleftrightarrow> mask_contains (pt_mask t) n"

record sender_ids =
  sender_ruid :: uid
  sender_euid :: uid
  sender_sid :: nat

text \<open>\<open>pt_sid\<close> is the session of the thread's process; the code unwraps it for \<open>SIGCONT\<close>.\<close>

definition check_signal_perm :: "sig_num option \<Rightarrow> sender_ids \<Rightarrow> 'i posix_thread \<Rightarrow> unit res" where
  "check_signal_perm signum sender t =
     (if is_root (sender_euid sender) then Ok ()
      else if signum = Some SIGCONT then
        (case pt_sid t of
           None \<Rightarrow> panic
         | Some receiver_sid \<Rightarrow> if receiver_sid = sender_sid sender then Ok () else Err EPERM)
      else
        let receiver_ruid = ruid (pt_credentials t); receiver_suid = suid (pt_credentials t) in
        if sender_ruid sender = receiver_ruid \<or> sender_ruid sender = receiver_suid
           \<or> sender_euid sender = receiver_ruid \<or> sender_euid sender = receiver_suid
        then Ok () else Err EPERM)"

definition enqueue_signal :: "(nat \<Rightarrow> bool) \<Rightarrow> 'i signal \<Rightarrow> 'i posix_thread \<Rightarrow> 'i posix_thread res" where
  "enqueue_signal alive s t = bind_res (enqueue alive s (pt_queues t)) (\<lambda>(_, q). Ok (t\<lparr>pt_queues := q\<rparr>))"

definition dequeue_signal :: "sig_mask \<Rightarrow> 'i posix_thread \<Rightarrow> ('i signal option \<times> 'i posix_thread) res" where
  "dequeue_signal blocked t =
     bind_res (dequeue blocked (pt_queues t)) (\<lambda>r.
       case r of None \<Rightarrow> Ok (None, t) | Some (s, q) \<Rightarrow> Ok (Some s, t\<lparr>pt_queues := q\<rparr>))"

section \<open>Sending\<close>

definition enqueue_at ::
  "(nat \<Rightarrow> bool) \<Rightarrow> 'i signal \<Rightarrow> nat \<Rightarrow> 'i posix_thread list \<Rightarrow> unit res \<times> 'i posix_thread list" where
  "enqueue_at alive s i ts =
     (case enqueue_signal alive s (ts ! i) of Inl e \<Rightarrow> (Inl e, ts) | Inr t \<Rightarrow> (Ok (), ts[i := t]))"

definition kill_process ::
  "(nat \<Rightarrow> bool) \<Rightarrow> sender_ids \<Rightarrow> 'i signal option \<Rightarrow> 'i posix_thread list \<Rightarrow> unit res \<times> 'i posix_thread list" where
  "kill_process alive sender_ids sig ts =
     (let signum = map_option sg_num sig;
          check = (\<lambda>i. check_signal_perm signum sender_ids (ts ! i))
      in if \<exists>i \<in> set [0..<length ts]. check i = panic then (panic, ts)
         else let permitted_threads = filter (\<lambda>i. check i = Ok ()) [0..<length ts] in
           case permitted_threads of
             [] \<Rightarrow> (Err EPERM, ts)
           | first_thread # _ \<Rightarrow>
               (case sig of
                  None \<Rightarrow> (Ok (), ts)
                | Some s \<Rightarrow>
                    (case find (\<lambda>i. \<not> has_signal_blocked (sg_num s) (ts ! i)) permitted_threads of
                       Some i \<Rightarrow> enqueue_at alive s i ts
                     | None \<Rightarrow> enqueue_at alive s first_thread ts)))"

text \<open>The process table, in pid order; \<open>p_is_init\<close> marks the init process.\<close>

record 'i proc =
  p_pid :: nat
  p_is_init :: bool
  p_threads :: "'i posix_thread list"

definition kill_at ::
  "(nat \<Rightarrow> bool) \<Rightarrow> sender_ids \<Rightarrow> 'i signal option \<Rightarrow> nat \<Rightarrow> 'i proc list \<Rightarrow> unit res \<times> 'i proc list" where
  "kill_at alive sender sig i ps =
     (let (r, ts) = kill_process alive sender sig (p_threads (ps ! i)) in (r, ps[i := (ps ! i)\<lparr>p_threads := ts\<rparr>]))"

definition kill ::
  "(nat \<Rightarrow> bool) \<Rightarrow> sender_ids \<Rightarrow> nat \<Rightarrow> 'i signal option \<Rightarrow> 'i proc list \<Rightarrow> unit res \<times> 'i proc list" where
  "kill alive sender pid sig ps =
     (case find (\<lambda>i. p_pid (ps ! i) = pid) [0..<length ps] of
        None \<Rightarrow> (Err ESRCH, ps)
      | Some i \<Rightarrow> kill_at alive sender sig i ps)"

text \<open>The loops of \<open>kill_group\<close> and \<open>kill_all\<close> over the positions of the target processes.\<close>

fun kill_each ::
  "(nat \<Rightarrow> bool) \<Rightarrow> sender_ids \<Rightarrow> 'i signal option \<Rightarrow> nat list \<Rightarrow> 'i proc list \<Rightarrow> unit res \<times> 'i proc list" where
  "kill_each alive sender sig [] ps = (Ok (), ps)"
| "kill_each alive sender sig (i # is) ps =
     (case kill_at alive sender sig i ps of
        (Inl e, ps') \<Rightarrow> (Inl e, ps')
      | (Inr _, ps') \<Rightarrow> kill_each alive sender sig is ps')"

text \<open>The group table gives the positions of the members of a group, if the group exists.\<close>

definition kill_group ::
  "(nat \<Rightarrow> bool) \<Rightarrow> sender_ids \<Rightarrow> nat list option \<Rightarrow> 'i signal option \<Rightarrow> 'i proc list \<Rightarrow> unit res \<times> 'i proc list" where
  "kill_group alive sender process_group sig ps =
     (case process_group of None \<Rightarrow> (Err ESRCH, ps) | Some members \<Rightarrow> kill_each alive sender sig members ps)"

definition kill_all ::
  "(nat \<Rightarrow> bool) \<Rightarrow> sender_ids \<Rightarrow> nat \<Rightarrow> 'i signal option \<Rightarrow> 'i proc list \<Rightarrow> unit res \<times> 'i proc list" where
  "kill_all alive sender current sig ps =
     kill_each alive sender sig
       (filter (\<lambda>i. \<not> (i = current \<or> p_is_init (ps ! i))) [0..<length ps]) ps"

definition tgkill ::
  "(nat \<Rightarrow> bool) \<Rightarrow> sender_ids \<Rightarrow> ('i posix_thread \<times> nat) option \<Rightarrow> nat \<Rightarrow> 'i signal option
     \<Rightarrow> 'i posix_thread option res" where
  "tgkill alive sender target tgid sig =
     (case target of
        None \<Rightarrow> Err ESRCH
      | Some (t, pid) \<Rightarrow>
          if pt_status t = TExited then Ok None
          else if pid \<noteq> tgid then Err EINVAL
          else bind_res (check_signal_perm (map_option sg_num sig) sender t) (\<lambda>_.
            case sig of None \<Rightarrow> Ok None | Some s \<Rightarrow> bind_res (enqueue_signal alive s t) (\<lambda>t'. Ok (Some t'))))"

section \<open>Delivering\<close>

record 'r user_context =
  rip :: u64
  rsp :: u64
  rdi :: u64
  rsi :: u64
  rdx :: u64
  other_regs :: 'r

record 'r ucontext =
  uc_link :: u64
  uc_gp_regs :: "'r user_context"
  uc_sigmask :: u64

datatype ('i, 'r) user_val = VSigInfo 'i | VUContext "'r ucontext" | VU64 u64 | VBytes "u8 list"

record ('i, 'r, 'm) sig_env =
  e_thread :: "'i posix_thread"
  e_ctx :: "'r user_context"
  e_mem :: 'm

definition on_thread ::
  "('i posix_thread \<Rightarrow> 'i posix_thread) \<Rightarrow> ('i, 'r, 'm) sig_env \<Rightarrow> ('i, 'r, 'm) sig_env" where
  "on_thread f e = e\<lparr>e_thread := f (e_thread e)\<rparr>"

text \<open>\<open>write_val_to_user\<close> and \<open>write_bytes_to_user\<close>: the parameter \<open>wr\<close> changes user memory or fails.\<close>

definition user_write ::
  "(u64 \<Rightarrow> ('i, 'r) user_val \<Rightarrow> 'm \<Rightarrow> 'm res) \<Rightarrow> u64 \<Rightarrow> ('i, 'r) user_val \<Rightarrow> (('i, 'r, 'm) sig_env, unit) sr" where
  "user_write wr a v e =
     (case wr a v (e_mem e) of Inl x \<Rightarrow> (Inl x, e) | Inr m \<Rightarrow> (Ok (), e\<lparr>e_mem := m\<rparr>))"

definition use_alternate_signal_stack :: "'i posix_thread \<Rightarrow> nat option res \<times> 'i posix_thread" where
  "use_alternate_signal_stack t =
     (case pt_stack t of
        None \<Rightarrow> (Ok None, t)
      | Some s \<Rightarrow>
          if ss_is_disabled s then (Ok None, t)
          else if ss_is_active s then (Ok None, t\<lparr>pt_stack := Some (increase_handler_counter s)\<rparr>)
          else let t1 = t\<lparr>pt_stack := Some (increase_handler_counter s)\<rparr>
               in (bind_res (uadd (ss_base s) (ss_size s)) (\<lambda>top. Ok (Some (align_down_nat top 16))), t1))"

definition alloc_aligned_in_user_stack :: "u64 \<Rightarrow> nat \<Rightarrow> u64 \<Rightarrow> u64 res" where
  "alloc_aligned_in_user_stack sp sz al =
     (if \<not> is_power_of_two al then Err EINVAL
      else bind_res (usub64 sp (of_nat sz)) (\<lambda>a. align_down a al))"

definition write_u64_to_user_stack ::
  "(u64 \<Rightarrow> ('i, 'r) user_val \<Rightarrow> 'm \<Rightarrow> 'm res) \<Rightarrow> u64 \<Rightarrow> u64 \<Rightarrow> (('i, 'r, 'm) sig_env, u64) sr" where
  "write_u64_to_user_stack wr sp v =
     sr_bind (sr_lift (usub64 sp 8)) (\<lambda>sp1. sr_bind (user_write wr sp1 (VU64 v)) (\<lambda>_. sr_return sp1))"

definition TRAMPOLINE :: "u8 list" where
  "TRAMPOLINE = [0xb8, 0x0f, 0x00, 0x00, 0x00, 0x0f, 0x05, 0x90]"

definition handle_user_signal ::
  "(u64 \<Rightarrow> ('i, 'r) user_val \<Rightarrow> 'm \<Rightarrow> 'm res) \<Rightarrow> nat \<Rightarrow> sig_num \<Rightarrow> nat \<Rightarrow> u32 \<Rightarrow> nat \<Rightarrow> sig_mask \<Rightarrow> 'i
     \<Rightarrow> (('i, 'r, 'm) sig_env, unit) sr" where
  "handle_user_signal wr uc_size signum handler flags restorer k info =
     (if contains_unsupported_flag flags then sr_lift panic else
      let new_mask = (if flags AND SA_NODEFER \<noteq> SA_NODEFER then mask_block (sig_mask_from_num signum) k
                      else k) in
      sr_bind (sr_mod (on_thread (\<lambda>t. t\<lparr>pt_mask := mask_block new_mask (pt_mask t)\<rparr>))) (\<lambda>_.
      sr_bind (\<lambda>e. let (r, t) = use_alternate_signal_stack (e_thread e) in (r, e\<lparr>e_thread := t\<rparr>)) (\<lambda>alt.
      sr_bind (case alt of Some sp \<Rightarrow> sr_return (of_nat sp) | None \<Rightarrow> sr_get (\<lambda>e. rsp (e_ctx e))) (\<lambda>sp0.
      sr_bind (sr_lift (usub64 sp0 128)) (\<lambda>sp1.
      sr_bind (sr_lift (usub64 sp1 128)) (\<lambda>siginfo_addr.
      sr_bind (user_write wr siginfo_addr (VSigInfo info)) (\<lambda>_.
      sr_bind (sr_lift (alloc_aligned_in_user_stack siginfo_addr uc_size 16)) (\<lambda>ucontext_addr.
      sr_bind (sr_get (\<lambda>e. \<lparr>uc_link = (case pt_context (e_thread e) of Some a \<Rightarrow> a | None \<Rightarrow> 0),
                           uc_gp_regs = e_ctx e, uc_sigmask = new_mask\<rparr>)) (\<lambda>ucontext.
      sr_bind (user_write wr ucontext_addr (VUContext ucontext)) (\<lambda>_.
      sr_bind (sr_mod (on_thread (\<lambda>t. t\<lparr>pt_context := Some ucontext_addr\<rparr>))) (\<lambda>_.
      sr_bind (if flags AND SA_RESTORER = SA_RESTORER
               then write_u64_to_user_stack wr ucontext_addr (of_nat restorer)
               else sr_bind (sr_lift (usub64 ucontext_addr 8)) (\<lambda>trampoline_rip.
                    sr_bind (user_write wr trampoline_rip (VBytes TRAMPOLINE)) (\<lambda>_.
                      write_u64_to_user_stack wr trampoline_rip trampoline_rip))) (\<lambda>sp2.
      sr_mod (\<lambda>e. e\<lparr>e_ctx := (e_ctx e)\<lparr>rip := of_nat handler, rsp := sp2, rdi := of_nat signum,
          rsi := (if flags AND SA_SIGINFO = SA_SIGINFO then siginfo_addr else 0),
          rdx := (if flags AND SA_SIGINFO = SA_SIGINFO then ucontext_addr else 0)\<rparr>\<rparr>)))))))))))))"

text \<open>\<open>handle_pending_signal\<close>. The value \<open>True\<close> means that the process was terminated by the signal
  (\<open>do_exit_group\<close>, after which the task exits).\<close>

definition handle_pending_signal ::
  "(u64 \<Rightarrow> ('i, 'r) user_val \<Rightarrow> 'm \<Rightarrow> 'm res) \<Rightarrow> nat \<Rightarrow> sig_dispositions \<Rightarrow> (('i, 'r, 'm) sig_env, bool) sr" where
  "handle_pending_signal wr uc_size disps =
     sr_bind (\<lambda>e. case dequeue_signal (pt_mask (e_thread e)) (e_thread e) of
                    Inl x \<Rightarrow> (Inl x, e) | Inr (s, t) \<Rightarrow> (Ok s, e\<lparr>e_thread := t\<rparr>)) (\<lambda>so.
     case so of None \<Rightarrow> sr_return False | Some s \<Rightarrow>
     sr_bind (sr_lift (disp_get (sg_num s) disps)) (\<lambda>sig_action.
     case sig_action of
       Ign \<Rightarrow> sr_return False
     | User h f r k \<Rightarrow>
         sr_bind (handle_user_signal wr uc_size (sg_num s) h f r k (sg_info s)) (\<lambda>_. sr_return False)
     | Dfl \<Rightarrow>
         (case default_action_from_signum (sg_num s) of
            DaCore \<Rightarrow> sr_return True
          | DaTerm \<Rightarrow> sr_return True
          | DaIgn \<Rightarrow> sr_return False
          | DaStop \<Rightarrow>
              sr_bind (sr_get (\<lambda>e. pt_status (e_thread e))) (\<lambda>st.
                if st = TRunning
                then sr_bind (sr_lift (set_stopped st)) (\<lambda>st'.
                       sr_bind (sr_mod (on_thread (\<lambda>t. t\<lparr>pt_status := st'\<rparr>))) (\<lambda>_. sr_return False))
                else sr_return False)
          | DaCont \<Rightarrow>
              sr_bind (sr_get (\<lambda>e. pt_status (e_thread e))) (\<lambda>st.
                if st = TStopped
                then sr_bind (sr_lift (set_running st)) (\<lambda>st'.
                       sr_bind (sr_mod (on_thread (\<lambda>t. t\<lparr>pt_status := st'\<rparr>))) (\<lambda>_. sr_return False))
                else sr_return False))))"

section \<open>System calls\<close>

text \<open>\<open>rt_sigreturn\<close>; \<open>rd\<close> reads a \<open>ucontext_t\<close> from user memory.\<close>

definition sys_rt_sigreturn :: "(u64 \<Rightarrow> 'm \<Rightarrow> 'r ucontext res) \<Rightarrow> (('i, 'r, 'm) sig_env, unit) sr" where
  "sys_rt_sigreturn rd =
     sr_bind (sr_get (\<lambda>e. pt_context (e_thread e))) (\<lambda>ctx.
     case ctx of None \<Rightarrow> sr_lift (Err EINVAL) | Some sig_context_addr \<Rightarrow>
     sr_bind (sr_get (\<lambda>e. rsp (e_ctx e))) (\<lambda>sp.
     if sig_context_addr \<noteq> sp then sr_lift panic else
     sr_bind (\<lambda>e. (rd sig_context_addr (e_mem e), e)) (\<lambda>ucontext.
     sr_bind (\<lambda>e. case pt_stack (e_thread e) of
         None \<Rightarrow> (Ok (), e)
       | Some s \<Rightarrow>
           if unat sp < ss_base s then (Ok (), e)
           else (case bind_res (uadd (ss_base s) (ss_size s)) (\<lambda>top.
                        if unat sp \<le> top then decrease_handler_counter s else Ok s) of
                   Inl x \<Rightarrow> (Inl x, e)
                 | Inr s' \<Rightarrow> (Ok (), on_thread (\<lambda>t. t\<lparr>pt_stack := Some s'\<rparr>) e))) (\<lambda>_.
     sr_mod (\<lambda>e. e\<lparr>e_thread := (e_thread e)\<lparr>
                      pt_context := (if uc_link ucontext = 0 then None else Some (uc_link ucontext)),
                      pt_mask := mask_unblock (uc_sigmask ucontext) (pt_mask (e_thread e))\<rparr>,
                    e_ctx := uc_gp_regs ucontext\<rparr>)))))"

datatype MaskOp = Block | Unblock | SetMask

definition mask_op_try_from :: "u32 \<Rightarrow> MaskOp res" where
  "mask_op_try_from how =
     (if how = 0 then Ok Block else if how = 1 then Ok Unblock else if how = 2 then Ok SetMask else Err EINVAL)"

fun apply_mask_op :: "MaskOp \<Rightarrow> u64 \<Rightarrow> sig_mask \<Rightarrow> sig_mask" where
  "apply_mask_op Block new_set k = mask_block (remove_signal SIGSTOP (remove_signal SIGKILL new_set)) k"
| "apply_mask_op Unblock new_set k = mask_unblock new_set k"
| "apply_mask_op SetMask new_set k = mask_set new_set k"

text \<open>\<open>do_rt_sigprocmask\<close>: the old mask is written at \<open>oldset_ptr\<close> by the parameter \<open>wr\<close>, the new set read
  by \<open>rd\<close>. The system call unwraps its result.\<close>

definition do_rt_sigprocmask ::
  "(nat \<Rightarrow> u64 \<Rightarrow> unit res) \<Rightarrow> (nat \<Rightarrow> u64 res) \<Rightarrow> MaskOp \<Rightarrow> nat \<Rightarrow> nat \<Rightarrow> sig_mask \<Rightarrow> sig_mask res" where
  "do_rt_sigprocmask wr rd mask_op set_ptr oldset_ptr k =
     bind_res (if oldset_ptr \<noteq> 0 then wr oldset_ptr k else Ok ()) (\<lambda>_.
       if set_ptr \<noteq> 0 then bind_res (rd set_ptr) (\<lambda>new_set. Ok (apply_mask_op mask_op new_set k)) else Ok k)"

definition unwrap :: "'a res \<Rightarrow> 'a res" where
  "unwrap r = (case r of Inl _ \<Rightarrow> panic | Inr x \<Rightarrow> Ok x)"

definition sys_rt_sigprocmask ::
  "(nat \<Rightarrow> u64 \<Rightarrow> unit res) \<Rightarrow> (nat \<Rightarrow> u64 res) \<Rightarrow> u32 \<Rightarrow> nat \<Rightarrow> nat \<Rightarrow> sig_mask \<Rightarrow> sig_mask res" where
  "sys_rt_sigprocmask wr rd how set_ptr oldset_ptr k =
     bind_res (unwrap (mask_op_try_from how)) (\<lambda>mask_op.
       unwrap (do_rt_sigprocmask wr rd mask_op set_ptr oldset_ptr k))"

definition sys_rt_sigaction ::
  "(nat \<Rightarrow> sigaction_t \<Rightarrow> unit res) \<Rightarrow> (nat \<Rightarrow> sigaction_t res) \<Rightarrow> u8 \<Rightarrow> nat \<Rightarrow> nat \<Rightarrow> sig_dispositions
     \<Rightarrow> sig_dispositions res" where
  "sys_rt_sigaction wr rd num sig_action_addr old_sig_action_addr d =
     bind_res (sig_num_try_from num) (\<lambda>n.
     bind_res (disp_get n d) (\<lambda>old_action.
     bind_res (if old_sig_action_addr \<noteq> 0 then wr old_sig_action_addr (as_c_type old_action) else Ok ()) (\<lambda>_.
       if sig_action_addr \<noteq> 0
       then bind_res (rd sig_action_addr) (\<lambda>c.
            bind_res (unwrap (sigaction_try_from c)) (\<lambda>a. disp_set n a d))
       else Ok d)))"

record stack_t =
  st_sp :: nat
  st_flags :: u32
  st_size :: nat

abbreviation MINSTKSZ :: nat where "MINSTKSZ \<equiv> 2048"

definition sig_stack_try_from :: "stack_t \<Rightarrow> sig_stack res" where
  "sig_stack_try_from s =
     (if sint (st_flags s) < 0 then Err EINVAL
      else if st_flags s AND NOT SS_AUTODISARM \<noteq> 0 then Err EINVAL
      else if st_size s < MINSTKSZ then Err ENOMEM
      else Ok (ss_new (st_sp s) (st_flags s) (st_size s)))"

fun ss_status_code :: "SigStackStatus \<Rightarrow> u32" where
  "ss_status_code SS_INACTIVE = 0"
| "ss_status_code SS_ONSTACK = 1"
| "ss_status_code SS_DISABLE = 2"

definition stack_t_from :: "sig_stack \<Rightarrow> stack_t" where
  "stack_t_from s =
     \<lparr>st_sp = ss_base s, st_flags = ss_flags s OR ss_status_code (ss_status s), st_size = ss_size s\<rparr>"

definition get_old_stack :: "(nat \<Rightarrow> stack_t \<Rightarrow> unit res) \<Rightarrow> nat \<Rightarrow> sig_stack option \<Rightarrow> unit res" where
  "get_old_stack wr a old =
     (if a = 0 then Ok () else case old of None \<Rightarrow> Ok () | Some s \<Rightarrow> wr a (stack_t_from s))"

definition set_new_stack :: "(nat \<Rightarrow> stack_t res) \<Rightarrow> nat \<Rightarrow> sig_stack option \<Rightarrow> sig_stack option res" where
  "set_new_stack rd a old =
     (if a = 0 then Ok old
      else if (case old of None \<Rightarrow> False | Some s \<Rightarrow> ss_is_active s) then Err EPERM
      else bind_res (rd a) (\<lambda>s. bind_res (sig_stack_try_from s) (\<lambda>n. Ok (Some n))))"

definition sys_sigaltstack ::
  "(nat \<Rightarrow> stack_t \<Rightarrow> unit res) \<Rightarrow> (nat \<Rightarrow> stack_t res) \<Rightarrow> nat \<Rightarrow> nat \<Rightarrow> 'i posix_thread \<Rightarrow> 'i posix_thread res" where
  "sys_sigaltstack wr rd a old_a t =
     bind_res (get_old_stack wr old_a (pt_stack t)) (\<lambda>_.
     bind_res (set_new_stack rd a (pt_stack t)) (\<lambda>s. Ok (t\<lparr>pt_stack := s\<rparr>)))"

section \<open>Specification\<close>

text \<open>Who may signal whom (kill(2)): root; for \<open>SIGCONT\<close> a process of the same session; otherwise a sender
  whose real or effective uid is the receiver's real or saved uid.\<close>

definition may_signal :: "sender_ids \<Rightarrow> sig_num option \<Rightarrow> 'i posix_thread \<Rightarrow> bool" where
  "may_signal sender signum t \<longleftrightarrow>
     sender_euid sender = 0
     \<or> (if signum = Some SIGCONT then pt_sid t = Some (sender_sid sender)
        else {sender_ruid sender, sender_euid sender} \<inter> {ruid (pt_credentials t), suid (pt_credentials t)} \<noteq> {})"

text \<open>User memory as the log of typed writes, newest last; a read finds the newest \<open>ucontext_t\<close> at the address.\<close>

type_synonym ('i, 'r) log_mem = "(u64 \<times> ('i, 'r) user_val) list"

definition log_write :: "u64 \<Rightarrow> ('i, 'r) user_val \<Rightarrow> ('i, 'r) log_mem \<Rightarrow> ('i, 'r) log_mem res" where
  "log_write a v m = Ok (m @ [(a, v)])"

definition log_read :: "u64 \<Rightarrow> ('i, 'r) log_mem \<Rightarrow> 'r ucontext res" where
  "log_read a m =
     (case find (\<lambda>(b, v). b = a \<and> (case v of VUContext _ \<Rightarrow> True | _ \<Rightarrow> False)) (rev m) of
        Some (_, VUContext u) \<Rightarrow> Ok u | _ \<Rightarrow> Err EFAULT)"

definition handler_mask :: "sig_num \<Rightarrow> u32 \<Rightarrow> sig_mask \<Rightarrow> sig_mask" where
  "handler_mask signum flags k =
     (if flags AND SA_NODEFER \<noteq> SA_NODEFER then mask_block (sig_mask_from_num signum) k else k)"

text \<open>A thread of user \<open>u\<close> with no pending signal.\<close>

definition example_thread :: "uid \<Rightarrow> unit posix_thread" where
  "example_thread u = \<lparr>pt_credentials = cred_new u u, pt_mask = 0, pt_queues = sq_new, pt_context = None,
     pt_stack = None, pt_status = TRunning, pt_sid = Some 1\<rparr>"

section \<open>Lemmas\<close>

lemma check_signal_perm_iff:
  assumes "pt_sid t \<noteq> None"
  shows "check_signal_perm signum sender t = (if may_signal sender signum t then Ok () else Err EPERM)"
  using assms by (auto simp: check_signal_perm_def may_signal_def is_root_def Let_def)

lemma enqueue_at_spec:
  assumes "i < length ts" "sq_inv (pt_queues (ts ! i))" "sg_num s \<in> {1..64}"
  obtains q where "enqueue_at alive s i ts = (Ok (), ts[i := (ts ! i)\<lparr>pt_queues := q\<rparr>])" "sq_inv q"
    "pending q = (pending (pt_queues (ts ! i)))(sg_num s :=
      (if is_std (sg_num s) \<and> pending (pt_queues (ts ! i)) (sg_num s) \<noteq> []
       then pending (pt_queues (ts ! i)) (sg_num s)
       else pending (pt_queues (ts ! i)) (sg_num s) @ [s]))"
  by (rule enqueue_spec [OF assms(2,3), of alive]) (auto simp: enqueue_at_def enqueue_signal_def intro: that)

lemma kill_process_target:
  assumes sid: "\<forall>t \<in> set ts. pt_sid t \<noteq> None"
    and some: "\<exists>t \<in> set ts. may_signal sender (Some (sg_num s)) t"
  obtains i where "i < length ts" "may_signal sender (Some (sg_num s)) (ts ! i)"
    "kill_process alive sender (Some s) ts = enqueue_at alive s i ts"
    "has_signal_blocked (sg_num s) (ts ! i) \<longrightarrow>
       (\<forall>t \<in> set ts. may_signal sender (Some (sg_num s)) t \<longrightarrow> has_signal_blocked (sg_num s) t)"
proof -
  let ?n = "sg_num s"
  define C where "C = (\<lambda>i. check_signal_perm (Some ?n) sender (ts ! i))"
  define P where "P = filter (\<lambda>i. C i = Ok ()) [0..<length ts]"
  have C: "C i = (if may_signal sender (Some ?n) (ts ! i) then Ok () else Err EPERM)" if "i < length ts" for i
    unfolding C_def using that sid by (intro check_signal_perm_iff) auto
  then have nopanic: "\<not> (\<exists>i \<in> set [0..<length ts]. C i = panic)" by auto
  have setP: "i \<in> set P \<longleftrightarrow> i < length ts \<and> may_signal sender (Some ?n) (ts ! i)" for i
    using C by (auto simp: P_def split: if_splits)
  obtain f Ps where P: "P = f # Ps"
    using some setP by (cases P) (fastforce simp: in_set_conv_nth)+
  have k: "kill_process alive sender (Some s) ts =
      (case find (\<lambda>i. \<not> has_signal_blocked ?n (ts ! i)) P of Some i \<Rightarrow> enqueue_at alive s i ts
       | None \<Rightarrow> enqueue_at alive s f ts)"
    unfolding kill_process_def Let_def option.map
    by (simp only: if_not_P [OF nopanic [unfolded C_def]] P [unfolded P_def C_def] P list.case option.case)
  show ?thesis
  proof (cases "find (\<lambda>i. \<not> has_signal_blocked ?n (ts ! i)) P")
    case None
    then have "\<forall>i \<in> set P. has_signal_blocked ?n (ts ! i)" by (auto simp: find_None_iff)
    then have "\<forall>t \<in> set ts. may_signal sender (Some ?n) t \<longrightarrow> has_signal_blocked ?n t"
      using setP by (auto simp: in_set_conv_nth)
    moreover have "f \<in> set P" by (simp add: P)
    ultimately show ?thesis using that [of f] setP [of f] k None by simp
  next
    case (Some i)
    then have "i \<in> set P" "\<not> has_signal_blocked ?n (ts ! i)" by (auto simp: find_Some_iff)
    then show ?thesis using that [of i] setP [of i] k Some by simp
  qed
qed

lemma usub64_Ok: "usub64 a b = Inr c \<longleftrightarrow> b \<le> a \<and> c = a - b"
  by (auto simp: usub64_def)

lemma usub64_unat: "b \<le> a \<Longrightarrow> unat (a - b) + unat b = unat a" for a b :: u64
  by (simp add: unat_sub word_le_nat_alt)

lemma log_write_Ok [simp]: "user_write log_write a v e = (Ok (), e\<lparr>e_mem := e_mem e @ [(a, v)]\<rparr>)"
  by (simp add: user_write_def log_write_def)

text \<open>The writes below the \<open>ucontext_t\<close>, and the final stack pointer.\<close>

definition tail_writes :: "u32 \<Rightarrow> nat \<Rightarrow> u64 \<Rightarrow> ('i, 'r) log_mem" where
  "tail_writes flags restorer uc =
     (if flags AND SA_RESTORER = SA_RESTORER then [(uc - 8, VU64 (of_nat restorer))]
      else [(uc - 8, VBytes TRAMPOLINE), (uc - 8 - 8, VU64 (uc - 8))])"

definition tail_sp :: "u32 \<Rightarrow> u64 \<Rightarrow> u64" where
  "tail_sp flags uc = (if flags AND SA_RESTORER = SA_RESTORER then uc - 8 else uc - 8 - 8)"

lemma tail_eq:
  "(if flags AND SA_RESTORER = SA_RESTORER
    then write_u64_to_user_stack log_write uc (of_nat restorer)
    else sr_bind (sr_lift (usub64 uc 8)) (\<lambda>tr. sr_bind (user_write log_write tr (VBytes TRAMPOLINE)) (\<lambda>_.
           write_u64_to_user_stack log_write tr tr))) e = (Ok sp, e')
   \<longleftrightarrow> 8 \<le> uc \<and> (flags AND SA_RESTORER \<noteq> SA_RESTORER \<longrightarrow> 8 \<le> uc - 8) \<and> sp = tail_sp flags uc
     \<and> e' = e\<lparr>e_mem := e_mem e @ tail_writes flags restorer uc\<rparr>"
  by (auto simp: write_u64_to_user_stack_def sr_bind_eq_Ok usub64_Ok tail_writes_def tail_sp_def)

lemma handle_user_signal_frame:
  assumes h: "handle_user_signal log_write uc_size n h f r k info e = (Ok (), e')"
    and stack: "pt_stack (e_thread e) = None"
  obtains si uc where "128 \<le> rsp (e_ctx e)" "128 \<le> rsp (e_ctx e) - 128" "si = rsp (e_ctx e) - 128 - 128"
    "alloc_aligned_in_user_stack si uc_size 16 = Ok uc" "8 \<le> uc"
    "f AND SA_RESTORER \<noteq> SA_RESTORER \<longrightarrow> 8 \<le> uc - 8"
    "e_thread e' = (e_thread e)\<lparr>pt_mask := mask_block (handler_mask n f k) (pt_mask (e_thread e)),
       pt_context := Some uc\<rparr>"
    "e_mem e' = e_mem e @ [(si, VSigInfo info), (uc, VUContext \<lparr>uc_link =
       (case pt_context (e_thread e) of Some a \<Rightarrow> a | None \<Rightarrow> 0), uc_gp_regs = e_ctx e,
       uc_sigmask = handler_mask n f k\<rparr>)] @ tail_writes f r uc"
    "rip (e_ctx e') = of_nat h" "rsp (e_ctx e') = tail_sp f uc" "rdi (e_ctx e') = of_nat n"
proof -
  have ok: "\<not> contains_unsupported_flag f" using h by (auto simp: handle_user_signal_def)
  have alt: "use_alternate_signal_stack ((e_thread e)\<lparr>pt_mask := x\<rparr>) = (Ok None, (e_thread e)\<lparr>pt_mask := x\<rparr>)" for x
    by (simp add: use_alternate_signal_stack_def stack)
  show ?thesis
    using h ok unfolding handle_user_signal_def Let_def handler_mask_def [symmetric]
    by (auto simp: sr_bind_eq_Ok on_thread_def alt usub64_Ok tail_eq intro!: that)
qed

section \<open>Properties\<close>

text \<open>(C19) \<open>kill_process\<close> enforces the permission rule and sends once: if the sender may signal no thread
  of the process, the call fails with \<open>EPERM\<close> and changes nothing; otherwise exactly one thread that the
  sender may signal gets the signal (every other thread is untouched), and it is a thread that does not
  block the signal whenever there is one.\<close>

theorem kill_process_authorised:
  assumes "\<forall>t \<in> set ts. pt_sid t \<noteq> None \<and> sq_inv (pt_queues t)" "sg_num s \<in> {1..64}"
  shows "if \<forall>t \<in> set ts. \<not> may_signal sender (Some (sg_num s)) t
    then kill_process alive sender (Some s) ts = (Err EPERM, ts)
    else \<exists>i q. i < length ts \<and> may_signal sender (Some (sg_num s)) (ts ! i)
      \<and> kill_process alive sender (Some s) ts = (Ok (), ts[i := (ts ! i)\<lparr>pt_queues := q\<rparr>])
      \<and> sq_inv q \<and> pending q (sg_num s) \<noteq> []
      \<and> (\<forall>n. n \<noteq> sg_num s \<longrightarrow> pending q n = pending (pt_queues (ts ! i)) n)
      \<and> (has_signal_blocked (sg_num s) (ts ! i) \<longrightarrow>
           (\<forall>t \<in> set ts. may_signal sender (Some (sg_num s)) t \<longrightarrow> has_signal_blocked (sg_num s) t))"
proof (cases "\<forall>t \<in> set ts. \<not> may_signal sender (Some (sg_num s)) t")
  case True
  have "check_signal_perm (Some (sg_num s)) sender (ts ! i) = Err EPERM" if "i < length ts" for i
    using that True assms(1) by (subst check_signal_perm_iff) auto
  then have "filter (\<lambda>i. check_signal_perm (Some (sg_num s)) sender (ts ! i) = Ok ()) [0..<length ts] = []"
    "\<not> (\<exists>i \<in> set [0..<length ts]. check_signal_perm (Some (sg_num s)) sender (ts ! i) = panic)"
    by (auto simp: filter_empty_conv)
  with True show ?thesis by (simp add: kill_process_def)
next
  case False
  then obtain i where i: "i < length ts" "may_signal sender (Some (sg_num s)) (ts ! i)"
    "kill_process alive sender (Some s) ts = enqueue_at alive s i ts"
    "has_signal_blocked (sg_num s) (ts ! i) \<longrightarrow>
       (\<forall>t \<in> set ts. may_signal sender (Some (sg_num s)) t \<longrightarrow> has_signal_blocked (sg_num s) t)"
    using kill_process_target [of ts sender s alive] assms(1) by blast
  have "sq_inv (pt_queues (ts ! i))" using assms(1) i(1) by simp
  from enqueue_at_spec [OF i(1) this assms(2), of alive] obtain q where
    q: "enqueue_at alive s i ts = (Ok (), ts[i := (ts ! i)\<lparr>pt_queues := q\<rparr>])" "sq_inv q"
      "pending q = (pending (pt_queues (ts ! i)))(sg_num s :=
        (if is_std (sg_num s) \<and> pending (pt_queues (ts ! i)) (sg_num s) \<noteq> []
         then pending (pt_queues (ts ! i)) (sg_num s)
         else pending (pt_queues (ts ! i)) (sg_num s) @ [s]))" by blast
  have "pending q (sg_num s) \<noteq> []" "\<forall>n. n \<noteq> sg_num s \<longrightarrow> pending q n = pending (pt_queues (ts ! i)) n"
    using q(3) by auto
  with False i q(1,2) show ?thesis by auto
qed

theorem kill_process_authorised_witness:
  "kill_process (\<lambda>_. True) \<lparr>sender_ruid = 5, sender_euid = 5, sender_sid = 1\<rparr>
     (Some \<lparr>sg_num = SIGTERM, sg_info = ()\<rparr>) [example_thread 7] = (Err EPERM, [example_thread 7])"
proof -
  have "\<forall>t \<in> set [example_thread 7]. pt_sid t \<noteq> None \<and> sq_inv (pt_queues t)"
    by (simp add: example_thread_def sq_inv_new)
  from kill_process_authorised [OF this, of "\<lparr>sg_num = SIGTERM, sg_info = ()\<rparr>"
      "\<lparr>sender_ruid = 5, sender_euid = 5, sender_sid = 1\<rparr>" "\<lambda>_. True"]
  show ?thesis by (simp add: may_signal_def example_thread_def cred_new_def)
qed

text \<open>(C34) \<open>rt_sigprocmask\<close> keeps SIGKILL and SIGSTOP deliverable when it adds or removes signals, but the
  operation \<open>SIG_SETMASK\<close> stores the given set unchanged: after setting the full mask, no pending signal
  is ever dequeued, SIGKILL included.\<close>

theorem sigprocmask_sigkill:
  "(\<not> mask_contains k SIGKILL \<longrightarrow> \<not> mask_contains (apply_mask_op Block s k) SIGKILL
      \<and> \<not> mask_contains (apply_mask_op Unblock s k) SIGKILL)
   \<and> (sq_inv q \<longrightarrow> dequeue (apply_mask_op SetMask (NOT 0) k) q = Ok None)"
proof (intro conjI impI)
  assume k: "\<not> mask_contains k SIGKILL"
  show "\<not> mask_contains (apply_mask_op Block s k) SIGKILL" "\<not> mask_contains (apply_mask_op Unblock s k) SIGKILL"
    using k by (simp_all add: mask_contains_bit mask_block_def mask_unblock_def remove_signal_def num_to_idx_def bit_simps)
next
  assume inv: "sq_inv q"
  have "next_signal (NOT 0) q = None"
    by (auto simp: next_signal_def find_None_iff set_delivery_order mask_contains_bit bit_simps)
  then show "dequeue (apply_mask_op SetMask (NOT 0) k) q = Ok None"
    by (simp add: dequeue_eq [OF inv] mask_set_def)
qed

theorem sigprocmask_sigkill_witness:
  "\<not> mask_contains (apply_mask_op Block (NOT 0) 0) SIGKILL
   \<and> dequeue (apply_mask_op SetMask (NOT 0) 0) (sq_new :: unit sig_queues) = Ok None"
proof -
  have "\<not> mask_contains 0 SIGKILL" by (simp add: mask_contains_def)
  with sigprocmask_sigkill [of 0 "NOT 0" "sq_new :: unit sig_queues"] sq_inv_new show ?thesis by blast
qed

lemma alloc_aligned_Ok:
  assumes "alloc_aligned_in_user_stack sp sz 16 = Ok a" "sz < 2 ^ 32"
  shows "16 dvd unat a" "unat a + sz \<le> unat sp"
proof -
  have u: "unat (of_nat sz :: u64) = sz" using assms(2) by (simp add: unat_of_nat take_bit_nat_eq_self)
  from assms(1) obtain b where b: "usub64 sp (of_nat sz) = Ok b" "align_down b 16 = Ok a"
    by (auto simp: alloc_aligned_in_user_stack_def split: if_splits)
  then have "unat b + sz = unat sp" using usub64_unat [of "of_nat sz" sp] u by (auto simp: usub64_Ok)
  moreover have a: "unat a = align_down_nat (unat b) 16"
    using b(2) align_down_nat_le [of "unat b" 16] unsigned_less [of b, where ?'a = nat]
    by (auto simp: align_down_eq unat_of_nat take_bit_nat_eq_self split: if_splits)
  ultimately show "16 dvd unat a" "unat a + sz \<le> unat sp" using align_down_nat_le [of "unat b" 16] by auto
qed

lemma mask_block_contains: "mask_contains (mask_block a b) i \<longleftrightarrow> mask_contains a i \<or> mask_contains b i"
  by (auto simp: mask_contains_bit mask_block_def bit_simps)

lemma mask_unblock_contains: "mask_contains (mask_unblock a b) i \<longleftrightarrow> mask_contains b i \<and> \<not> mask_contains a i"
  by (auto simp: mask_contains_bit mask_unblock_def bit_simps)

lemma mask_from_num_contains:
  "n \<in> {1..64} \<Longrightarrow> i \<in> {1..64} \<Longrightarrow> mask_contains (sig_mask_from_num n) i \<longleftrightarrow> i = n"
  by (auto simp: mask_contains_bit sig_mask_from_num_def num_to_idx_def bit_simps)

lemma handler_mask_contains:
  "n \<in> {1..64} \<Longrightarrow> i \<in> {1..64} \<Longrightarrow>
   mask_contains (handler_mask n f k) i \<longleftrightarrow> mask_contains k i \<or> (i = n \<and> f AND SA_NODEFER \<noteq> SA_NODEFER)"
  using mask_from_num_contains by (auto simp: handler_mask_def mask_block_contains)

lemma align_down_16: "align_down (x :: u64) 16 = Ok (of_nat (align_down_nat (unat x) 16))"
proof -
  have c: "\<exists>k\<ge>1. unat (16 :: u64) = 2 ^ k" by (intro exI [of _ 4]) simp
  have "2 \<le> LENGTH(64)" by simp
  from align_down_eq [OF this, of x 16] show ?thesis unfolding if_P [OF c] by simp
qed

lemma handle_user_signal_total:
  assumes "\<not> contains_unsupported_flag f" "pt_stack (e_thread e) = None" "uc_size < 2 ^ 32"
    and sp: "unat (rsp (e_ctx e)) \<ge> uc_size + 512"
  shows "\<exists>e'. handle_user_signal log_write uc_size n h f r k info e = (Ok (), e')"
proof -
  let ?sp = "rsp (e_ctx e)"
  have s1: "128 \<le> ?sp" using sp by (simp add: word_le_nat_alt)
  then have u1: "unat (?sp - 128) = unat ?sp - 128" using usub64_unat by fastforce
  then have s2: "128 \<le> ?sp - 128" using sp by (simp add: word_le_nat_alt)
  define si where "si = ?sp - 128 - 128"
  have si: "unat si = unat ?sp - 256" using usub64_unat [OF s2] u1 by (simp add: si_def)
  have u: "unat (of_nat uc_size :: u64) = uc_size" using assms(3) by (simp add: unat_of_nat take_bit_nat_eq_self)
  then have s3: "of_nat uc_size \<le> si" using sp si by (simp add: word_le_nat_alt)
  have u3: "unat (si - of_nat uc_size) = unat si - uc_size" using usub64_unat [OF s3] u by simp
  obtain uc where uc: "align_down (si - of_nat uc_size) 16 = Ok uc"
    "unat uc = align_down_nat (unat si - uc_size) 16"
    using align_down_nat_le [of "unat si - uc_size" 16] unsigned_less [of si, where ?'a = nat]
    by (auto simp: align_down_16 u3 unat_of_nat take_bit_nat_eq_self)
  have al: "alloc_aligned_in_user_stack si uc_size 16 = Ok uc"
    using s3 uc(1) by (simp add: alloc_aligned_in_user_stack_def is_power_of_two_def usub64_def)
  have "unat si - uc_size < unat uc + 16"
    unfolding uc(2) align_down_nat_def using mod_less_divisor [of 16 "unat si - uc_size"]
      div_mult_mod_eq [of "unat si - uc_size" 16] by linarith
  then have "16 \<le> unat uc" using sp si by linarith
  then have t: "8 \<le> uc" "8 \<le> uc - 8"
    using usub64_unat [of 8 uc] by (simp_all add: word_le_nat_alt)
  have alt: "use_alternate_signal_stack ((e_thread e)\<lparr>pt_mask := x\<rparr>) = (Ok None, (e_thread e)\<lparr>pt_mask := x\<rparr>)" for x
    by (simp add: use_alternate_signal_stack_def assms(2))
  have tail: "(if f AND SA_RESTORER = SA_RESTORER
      then write_u64_to_user_stack log_write uc (of_nat r)
      else sr_bind (sr_lift (usub64 uc 8)) (\<lambda>tr. sr_bind (user_write log_write tr (VBytes TRAMPOLINE)) (\<lambda>_.
           write_u64_to_user_stack log_write tr tr))) e1
      = (Ok (tail_sp f uc), e1\<lparr>e_mem := e_mem e1 @ tail_writes f r uc\<rparr>)" for e1 :: "('a, 'b, ('a, 'b) log_mem) sig_env"
    using t by (simp only: tail_eq) simp
  show ?thesis using assms(1) s1 s2
    by (simp add: handle_user_signal_def Let_def on_thread_def alt usub64_def si_def [symmetric] al tail)
qed


definition example_env :: "(unit, unit, (unit, unit) log_mem) sig_env" where
  "example_env = \<lparr>e_thread = example_thread 7, e_ctx = \<lparr>rip = 64, rsp = 65536, rdi = 0, rsi = 0, rdx = 0,
     other_regs = ()\<rparr>, e_mem = []\<rparr>"

lemma example_env_simps:
  "\<not> contains_unsupported_flag SA_RESTORER" "pt_stack (e_thread example_env) = None"
  "unat (rsp (e_ctx example_env)) = 65536" "pt_context (e_thread example_env) = None"
  "pt_mask (e_thread example_env) = 0"
  by (simp_all add: contains_unsupported_flag_def SA_RESTORER_def SA_NOCLDSTOP_def SA_NOCLDWAIT_def SA_RESETHAND_def
      example_env_def example_thread_def)


lemma log_read_written:
  "\<forall>x \<in> set xs. fst x \<noteq> a \<Longrightarrow> log_read a (m @ [(b, VSigInfo i), (a, VUContext u)] @ xs) = Ok u"
proof -
  assume "\<forall>x \<in> set xs. fst x \<noteq> a"
  then have "find (\<lambda>(b, v). b = a \<and> (case v of VUContext _ \<Rightarrow> True | _ \<Rightarrow> False)) (rev xs) = None"
    by (auto simp: find_None_iff)
  then show ?thesis by (simp add: log_read_def find_append)
qed



text \<open>\<open>rt_sigaction\<close> installs a handler for SIGKILL or SIGSTOP like for any signal, where
  sigaction(2) demands \<open>EINVAL\<close>: afterwards the disposition of SIGKILL is \<open>Ign\<close>, and the default action
  that terminates the process is never taken.\<close>

theorem sigaction_accepts_sigkill:
  "sys_rt_sigaction wr (\<lambda>_. Ok \<lparr>handler_ptr = 1, act_flags = 0, restorer_ptr = 0, act_mask = 0\<rparr>) 9 4096 0 disp_new
     = Ok (disp_new[8 := Ign])
   \<and> disp_get SIGKILL (disp_new[8 := Ign]) = Ok Ign"
  by (simp add: sys_rt_sigaction_def sig_num_try_from_def disp_get_def disp_set_def disp_new_def num_to_idx_def
      sigaction_try_from_def unwrap_def)

text \<open>\<open>rt_sigprocmask\<close> panics the kernel on user errors: an unknown \<open>how\<close>, an old-mask pointer or a
  new-mask pointer that faults are not reported as \<open>EINVAL\<close> and \<open>EFAULT\<close>, because both results are
  unwrapped. With valid arguments it returns the new mask.\<close>

theorem sigprocmask_panics:
  "(how \<notin> {0, 1, 2} \<longrightarrow> sys_rt_sigprocmask wr rd how set_ptr oldset_ptr k = panic)
   \<and> (how = 2 \<and> oldset_ptr = 0 \<and> set_ptr \<noteq> 0 \<longrightarrow>
        sys_rt_sigprocmask wr rd how set_ptr oldset_ptr k =
          (case rd set_ptr of Inl _ \<Rightarrow> panic | Inr s \<Rightarrow> Ok s))"
  by (auto simp: sys_rt_sigprocmask_def mask_op_try_from_def unwrap_def do_rt_sigprocmask_def mask_set_def
      split: sum.splits)

theorem sigprocmask_panics_witness:
  "sys_rt_sigprocmask (\<lambda>_ _. Ok ()) (\<lambda>_. Ok 0) 7 4096 0 0 = panic
   \<and> sys_rt_sigprocmask (\<lambda>_ _. Ok ()) (\<lambda>_. Err EFAULT) 2 4096 0 0 = panic"
  using sigprocmask_panics [of 7 "\<lambda>_ _. Ok ()" "\<lambda>_. Ok 0" 4096 0 0]
    sigprocmask_panics [of 2 "\<lambda>_ _. Ok ()" "\<lambda>_. Err EFAULT" 4096 0 0]
  by simp

end
