(* ===== verification/Process_Groups.thy ===== *)
theory Process_Groups
  imports Signal_Queues "HOL-Library.AList"
begin

text \<open>
  Processes, process groups and sessions (\<open>process/process/mod.rs\<close>, \<open>process_group.rs\<close>, \<open>session.rs\<close>,
  \<open>process/process_table.rs\<close>), the system calls \<open>setpgid\<close>, \<open>setsid\<close>, \<open>getpgrp\<close> and \<open>getsid\<close>, and the job
  control of terminals (\<open>job_control.rs\<close>, \<open>terminal.rs\<close>).

  The objects behind an \<open>Arc\<close> live in stores: a process is named by its pid (pids come from a counter), a
  group, a session and a terminal by an address. \<open>Arc::ptr_eq\<close> is equality of names. A \<open>Weak\<close> is an optional
  name and \<open>upgrade\<close> succeeds while a table, or a session that is in the session table, still holds the
  object. A \<open>BTreeMap\<close> of processes is the sorted list of their pids, the other maps are association lists.
  The locks are left out: every operation takes the locks it needs in the documented order and runs as one
  step.
\<close>

section \<open>State\<close>

type_synonym pid = nat
type_synonym pgid = nat
type_synonym sid = nat
type_synonym gref = nat
type_synonym sref = nat
type_synonym tref = nat

datatype TermStatus = Exited u8 | Killed sig_num

fun as_u32 :: "TermStatus \<Rightarrow> u32" where
  "as_u32 (Exited status) = push_bit 8 (ucast status)"
| "as_u32 (Killed signum) = of_nat signum"

datatype ProcessStatus = Uninit | Runnable | Zombie TermStatus

fun is_zombie_status :: "ProcessStatus \<Rightarrow> bool" where
  "is_zombie_status (Zombie _) = True"
| "is_zombie_status _ = False"

text \<open>The file table, the resolver and the signal dispositions sit behind an \<open>Arc\<close>, so the process holds the
  name of each; the address space is named by its root \<open>Vmar\<close>. A thread is a tid with its exited flag.\<close>

record process_obj =
  p_parent :: "pid option"
  p_children :: "pid list"
  p_group :: "gref option"
  p_status :: ProcessStatus
  p_threads :: "(nat \<times> bool) list"
  p_vm :: nat
  p_file_table :: nat
  p_fs :: nat
  p_sighand :: nat
  p_umask :: nat
  p_nice :: int

record process_group =
  g_pgid :: pgid
  g_processes :: "pid list"
  g_leader :: "pid option"
  g_session :: "sref option"

record session =
  s_sid :: sid
  s_groups :: "(pgid \<times> gref) list"
  s_leader :: "pid option"
  s_terminal :: "tref option"

record job_control =
  jc_foreground :: "gref option"
  jc_session :: "sref option"

text \<open>\<open>sig_log\<close> lists the process-directed kernel signals in the order they are enqueued.\<close>

record pstate =
  procs :: "pid \<Rightarrow> process_obj"
  groups :: "gref \<Rightarrow> process_group"
  sessions :: "sref \<Rightarrow> session"
  job_controls :: "tref \<Rightarrow> job_control"
  next_group :: nat
  next_session :: nat
  process_table :: "pid list"
  group_table :: "(pgid \<times> gref) list"
  session_table :: "(sid \<times> sref) list"
  sig_log :: "(pid \<times> sig_num) list"

definition pid_insert :: "pid \<Rightarrow> pid list \<Rightarrow> pid list" where
  "pid_insert k xs = (if k \<in> set xs then xs else insort k xs)"

definition upd_proc :: "pid \<Rightarrow> (process_obj \<Rightarrow> process_obj) \<Rightarrow> 'x pstate_scheme \<Rightarrow> 'x pstate_scheme" where
  "upd_proc p f st = st\<lparr>procs := (procs st)(p := f (procs st p))\<rparr>"

definition upd_group :: "gref \<Rightarrow> (process_group \<Rightarrow> process_group) \<Rightarrow> 'x pstate_scheme \<Rightarrow> 'x pstate_scheme" where
  "upd_group g f st = st\<lparr>groups := (groups st)(g := f (groups st g))\<rparr>"

definition upd_session :: "sref \<Rightarrow> (session \<Rightarrow> session) \<Rightarrow> 'x pstate_scheme \<Rightarrow> 'x pstate_scheme" where
  "upd_session s f st = st\<lparr>sessions := (sessions st)(s := f (sessions st s))\<rparr>"

definition upd_jc :: "tref \<Rightarrow> (job_control \<Rightarrow> job_control) \<Rightarrow> 'x pstate_scheme \<Rightarrow> 'x pstate_scheme" where
  "upd_jc t f st = st\<lparr>job_controls := (job_controls st)(t := f (job_controls st t))\<rparr>"

definition unwrap_opt :: "'a option \<Rightarrow> 'a res" where
  "unwrap_opt x = (case x of None \<Rightarrow> panic | Some y \<Rightarrow> Ok y)"

section \<open>Groups and sessions\<close>

definition g_remove_process :: "pid \<Rightarrow> process_group \<Rightarrow> process_group" where
  "g_remove_process p g =
    (if p \<in> set (g_processes g)
     then g\<lparr>g_processes := removeAll p (g_processes g),
           g_leader := (if g_leader g = Some p then None else g_leader g)\<rparr>
     else g)"

definition g_is_empty :: "process_group \<Rightarrow> bool" where
  "g_is_empty g \<longleftrightarrow> g_processes g = []"

definition process_group_new :: "pid \<Rightarrow> process_group" where
  "process_group_new p = \<lparr>g_pgid = p, g_processes = [p], g_leader = Some p, g_session = None\<rparr>"

definition s_is_empty :: "session \<Rightarrow> bool" where
  "s_is_empty s \<longleftrightarrow> s_groups s = []"

definition s_remove_process :: "pid \<Rightarrow> session \<Rightarrow> session" where
  "s_remove_process p s = (if s_leader s = Some p then s\<lparr>s_leader := None\<rparr> else s)"

definition remove_process_group :: "pgid \<Rightarrow> session \<Rightarrow> session" where
  "remove_process_group k s = s\<lparr>s_groups := AList.delete k (s_groups s)\<rparr>"

definition session_new :: "gref \<Rightarrow> pgid \<Rightarrow> session" where
  "session_new g k = \<lparr>s_sid = k, s_groups = [(k, g)], s_leader = None, s_terminal = None\<rparr>"

definition session_alive :: "'x pstate_scheme \<Rightarrow> sref \<Rightarrow> bool" where
  "session_alive st s \<longleftrightarrow> map_of (session_table st) (s_sid (sessions st s)) = Some s"

definition group_alive :: "'x pstate_scheme \<Rightarrow> gref \<Rightarrow> bool" where
  "group_alive st g \<longleftrightarrow>
    (let k = g_pgid (groups st g) in
     map_of (group_table st) k = Some g
     \<or> list_ex (\<lambda>(_, s). map_of (s_groups (sessions st s)) k = Some g) (session_table st))"

definition upgrade_group :: "'x pstate_scheme \<Rightarrow> gref option \<Rightarrow> gref option" where
  "upgrade_group st w = (case w of None \<Rightarrow> None | Some g \<Rightarrow> if group_alive st g then Some g else None)"

definition upgrade_session :: "'x pstate_scheme \<Rightarrow> sref option \<Rightarrow> sref option" where
  "upgrade_session st w = (case w of None \<Rightarrow> None | Some s \<Rightarrow> if session_alive st s then Some s else None)"

definition get_process :: "pid \<Rightarrow> 'x pstate_scheme \<Rightarrow> pid option" where
  "get_process p st = (if p \<in> set (process_table st) then Some p else None)"

definition get_process_group :: "pgid \<Rightarrow> 'x pstate_scheme \<Rightarrow> gref option" where
  "get_process_group k st = map_of (group_table st) k"

definition contain_process_group :: "pgid \<Rightarrow> 'x pstate_scheme \<Rightarrow> bool" where
  "contain_process_group k st \<longleftrightarrow> map_of (group_table st) k \<noteq> None"

definition contains_process_group :: "sref \<Rightarrow> gref \<Rightarrow> 'x pstate_scheme \<Rightarrow> bool" where
  "contains_process_group s g st \<longleftrightarrow> map_of (s_groups (sessions st s)) (g_pgid (groups st g)) \<noteq> None"

section \<open>Processes\<close>

definition proc_group :: "pid \<Rightarrow> 'x pstate_scheme \<Rightarrow> gref option" where
  "proc_group p st = upgrade_group st (p_group (procs st p))"

definition pgid_of :: "pid \<Rightarrow> 'x pstate_scheme \<Rightarrow> pgid" where
  "pgid_of p st = (case proc_group p st of Some g \<Rightarrow> g_pgid (groups st g) | None \<Rightarrow> 0)"

definition is_group_leader :: "pid \<Rightarrow> 'x pstate_scheme \<Rightarrow> bool" where
  "is_group_leader p st =
    (case proc_group p st of None \<Rightarrow> False
     | Some g \<Rightarrow> (case g_leader (groups st g) of None \<Rightarrow> False | Some l \<Rightarrow> p = l))"

definition session_of :: "pid \<Rightarrow> 'x pstate_scheme \<Rightarrow> sref option" where
  "session_of p st = (case proc_group p st of None \<Rightarrow> None
     | Some g \<Rightarrow> upgrade_session st (g_session (groups st g)))"

definition is_session_leader :: "pid \<Rightarrow> 'x pstate_scheme \<Rightarrow> bool res" where
  "is_session_leader p st = bind_res (unwrap_opt (session_of p st)) (\<lambda>s.
     case s_leader (sessions st s) of None \<Rightarrow> Ok False | Some l \<Rightarrow> Ok (p = l))"

text \<open>The block \<open>Removes the process from old group\<close> that \<open>to_new_session\<close> and \<open>to_new_group\<close> share. The result
  tells whether the old group became empty and left its tables.\<close>

definition leave_group :: "pid \<Rightarrow> sref \<Rightarrow> 'x pstate_scheme \<Rightarrow> (bool \<times> 'x pstate_scheme) res" where
  "leave_group p s st =
    (case proc_group p st of
       None \<Rightarrow> Ok (False, st)
     | Some old \<Rightarrow>
        (let st1 = upd_proc p (\<lambda>x. x\<lparr>p_group := None\<rparr>) (upd_group old (g_remove_process p) st);
             k = g_pgid (groups st old)
         in if g_is_empty (groups st1 old)
            then if map_of (s_groups (sessions st1 s)) k = None then panic
                 else Ok (True, upd_session s (\<lambda>x. x\<lparr>s_groups := AList.delete k (s_groups x)\<rparr>)
                            (st1\<lparr>group_table := AList.delete k (group_table st1)\<rparr>))
            else Ok (False, st1)))"

definition alloc_group :: "pid \<Rightarrow> 'x pstate_scheme \<Rightarrow> gref \<times> 'x pstate_scheme" where
  "alloc_group p st = (next_group st,
     st\<lparr>groups := (groups st)(next_group st := process_group_new p), next_group := next_group st + 1\<rparr>)"

definition alloc_session :: "gref \<Rightarrow> 'x pstate_scheme \<Rightarrow> sref \<times> 'x pstate_scheme" where
  "alloc_session g st = (next_session st,
     st\<lparr>sessions := (sessions st)(next_session st := session_new g (g_pgid (groups st g))),
        next_session := next_session st + 1\<rparr>)"

definition enter_new_session :: "pid \<Rightarrow> 'x pstate_scheme \<Rightarrow> sref \<times> 'x pstate_scheme" where
  "enter_new_session p st =
    (let (g, st1) = alloc_group p st;
         st2 = upd_proc p (\<lambda>x. x\<lparr>p_group := Some g\<rparr>) st1;
         st3 = st2\<lparr>group_table := AList.update (g_pgid (groups st2 g)) g (group_table st2)\<rparr>;
         (s, st4) = alloc_session g st3;
         st5 = upd_session s (\<lambda>x. x\<lparr>s_leader := Some p\<rparr>) (upd_group g (\<lambda>x. x\<lparr>g_session := Some s\<rparr>) st4)
     in (s, st5\<lparr>session_table := AList.update (s_sid (sessions st5 s)) s (session_table st5)\<rparr>))"

definition to_new_session :: "pid \<Rightarrow> 'x pstate_scheme \<Rightarrow> (sref \<times> 'x pstate_scheme) res" where
  "to_new_session p st =
    bind_res (is_session_leader p st) (\<lambda>leader.
    if leader then bind_res (unwrap_opt (session_of p st)) (\<lambda>s. Ok (s, st))
    else if is_group_leader p st then Err EPERM
    else bind_res (unwrap_opt (session_of p st)) (\<lambda>s.
    if map_of (session_table st) p \<noteq> None then Err EPERM
    else if map_of (group_table st) p \<noteq> None then Err EPERM
    else bind_res (leave_group p s st) (\<lambda>(emptied, st1).
      let st2 = (if emptied \<and> s_is_empty (sessions st1 s)
                 then st1\<lparr>session_table := AList.delete (s_sid (sessions st1 s)) (session_table st1)\<rparr>
                 else st1);
          (s', st3) = enter_new_session p st2
      in Ok (s', upd_session s (s_remove_process p) st3))))"

definition enter_new_group :: "pid \<Rightarrow> sref \<Rightarrow> 'x pstate_scheme \<Rightarrow> 'x pstate_scheme" where
  "enter_new_group p s st =
    (let (g, st1) = alloc_group p st;
         st2 = upd_proc p (\<lambda>x. x\<lparr>p_group := Some g\<rparr>) st1;
         k = g_pgid (groups st2 g);
         st3 = st2\<lparr>group_table := AList.update k g (group_table st2)\<rparr>;
         st4 = upd_group g (\<lambda>x. x\<lparr>g_session := Some s\<rparr>) st3
     in upd_session s (\<lambda>x. x\<lparr>s_groups := AList.update k g (s_groups x)\<rparr>) st4)"

definition to_new_group :: "pid \<Rightarrow> 'x pstate_scheme \<Rightarrow> 'x pstate_scheme res" where
  "to_new_group p st =
    bind_res (unwrap_opt (session_of p st)) (\<lambda>s.
    bind_res (leave_group p s st) (\<lambda>(_, st1). Ok (enter_new_group p s st1)))"

definition to_specified_group :: "pid \<Rightarrow> gref \<Rightarrow> 'x pstate_scheme \<Rightarrow> 'x pstate_scheme" where
  "to_specified_group p g st =
    (let join = (\<lambda>st. upd_proc p (\<lambda>x. x\<lparr>p_group := Some g\<rparr>)
                  (upd_group g (\<lambda>x. x\<lparr>g_processes := pid_insert p (g_processes x)\<rparr>) st))
     in case proc_group p st of
          None \<Rightarrow> join st
        | Some old \<Rightarrow>
           if g_pgid (groups st old) = g_pgid (groups st g) then st
           else let st1 = upd_proc p (\<lambda>x. x\<lparr>p_group := None\<rparr>) (upd_group old (g_remove_process p) st)
                in join (if g_is_empty (groups st1 old)
                         then st1\<lparr>group_table := AList.delete (g_pgid (groups st1 old)) (group_table st1)\<rparr>
                         else st1))"

definition to_other_group :: "pid \<Rightarrow> pgid \<Rightarrow> 'x pstate_scheme \<Rightarrow> 'x pstate_scheme res" where
  "to_other_group p k st =
    (if pgid_of p st = k then Ok st
     else bind_res (is_session_leader p st) (\<lambda>leader.
     if leader then Err EPERM
     else case get_process_group k st of
       Some g \<Rightarrow> bind_res (unwrap_opt (session_of p st)) (\<lambda>s.
         if \<not> contains_process_group s g st then Err EPERM
         else Ok (to_specified_group p g st))
     | None \<Rightarrow> if k \<noteq> p then Err EPERM else to_new_group p st))"

section \<open>System calls\<close>

definition sys_setpgid :: "pid \<Rightarrow> pid \<Rightarrow> pgid \<Rightarrow> 'x pstate_scheme \<Rightarrow> 'x pstate_scheme res" where
  "sys_setpgid current pid0 pgid0 st =
    (let p = (if pid0 = 0 then current else pid0);
         k = (if pgid0 = 0 then p else pgid0)
     in if p \<noteq> current \<and> p \<notin> set (p_children (procs st current)) then Err ESRCH
        else if k \<noteq> p \<and> \<not> contain_process_group k st then Err EPERM
        else case get_process p st of None \<Rightarrow> Err ESRCH | Some q \<Rightarrow> to_other_group q k st)"

definition sys_setsid :: "pid \<Rightarrow> 'x pstate_scheme \<Rightarrow> (sid \<times> 'x pstate_scheme) res" where
  "sys_setsid current st = bind_res (to_new_session current st) (\<lambda>(s, st'). Ok (s_sid (sessions st' s), st'))"

definition sys_getpgrp :: "pid \<Rightarrow> 'x pstate_scheme \<Rightarrow> pgid" where
  "sys_getpgrp current st = pgid_of current st"

definition sys_getsid :: "pid \<Rightarrow> pid \<Rightarrow> 'x pstate_scheme \<Rightarrow> sid res" where
  "sys_getsid current p st =
    bind_res (unwrap_opt (session_of current st)) (\<lambda>s.
    if p = 0 then Ok (s_sid (sessions st s))
    else case get_process p st of None \<Rightarrow> Err ESRCH
      | Some q \<Rightarrow> bind_res (unwrap_opt (session_of q st)) (\<lambda>s'.
          if s \<noteq> s' then Err EPERM else Ok (s_sid (sessions st s))))"

section \<open>Job control\<close>

definition is_zombie :: "pid \<Rightarrow> 'x pstate_scheme \<Rightarrow> bool" where
  "is_zombie p st \<longleftrightarrow> is_zombie_status (p_status (procs st p))"

text \<open>\<open>Process::enqueue_signal\<close> up to the choice of the thread, which is part of the signal model.\<close>

definition p_enqueue_signal :: "pid \<Rightarrow> sig_num \<Rightarrow> 'x pstate_scheme \<Rightarrow> 'x pstate_scheme" where
  "p_enqueue_signal p sig st = (if is_zombie p st then st else st\<lparr>sig_log := sig_log st @ [(p, sig)]\<rparr>)"

definition broadcast_signal :: "gref \<Rightarrow> sig_num \<Rightarrow> 'x pstate_scheme \<Rightarrow> 'x pstate_scheme" where
  "broadcast_signal g sig st = fold (\<lambda>p. p_enqueue_signal p sig) (g_processes (groups st g)) st"

definition job_control_new :: job_control where
  "job_control_new = \<lparr>jc_foreground = None, jc_session = None\<rparr>"

definition jc_session_of :: "tref \<Rightarrow> 'x pstate_scheme \<Rightarrow> sref option" where
  "jc_session_of t st = upgrade_session st (jc_session (job_controls st t))"

definition foreground :: "tref \<Rightarrow> 'x pstate_scheme \<Rightarrow> gref option" where
  "foreground t st = upgrade_group st (jc_foreground (job_controls st t))"

definition jc_set_session :: "tref \<Rightarrow> sref \<Rightarrow> 'x pstate_scheme \<Rightarrow> 'x pstate_scheme res" where
  "jc_set_session t s st =
    (if jc_session_of t st \<noteq> None then panic else Ok (upd_jc t (\<lambda>j. j\<lparr>jc_session := Some s\<rparr>) st))"

definition jc_set_current_session :: "tref \<Rightarrow> pid \<Rightarrow> 'x pstate_scheme \<Rightarrow> 'x pstate_scheme res" where
  "jc_set_current_session t current st =
    (if jc_session_of t st \<noteq> None then Err EPERM
     else bind_res (unwrap_opt (proc_group current st)) (\<lambda>g.
       let st1 = upd_jc t (\<lambda>j. j\<lparr>jc_foreground := Some g\<rparr>) st
       in bind_res (unwrap_opt (session_of current st1)) (\<lambda>s.
          Ok (upd_jc t (\<lambda>j. j\<lparr>jc_session := Some s\<rparr>) st1))))"

definition jc_release_current_session :: "tref \<Rightarrow> 'x pstate_scheme \<Rightarrow> 'x pstate_scheme res" where
  "jc_release_current_session t st =
    (case jc_session_of t st of
       None \<Rightarrow> Err ENOTTY
     | Some _ \<Rightarrow> Ok (case foreground t st of None \<Rightarrow> st
                   | Some g \<Rightarrow> broadcast_signal g SIGCONT (broadcast_signal g SIGHUP st)))"

definition jc_set_foreground :: "tref \<Rightarrow> gref option \<Rightarrow> 'x pstate_scheme \<Rightarrow> 'x pstate_scheme res" where
  "jc_set_foreground t new st =
    (case new of
       None \<Rightarrow> Ok (upd_jc t (\<lambda>j. j\<lparr>jc_foreground := None\<rparr>) st)
     | Some g \<Rightarrow> bind_res (unwrap_opt (upgrade_session st (g_session (groups st g)))) (\<lambda>s.
         case jc_session_of t st of
           None \<Rightarrow> Err EPERM
         | Some ts \<Rightarrow> if ts \<noteq> s then Err EPERM
                    else Ok (upd_jc t (\<lambda>j. j\<lparr>jc_foreground := Some g\<rparr>) st)))"

definition current_belongs_to_foreground :: "tref \<Rightarrow> pid \<Rightarrow> 'x pstate_scheme \<Rightarrow> bool" where
  "current_belongs_to_foreground t current st =
    (case foreground t st of None \<Rightarrow> True | Some g \<Rightarrow> current \<in> set (g_processes (groups st g)))"

definition is_controlling_terminal :: "tref \<Rightarrow> pid \<Rightarrow> 'x pstate_scheme \<Rightarrow> bool res" where
  "is_controlling_terminal t current st = bind_res (unwrap_opt (session_of current st)) (\<lambda>s.
     Ok (s_terminal (sessions st s) = Some t))"

definition term_set_foreground :: "tref \<Rightarrow> pid \<Rightarrow> pgid \<Rightarrow> 'x pstate_scheme \<Rightarrow> 'x pstate_scheme res" where
  "term_set_foreground t current k st = bind_res (is_controlling_terminal t current st) (\<lambda>c.
     if \<not> c then Err ENOTTY else jc_set_foreground t (get_process_group k st) st)"

definition set_terminal :: "sref \<Rightarrow> tref \<Rightarrow> ('x pstate_scheme \<Rightarrow> 'x pstate_scheme res) \<Rightarrow> 'x pstate_scheme \<Rightarrow>
    'x pstate_scheme res" where
  "set_terminal s t get_terminal st =
    (if s_terminal (sessions st s) \<noteq> None then Err EPERM
     else bind_res (get_terminal st) (\<lambda>st1. Ok (upd_session s (\<lambda>x. x\<lparr>s_terminal := Some t\<rparr>) st1)))"

definition release_terminal :: "sref \<Rightarrow> (tref \<Rightarrow> 'x pstate_scheme \<Rightarrow> 'x pstate_scheme res) \<Rightarrow> 'x pstate_scheme \<Rightarrow>
    'x pstate_scheme res" where
  "release_terminal s release_session st =
    (case s_terminal (sessions st s) of
       None \<Rightarrow> Err ENOTTY
     | Some t \<Rightarrow> bind_res (release_session t st) (\<lambda>st1. Ok (upd_session s (\<lambda>x. x\<lparr>s_terminal := None\<rparr>) st1)))"

definition term_set_current_session :: "tref \<Rightarrow> pid \<Rightarrow> 'x pstate_scheme \<Rightarrow> 'x pstate_scheme res" where
  "term_set_current_session t current st = bind_res (is_session_leader current st) (\<lambda>leader.
     if \<not> leader then Err EPERM
     else bind_res (unwrap_opt (session_of current st)) (\<lambda>s.
       set_terminal s t (jc_set_current_session t current) st))"

definition term_release_current_session :: "tref \<Rightarrow> pid \<Rightarrow> 'x pstate_scheme \<Rightarrow> 'x pstate_scheme res" where
  "term_release_current_session t current st = bind_res (is_controlling_terminal t current st) (\<lambda>c.
     if \<not> c then Err ENOTTY
     else bind_res (is_session_leader current st) (\<lambda>leader.
       if \<not> leader then Ok st
       else bind_res (unwrap_opt (session_of current st)) (\<lambda>s.
         release_terminal s (\<lambda>_. jc_release_current_session t) st)))"


section \<open>Invariant\<close>

text \<open>A process of the process table belongs to a group of the group table that lists it.\<close>

definition member_ok :: "'x pstate_scheme \<Rightarrow> pid \<Rightarrow> bool" where
  "member_ok st p \<longleftrightarrow> (\<exists>g. p_group (procs st p) = Some g
     \<and> map_of (group_table st) (g_pgid (groups st g)) = Some g \<and> p \<in> set (g_processes (groups st g)))"

text \<open>A group of the table is listed under its own id, is not empty, lists only processes that point back to
  it, is led by the process of the same id or by nobody, and belongs to a live session that lists it.\<close>

definition group_ok :: "'x pstate_scheme \<Rightarrow> pgid \<Rightarrow> gref \<Rightarrow> bool" where
  "group_ok st k g \<longleftrightarrow> g_pgid (groups st g) = k \<and> g < next_group st \<and> g_processes (groups st g) \<noteq> []
     \<and> (\<forall>p \<in> set (g_processes (groups st g)). p \<in> set (process_table st) \<and> p_group (procs st p) = Some g)
     \<and> (\<forall>l. g_leader (groups st g) = Some l \<longrightarrow> l = k)
     \<and> (\<exists>s. g_session (groups st g) = Some s \<and> map_of (session_table st) (s_sid (sessions st s)) = Some s
           \<and> map_of (s_groups (sessions st s)) k = Some g)"

text \<open>A session of the table is listed under its own id, is led by the process of the same id, which is one of
  its members, or by nobody, and the groups it lists name it as their session.\<close>

definition session_ok :: "'x pstate_scheme \<Rightarrow> sid \<Rightarrow> sref \<Rightarrow> bool" where
  "session_ok st k s \<longleftrightarrow> s_sid (sessions st s) = k \<and> s < next_session st
     \<and> (\<forall>l. s_leader (sessions st s) = Some l \<longrightarrow> l = k \<and> l \<in> set (process_table st)
           \<and> (\<exists>g. p_group (procs st l) = Some g \<and> g_session (groups st g) = Some s))
     \<and> (\<forall>k' g. map_of (s_groups (sessions st s)) k' = Some g \<longrightarrow>
           g_pgid (groups st g) = k' \<and> g < next_group st \<and> g_session (groups st g) = Some s)"

text \<open>The invariant of an operation under way: the processes \<open>X\<close> have no group yet, the sessions \<open>Y\<close> may be
  empty.\<close>

definition pg_inv_ex :: "pid set \<Rightarrow> sref set \<Rightarrow> 'x pstate_scheme \<Rightarrow> bool" where
  "pg_inv_ex X Y st \<longleftrightarrow>
     (\<forall>p \<in> set (process_table st) - X. member_ok st p)
     \<and> (\<forall>k g. map_of (group_table st) k = Some g \<longrightarrow> group_ok st k g)
     \<and> (\<forall>k s. map_of (session_table st) k = Some s \<longrightarrow> session_ok st k s \<and> (s \<in> Y \<or> s_groups (sessions st s) \<noteq> []))"

abbreviation pg_inv :: "'x pstate_scheme \<Rightarrow> bool" where
  "pg_inv st \<equiv> pg_inv_ex {} {} st"

lemmas upd_defs = upd_proc_def upd_group_def upd_session_def upd_jc_def

lemma upd_proc_simps [simp]:
  "procs (upd_proc p f st) = (procs st)(p := f (procs st p))" "groups (upd_proc p f st) = groups st"
  "sessions (upd_proc p f st) = sessions st" "process_table (upd_proc p f st) = process_table st"
  "group_table (upd_proc p f st) = group_table st" "session_table (upd_proc p f st) = session_table st"
  "next_group (upd_proc p f st) = next_group st" "next_session (upd_proc p f st) = next_session st"
  "job_controls (upd_proc p f st) = job_controls st" "sig_log (upd_proc p f st) = sig_log st"
  "pstate.more (upd_proc p f st) = pstate.more st"
  by (simp_all add: upd_proc_def)

lemma upd_group_simps [simp]:
  "groups (upd_group g h st) = (groups st)(g := h (groups st g))" "procs (upd_group g h st) = procs st"
  "sessions (upd_group g h st) = sessions st" "process_table (upd_group g h st) = process_table st"
  "group_table (upd_group g h st) = group_table st" "session_table (upd_group g h st) = session_table st"
  "next_group (upd_group g h st) = next_group st" "next_session (upd_group g h st) = next_session st"
  "job_controls (upd_group g h st) = job_controls st" "sig_log (upd_group g h st) = sig_log st"
  "pstate.more (upd_group g h st) = pstate.more st"
  by (simp_all add: upd_group_def)

lemma upd_session_simps [simp]:
  "sessions (upd_session s k st) = (sessions st)(s := k (sessions st s))" "procs (upd_session s k st) = procs st"
  "groups (upd_session s k st) = groups st" "process_table (upd_session s k st) = process_table st"
  "group_table (upd_session s k st) = group_table st" "session_table (upd_session s k st) = session_table st"
  "next_group (upd_session s k st) = next_group st" "next_session (upd_session s k st) = next_session st"
  "job_controls (upd_session s k st) = job_controls st" "sig_log (upd_session s k st) = sig_log st"
  "pstate.more (upd_session s k st) = pstate.more st"
  by (simp_all add: upd_session_def)

lemma upd_jc_simps [simp]:
  "job_controls (upd_jc t j st) = (job_controls st)(t := j (job_controls st t))" "procs (upd_jc t j st) = procs st"
  "groups (upd_jc t j st) = groups st" "sessions (upd_jc t j st) = sessions st"
  "process_table (upd_jc t j st) = process_table st" "sig_log (upd_jc t j st) = sig_log st"
  by (simp_all add: upd_jc_def)

lemma g_remove_process_simps [simp]:
  "g_pgid (g_remove_process p g) = g_pgid g" "g_session (g_remove_process p g) = g_session g"
  "g_processes (g_remove_process p g) = removeAll p (g_processes g)"
  by (simp_all add: g_remove_process_def)

lemma g_leader_remove: "g_leader (g_remove_process p g) = Some l \<Longrightarrow> g_leader g = Some l"
  by (auto simp: g_remove_process_def split: if_splits)

lemma set_pid_insert [simp]: "set (pid_insert k xs) = insert k (set xs)"
  by (auto simp: pid_insert_def set_insort_key)

lemma pid_insert_not_Nil [simp]: "pid_insert k xs \<noteq> []"
  by (metis insert_not_empty list.set(1) set_pid_insert)

lemma member_group:
  assumes "pg_inv_ex X Y st" and "p \<in> set (process_table st)" and "p \<notin> X"
  obtains g s where "p_group (procs st p) = Some g" and "proc_group p st = Some g"
    and "map_of (group_table st) (g_pgid (groups st g)) = Some g" and "p \<in> set (g_processes (groups st g))"
    and "g_session (groups st g) = Some s" and "session_of p st = Some s"
    and "map_of (session_table st) (s_sid (sessions st s)) = Some s"
    and "map_of (s_groups (sessions st s)) (g_pgid (groups st g)) = Some g"
    and "pgid_of p st = g_pgid (groups st g)"
proof -
  from assms have "member_ok st p" by (auto simp: pg_inv_ex_def)
  then obtain g where g: "p_group (procs st p) = Some g"
    "map_of (group_table st) (g_pgid (groups st g)) = Some g" "p \<in> set (g_processes (groups st g))"
    by (auto simp: member_ok_def)
  with assms(1) have "group_ok st (g_pgid (groups st g)) g" by (auto simp: pg_inv_ex_def)
  then obtain s where s: "g_session (groups st g) = Some s"
    "map_of (session_table st) (s_sid (sessions st s)) = Some s"
    "map_of (s_groups (sessions st s)) (g_pgid (groups st g)) = Some g"
    by (auto simp: group_ok_def)
  have "proc_group p st = Some g"
    using g by (simp add: proc_group_def upgrade_group_def group_alive_def Let_def)
  with g s that show thesis by (simp add: session_of_def upgrade_session_def session_alive_def pgid_of_def)
qed

text \<open>Leaving a group, with the cleanup of the tables.\<close>

definition left_group :: "pid \<Rightarrow> gref \<Rightarrow> 'x pstate_scheme \<Rightarrow> 'x pstate_scheme" where
  "left_group p g st = upd_proc p (\<lambda>x. x\<lparr>p_group := None\<rparr>) (upd_group g (g_remove_process p) st)"

lemma left_group_inv:
  assumes inv: "pg_inv st" and p: "p \<in> set (process_table st)" and g: "p_group (procs st p) = Some g"
    and nl: "\<And>k s. map_of (session_table st) k = Some s \<Longrightarrow> s_leader (sessions st s) \<noteq> Some p"
    and ne: "removeAll p (g_processes (groups st g)) \<noteq> []"
  shows "pg_inv_ex {p} {} (left_group p g st)"
proof -
  have "member_ok (left_group p g st) q" if "q \<in> set (process_table st)" "q \<noteq> p" for q
  proof -
    from inv that have "member_ok st q" by (auto simp: pg_inv_ex_def)
    with that show ?thesis by (auto simp: member_ok_def left_group_def)
  qed
  moreover have "group_ok (left_group p g st) k h" if "map_of (group_table st) k = Some h" for k h
  proof -
    from inv that have ok: "group_ok st k h" by (auto simp: pg_inv_ex_def)
    have "p \<notin> set (g_processes (groups st h))" if "h \<noteq> g"
      using ok g that by (auto simp: group_ok_def)
    with ok ne show ?thesis by (auto simp: group_ok_def left_group_def dest: g_leader_remove)
  qed
  moreover have "session_ok (left_group p g st) k s" if "map_of (session_table st) k = Some s" for k s
  proof -
    from inv that have "session_ok st k s" by (auto simp: pg_inv_ex_def)
    with nl [OF that] show ?thesis by (auto simp: session_ok_def left_group_def)
  qed
  ultimately show ?thesis using inv by (auto simp: pg_inv_ex_def left_group_def)
qed

definition emptied_group :: "pid \<Rightarrow> gref \<Rightarrow> 'x pstate_scheme \<Rightarrow> 'x pstate_scheme" where
  "emptied_group p g st =
    (left_group p g st)\<lparr>group_table := AList.delete (g_pgid (groups st g)) (group_table st)\<rparr>"

lemma emptied_group_inv:
  assumes inv: "pg_inv st" and p: "p \<in> set (process_table st)" and g: "p_group (procs st p) = Some g"
    and nl: "\<And>k s. map_of (session_table st) k = Some s \<Longrightarrow> s_leader (sessions st s) \<noteq> Some p"
    and ne: "removeAll p (g_processes (groups st g)) = []"
    and tbl: "map_of (group_table st) (g_pgid (groups st g)) = Some g"
  shows "pg_inv_ex {p} {} (emptied_group p g st)"
proof -
  have sub: "set (g_processes (groups st g)) \<subseteq> {p}" using ne by (metis set_removeAll list.set(1) Diff_eq_empty_iff)
  have "member_ok (emptied_group p g st) q" if q: "q \<in> set (process_table st)" "q \<noteq> p" for q
  proof -
    from inv q have "member_ok st q" by (auto simp: pg_inv_ex_def)
    then obtain h where h: "p_group (procs st q) = Some h" "q \<in> set (g_processes (groups st h))"
      "map_of (group_table st) (g_pgid (groups st h)) = Some h" by (auto simp: member_ok_def)
    with q sub tbl have "h \<noteq> g" "g_pgid (groups st h) \<noteq> g_pgid (groups st g)" by auto
    with q h show ?thesis by (auto simp: member_ok_def left_group_def emptied_group_def delete_conv')
  qed
  moreover have "group_ok (emptied_group p g st) k h"
    if k: "map_of (group_table st) k = Some h" "k \<noteq> g_pgid (groups st g)" for k h
  proof -
    from inv k have ok: "group_ok st k h" by (auto simp: pg_inv_ex_def)
    with k have "h \<noteq> g" by (auto simp: group_ok_def)
    moreover from ok g this have "p \<notin> set (g_processes (groups st h))" by (auto simp: group_ok_def)
    ultimately show ?thesis using ok by (auto simp: group_ok_def left_group_def emptied_group_def)
  qed
  moreover have "session_ok (emptied_group p g st) k s" if k: "map_of (session_table st) k = Some s" for k s
  proof -
    from inv k have "session_ok st k s" by (auto simp: pg_inv_ex_def)
    with nl [OF k] show ?thesis by (auto simp: session_ok_def left_group_def emptied_group_def)
  qed
  ultimately show ?thesis using inv
    by (auto simp: pg_inv_ex_def left_group_def emptied_group_def delete_conv' split: if_splits)
qed

lemma drop_session_group_inv:
  assumes inv: "pg_inv_ex X {} st" and k: "map_of (group_table st) k = None"
  shows "pg_inv_ex X {s} (upd_session s (\<lambda>x. x\<lparr>s_groups := AList.delete k (s_groups x)\<rparr>) st)" (is "pg_inv_ex _ _ ?st")
proof -
  have "member_ok ?st q" if "q \<in> set (process_table st) - X" for q
    using inv that by (auto simp: pg_inv_ex_def member_ok_def)
  moreover have "group_ok ?st k' h" if k': "map_of (group_table st) k' = Some h" for k' h
  proof -
    from inv k' have "group_ok st k' h" by (auto simp: pg_inv_ex_def)
    with k k' show ?thesis by (auto simp: group_ok_def delete_conv')
  qed
  moreover have "session_ok ?st j t" if j: "map_of (session_table st) j = Some t" for j t
  proof -
    from inv j have "session_ok st j t" by (auto simp: pg_inv_ex_def)
    then show ?thesis by (auto simp: session_ok_def delete_conv' split: if_splits)
  qed
  ultimately show ?thesis using inv by (auto simp: pg_inv_ex_def)
qed

lemma drop_session_inv:
  assumes inv: "pg_inv_ex X {s} st" and e: "s_groups (sessions st s) = []"
    and al: "map_of (session_table st) (s_sid (sessions st s)) = Some s"
  shows "pg_inv_ex X {} (st\<lparr>session_table := AList.delete (s_sid (sessions st s)) (session_table st)\<rparr>)" (is "pg_inv_ex _ _ ?st")
proof -
  have "member_ok ?st q" if "q \<in> set (process_table st) - X" for q
    using inv that by (auto simp: pg_inv_ex_def member_ok_def)
  moreover have "group_ok ?st k' h" if k': "map_of (group_table st) k' = Some h" for k' h
  proof -
    from inv k' have ok: "group_ok st k' h" by (auto simp: pg_inv_ex_def)
    then obtain t where t: "g_session (groups st h) = Some t" "map_of (session_table st) (s_sid (sessions st t)) = Some t"
      "map_of (s_groups (sessions st t)) k' = Some h" by (auto simp: group_ok_def)
    with e al have "s_sid (sessions st t) \<noteq> s_sid (sessions st s)" by auto
    with ok t show ?thesis by (auto simp: group_ok_def delete_conv')
  qed
  moreover have "session_ok ?st j t" if j: "map_of (session_table st) j = Some t" for j t
  proof -
    from inv j have "session_ok st j t" by (auto simp: pg_inv_ex_def)
    then show ?thesis by (auto simp: session_ok_def)
  qed
  moreover have "s_groups (sessions st t) \<noteq> []"
    if "map_of (session_table st) j = Some t" "j \<noteq> s_sid (sessions st s)" for j t
    using inv that by (auto simp: pg_inv_ex_def session_ok_def)
  ultimately show ?thesis by (auto simp: pg_inv_ex_def delete_conv' split: if_splits)
qed


lemma enter_new_session_inv:
  assumes inv: "pg_inv_ex {p} {} st" and p: "p \<in> set (process_table st)" and g: "p_group (procs st p) = None"
    and kg: "map_of (group_table st) p = None" and ks: "map_of (session_table st) p = None"
    and e: "enter_new_session p st = (s, st')"
  shows "pg_inv st'"
proof -
  let ?g = "next_group st"
  have s: "s = next_session st" and gt: "group_table st' = AList.update p ?g (group_table st)"
    and sst: "session_table st' = AList.update p s (session_table st)"
    and ng: "next_group st' = ?g + 1" and ns: "next_session st' = s + 1"
    and pt: "process_table st' = process_table st"
    and pr: "procs st' = (procs st)(p := (procs st p)\<lparr>p_group := Some ?g\<rparr>)"
    and gr: "groups st' = (groups st)(?g := \<lparr>g_pgid = p, g_processes = [p], g_leader = Some p, g_session = Some s\<rparr>)"
    and se: "sessions st' = (sessions st)(s := \<lparr>s_sid = p, s_groups = [(p, ?g)], s_leader = Some p, s_terminal = None\<rparr>)"
    using e by (auto simp: enter_new_session_def Let_def alloc_group_def alloc_session_def process_group_new_def
        session_new_def)
  have frame: "h < ?g" "p \<notin> set (g_processes (groups st h))" "k \<noteq> p" if "map_of (group_table st) k = Some h" for k h
  proof -
    from inv that have "group_ok st k h" by (auto simp: pg_inv_ex_def)
    with g show "h < ?g" "p \<notin> set (g_processes (groups st h))" by (auto simp: group_ok_def)
    from that kg show "k \<noteq> p" by auto
  qed
  have frames: "t < s" "k \<noteq> p" if "map_of (session_table st) k = Some t" for k t
    using inv that s ks by (auto simp: pg_inv_ex_def session_ok_def)
  have "member_ok st' q" if q: "q \<in> set (process_table st)" for q
  proof (cases "q = p")
    case True
    then show ?thesis by (simp add: member_ok_def pr gr gt update_conv')
  next
    case False
    with inv q have "member_ok st q" by (auto simp: pg_inv_ex_def)
    with False frame show ?thesis by (fastforce simp: member_ok_def pr gr gt update_conv')
  qed
  moreover have "group_ok st' k h" if k: "map_of (group_table st') k = Some h" for k h
  proof (cases "k = p")
    case True
    with k p show ?thesis by (simp add: group_ok_def pr gr gt update_conv' se sst pt ng)
  next
    case False
    with k have k: "map_of (group_table st) k = Some h" by (simp add: gt update_conv')
    with inv have ok: "group_ok st k h" by (auto simp: pg_inv_ex_def)
    then obtain t where t: "g_session (groups st h) = Some t" "map_of (session_table st) (s_sid (sessions st t)) = Some t"
      "map_of (s_groups (sessions st t)) k = Some h" by (auto simp: group_ok_def)
    with ok frame [OF k] frames [OF t(2)] show ?thesis
      by (auto simp: group_ok_def pr gr se sst pt ng update_conv')
  qed
  moreover have "session_ok st' k t \<and> s_groups (sessions st' t) \<noteq> []" if k: "map_of (session_table st') k = Some t" for k t
  proof (cases "k = p")
    case True
    with k p show ?thesis by (simp add: session_ok_def pr gr update_conv' se sst pt ng ns)
  next
    case False
    with k have k: "map_of (session_table st) k = Some t" by (simp add: sst update_conv')
    with inv have ok: "session_ok st k t" "s_groups (sessions st t) \<noteq> []" by (auto simp: pg_inv_ex_def)
    moreover have "s_leader (sessions st t) \<noteq> Some p" using ok g by (auto simp: session_ok_def)
    moreover have "h \<noteq> ?g" if "p_group (procs st l) = Some h" "l \<in> set (process_table st)" "l \<noteq> p" for l h
    proof -
      from inv that have "member_ok st l" by (auto simp: pg_inv_ex_def)
      with that frame show ?thesis by (fastforce simp: member_ok_def)
    qed
    ultimately show ?thesis using frames [OF k]
      by (fastforce simp: session_ok_def pr gr update_conv' se pt ng ns)
  qed
  ultimately show ?thesis by (auto simp: pg_inv_ex_def pt)
qed

lemma enter_new_group_inv:
  assumes inv: "pg_inv_ex {p} {s} st" and p: "p \<in> set (process_table st)" and g: "p_group (procs st p) = None"
    and kg: "map_of (group_table st) p = None" and al: "map_of (session_table st) (s_sid (sessions st s)) = Some s"
  shows "pg_inv (enter_new_group p s st)" (is "pg_inv ?st")
proof -
  let ?g = "next_group st"
  have gt: "group_table ?st = AList.update p ?g (group_table st)"
    and sst: "session_table ?st = session_table st" "next_session ?st = next_session st"
    and ng: "next_group ?st = ?g + 1" and pt: "process_table ?st = process_table st"
    and pr: "procs ?st = (procs st)(p := (procs st p)\<lparr>p_group := Some ?g\<rparr>)"
    and gr: "groups ?st = (groups st)(?g := \<lparr>g_pgid = p, g_processes = [p], g_leader = Some p, g_session = Some s\<rparr>)"
    and se: "sessions ?st = (sessions st)(s := (sessions st s)\<lparr>s_groups := AList.update p ?g (s_groups (sessions st s))\<rparr>)"
    by (auto simp: enter_new_group_def Let_def alloc_group_def process_group_new_def)
  have frame: "h < ?g" "p \<notin> set (g_processes (groups st h))" "k \<noteq> p" if "map_of (group_table st) k = Some h" for k h
  proof -
    from inv that have "group_ok st k h" by (auto simp: pg_inv_ex_def)
    with g show "h < ?g" "p \<notin> set (g_processes (groups st h))" by (auto simp: group_ok_def)
    from that kg show "k \<noteq> p" by auto
  qed
  have "member_ok ?st q" if q: "q \<in> set (process_table st)" for q
  proof (cases "q = p")
    case True
    then show ?thesis by (simp add: member_ok_def pr gr gt update_conv')
  next
    case False
    with inv q have "member_ok st q" by (auto simp: pg_inv_ex_def)
    with False frame show ?thesis by (fastforce simp: member_ok_def pr gr gt update_conv')
  qed
  moreover have "group_ok ?st k h" if k: "map_of (group_table ?st) k = Some h" for k h
  proof (cases "k = p")
    case True
    with k p al show ?thesis by (simp add: group_ok_def pr gr gt update_conv' se sst pt ng)
  next
    case False
    with k have k: "map_of (group_table st) k = Some h" by (simp add: gt update_conv')
    with inv have ok: "group_ok st k h" by (auto simp: pg_inv_ex_def)
    with frame [OF k] show ?thesis by (auto simp: group_ok_def pr gr se sst pt ng update_conv')
  qed
  moreover have "session_ok ?st k t \<and> s_groups (sessions ?st t) \<noteq> []" if k: "map_of (session_table st) k = Some t" for k t
  proof -
    from k inv have ok: "session_ok st k t" "t = s \<or> s_groups (sessions st t) \<noteq> []" by (auto simp: pg_inv_ex_def)
    moreover have "s_leader (sessions st t) \<noteq> Some p" using ok g by (auto simp: session_ok_def)
    moreover have "h \<noteq> ?g" if "p_group (procs st l) = Some h" "l \<in> set (process_table st)" "l \<noteq> p" for l h
    proof -
      from inv that have "member_ok st l" by (auto simp: pg_inv_ex_def)
      with that frame show ?thesis by (fastforce simp: member_ok_def)
    qed
    ultimately show ?thesis
      by (fastforce simp: session_ok_def pr gr update_conv' se pt ng sst update_nonempty split: if_splits)
  qed
  ultimately show ?thesis by (auto simp: pg_inv_ex_def pt sst)
qed

lemma join_group_inv:
  assumes inv: "pg_inv_ex {p} {} st" and p: "p \<in> set (process_table st)" and g: "p_group (procs st p) = None"
    and al: "map_of (group_table st) k = Some h"
  shows "pg_inv (upd_proc p (\<lambda>x. x\<lparr>p_group := Some h\<rparr>)
                  (upd_group h (\<lambda>x. x\<lparr>g_processes := pid_insert p (g_processes x)\<rparr>) st))" (is "pg_inv ?st")
proof -
  have k: "g_pgid (groups st h) = k" using inv al by (auto simp: pg_inv_ex_def group_ok_def)
  have "member_ok ?st q" if q: "q \<in> set (process_table st)" for q
  proof (cases "q = p")
    case True
    with al k show ?thesis by (simp add: member_ok_def)
  next
    case False
    with inv q have "member_ok st q" by (auto simp: pg_inv_ex_def)
    with False show ?thesis by (auto simp: member_ok_def)
  qed
  moreover have "group_ok ?st j i" if j: "map_of (group_table st) j = Some i" for j i
  proof -
    from j inv have ok: "group_ok st j i" by (auto simp: pg_inv_ex_def)
    with g have "p \<notin> set (g_processes (groups st i))" by (auto simp: group_ok_def)
    with ok p show ?thesis by (auto simp: group_ok_def)
  qed
  moreover have "session_ok ?st j t" if j: "map_of (session_table st) j = Some t" for j t
  proof -
    from j inv have ok: "session_ok st j t" by (auto simp: pg_inv_ex_def)
    with g have "s_leader (sessions st t) \<noteq> Some p" by (auto simp: session_ok_def)
    with ok show ?thesis by (auto simp: session_ok_def)
  qed
  ultimately show ?thesis using inv by (auto simp: pg_inv_ex_def)
qed


subsection \<open>The operations keep the invariant\<close>

text \<open>What a change of group leaves alone: everything but the group of \<open>p\<close>, the tables and the lists of
  members.\<close>

definition same_ids :: "pid \<Rightarrow> 'x pstate_scheme \<Rightarrow> 'x pstate_scheme \<Rightarrow> bool" where
  "same_ids p st st' \<longleftrightarrow> process_table st' = process_table st
     \<and> (\<forall>q. q \<noteq> p \<longrightarrow> procs st' q = procs st q)
     \<and> (\<exists>w. procs st' p = (procs st p)\<lparr>p_group := w\<rparr>)
     \<and> (\<forall>g < next_group st. g_session (groups st' g) = g_session (groups st g) \<and> g_pgid (groups st' g) = g_pgid (groups st g))
     \<and> (\<forall>s < next_session st. s_sid (sessions st' s) = s_sid (sessions st s))
     \<and> next_group st \<le> next_group st' \<and> next_session st \<le> next_session st'
     \<and> pstate.more st' = pstate.more st"

lemma same_ids_trans:
  assumes "same_ids p st st1" and "same_ids p st1 st2"
  shows "same_ids p st st2"
  using assms by (auto simp: same_ids_def)

lemma pg_inv_ex_nonempty: "pg_inv_ex X {s} st \<Longrightarrow> s_groups (sessions st s) \<noteq> [] \<Longrightarrow> pg_inv_ex X {} st"
  unfolding pg_inv_ex_def by blast

lemma not_session_leader:
  assumes inv: "pg_inv st" and p: "p \<in> set (process_table st)" and nl: "is_session_leader p st = Ok False"
    and t: "map_of (session_table st) k = Some t"
  shows "s_leader (sessions st t) \<noteq> Some p"
proof
  assume l: "s_leader (sessions st t) = Some p"
  from inv t have "session_ok st k t" by (auto simp: pg_inv_ex_def)
  with l obtain h where h: "p_group (procs st p) = Some h" "g_session (groups st h) = Some t"
    by (auto simp: session_ok_def)
  from member_group [OF inv p, simplified] obtain g s where "p_group (procs st p) = Some g"
    "g_session (groups st g) = Some s" "session_of p st = Some s" by metis
  with h nl l show False by (simp add: is_session_leader_def unwrap_opt_def)
qed

lemma leave_group_spec:
  assumes inv: "pg_inv st" and p: "p \<in> set (process_table st)" and s: "session_of p st = Some s"
    and nl: "is_session_leader p st = Ok False"
  obtains e st1 where "leave_group p s st = Ok (e, st1)" and "same_ids p st st1" and "pg_inv_ex {p} {s} st1"
    and "\<not> e \<or> s_groups (sessions st1 s) \<noteq> [] \<Longrightarrow> pg_inv_ex {p} {} st1"
    and "p_group (procs st1 p) = None" and "session_table st1 = session_table st"
    and "map_of (session_table st1) (s_sid (sessions st1 s)) = Some s"
    and "\<And>k. map_of (group_table st) k = None \<Longrightarrow> map_of (group_table st1) k = None"
proof -
  from member_group [OF inv p] s obtain g where g: "p_group (procs st p) = Some g" "proc_group p st = Some g"
    "map_of (group_table st) (g_pgid (groups st g)) = Some g"
    "map_of (session_table st) (s_sid (sessions st s)) = Some s"
    "map_of (s_groups (sessions st s)) (g_pgid (groups st g)) = Some g"
    by (metis empty_iff option.inject)
  let ?k = "g_pgid (groups st g)"
  note nl' = not_session_leader [OF inv p nl]
  show thesis
  proof (cases "removeAll p (g_processes (groups st g)) = []")
    case True
    let ?d = "\<lambda>x. x\<lparr>s_groups := AList.delete ?k (s_groups x)\<rparr>"
    let ?st1 = "upd_session s ?d (emptied_group p g st)"
    have "leave_group p s st = Ok (True, ?st1)"
      using True g by (simp add: leave_group_def Let_def g_is_empty_def emptied_group_def left_group_def upd_defs)
    moreover have i: "pg_inv_ex {p} {s} ?st1"
      by (intro drop_session_group_inv emptied_group_inv)
        (use inv p g True nl' in \<open>auto simp: emptied_group_def delete_conv'\<close>)
    moreover have "pg_inv_ex {p} {} ?st1" if "s_groups (sessions ?st1 s) \<noteq> []"
      using pg_inv_ex_nonempty [OF i that] .
    ultimately show thesis using g
      by (intro that [of True ?st1])
        (auto simp: same_ids_def emptied_group_def left_group_def delete_conv')
  next
    case False
    have i: "pg_inv_ex {p} {} (left_group p g st)"
      using left_group_inv [OF inv p g(1) nl' False] by simp
    moreover have "leave_group p s st = Ok (False, left_group p g st)"
      using False g by (simp add: leave_group_def Let_def g_is_empty_def left_group_def)
    moreover have "pg_inv_ex {p} {s} (left_group p g st)" using i by (auto simp: pg_inv_ex_def)
    ultimately show thesis using g
      by (intro that [of False "left_group p g st"]) (auto simp: same_ids_def left_group_def)
  qed
qed

lemma is_session_leader_total:
  assumes "pg_inv st" and "p \<in> set (process_table st)"
  shows "\<exists>b. is_session_leader p st = Ok b"
proof -
  from member_group [OF assms] obtain s where "session_of p st = Some s" by auto
  then show ?thesis
    by (cases "s_leader (sessions st s)") (auto simp: is_session_leader_def unwrap_opt_def)
qed

lemma enter_new_session_ids:
  "enter_new_session p st = (s, st') \<Longrightarrow> same_ids p st st'"
  by (auto simp: enter_new_session_def same_ids_def Let_def alloc_group_def alloc_session_def)

lemma enter_new_session_result:
  assumes "enter_new_session p st = (s, st')"
  shows "s = next_session st" and "s_sid (sessions st' s) = p" and "s_leader (sessions st' s) = Some p"
    and "p_group (procs st' p) = Some (next_group st)" and "g_session (groups st' (next_group st)) = Some s"
    and "g_leader (groups st' (next_group st)) = Some p" and "g_pgid (groups st' (next_group st)) = p"
    and "g_processes (groups st' (next_group st)) = [p]" and "s_terminal (sessions st' s) = None"
  using assms
  by (auto simp: enter_new_session_def Let_def alloc_group_def alloc_session_def process_group_new_def session_new_def)


lemma session_of_unfold:
  assumes "pg_inv st" and "p \<in> set (process_table st)"
  shows "session_of p st = g_session (groups st (the (p_group (procs st p))))"
  using member_group [OF assms] by (metis empty_iff option.sel)

lemma group_bound:
  assumes "pg_inv st" and "p \<in> set (process_table st)"
  shows "the (p_group (procs st p)) < next_group st"
proof -
  from member_group [OF assms] obtain g where g: "p_group (procs st p) = Some g"
    "map_of (group_table st) (g_pgid (groups st g)) = Some g" by blast
  with assms(1) show ?thesis by (auto simp: pg_inv_ex_def group_ok_def)
qed

text \<open>A change of group of \<open>p\<close> leaves the session of every other process alone.\<close>

lemma same_ids_session:
  assumes "same_ids p st st'" and "pg_inv st" and "pg_inv st'" and "q \<in> set (process_table st)" and "q \<noteq> p"
  shows "session_of q st' = session_of q st"
  using assms group_bound [OF assms(2,4)] by (simp add: session_of_unfold same_ids_def)

lemma same_ids_refl: "same_ids p st st"
  by (auto simp: same_ids_def intro: exI [of _ "p_group (procs st p)"])

lemma remove_leader_noop:
  assumes "s_leader (sessions st s) \<noteq> Some p"
  shows "upd_session s (s_remove_process p) st = st"
  using assms by (simp add: upd_session_def s_remove_process_def fun_upd_idem)

lemma enter_new_session_frame:
  "enter_new_session p st = (s', st') \<Longrightarrow> t \<noteq> s' \<Longrightarrow> sessions st' t = sessions st t"
  by (auto simp: enter_new_session_def Let_def alloc_group_def alloc_session_def)

lemma to_new_session_total:
  assumes inv: "pg_inv st" and p: "p \<in> set (process_table st)" and nl: "is_session_leader p st = Ok False"
    and ng: "\<not> is_group_leader p st" and ks: "map_of (session_table st) p = None"
    and kg: "map_of (group_table st) p = None"
  obtains s' st' g where "to_new_session p st = Ok (s', st')" and "pg_inv st'" and "same_ids p st st'"
    and "s_sid (sessions st' s') = p" and "s_leader (sessions st' s') = Some p"
    and "p_group (procs st' p) = Some g" and "g_session (groups st' g) = Some s'"
    and "g_leader (groups st' g) = Some p" and "g_pgid (groups st' g) = p"
    and "g_processes (groups st' g) = [p]" and "s_terminal (sessions st' s') = None"
proof -
  from member_group [OF inv p] obtain s where s: "session_of p st = Some s"
    "map_of (session_table st) (s_sid (sessions st s)) = Some s" by auto
  from leave_group_spec [OF inv p s(1) nl] obtain e st1 where l: "leave_group p s st = Ok (e, st1)"
    "same_ids p st st1" "pg_inv_ex {p} {s} st1"
    "\<not> e \<or> s_groups (sessions st1 s) \<noteq> [] \<Longrightarrow> pg_inv_ex {p} {} st1" "p_group (procs st1 p) = None"
    "session_table st1 = session_table st" "map_of (session_table st1) (s_sid (sessions st1 s)) = Some s"
    "\<And>k. map_of (group_table st) k = None \<Longrightarrow> map_of (group_table st1) k = None" by blast
  define st2 where "st2 = (if e \<and> s_is_empty (sessions st1 s)
    then st1\<lparr>session_table := AList.delete (s_sid (sessions st1 s)) (session_table st1)\<rparr> else st1)"
  have i2: "pg_inv_ex {p} {} st2"
    using l drop_session_inv [OF l(3) _ l(7)] by (auto simp: st2_def s_is_empty_def)
  have d2: "same_ids p st st2"
    using l(2) by (auto simp: st2_def same_ids_def)
  obtain s' st3 where e3: "enter_new_session p st2 = (s', st3)" by (cases "enter_new_session p st2") auto
  have f2: "p \<in> set (process_table st2)" "p_group (procs st2 p) = None"
    "map_of (group_table st2) p = None" "map_of (session_table st2) p = None"
    using p l ks kg by (auto simp: st2_def same_ids_def delete_conv')
  have i3: "pg_inv st3" using enter_new_session_inv [OF i2 f2 e3] .
  have "s < next_session st" using inv s(2) by (auto simp: pg_inv_ex_def session_ok_def)
  with d2 enter_new_session_result(1) [OF e3] have "s \<noteq> s'" by (auto simp: same_ids_def)
  moreover have "session_ok st1 (s_sid (sessions st1 s)) s" using l(3,7) by (auto simp: pg_inv_ex_def)
  then have "s_leader (sessions st1 s) \<noteq> Some p" using l(5) by (auto simp: session_ok_def)
  ultimately have "s_leader (sessions st3 s) \<noteq> Some p"
    using enter_new_session_frame [OF e3] by (simp add: st2_def)
  then have "to_new_session p st = Ok (s', st3)"
    using nl ng s ks kg l(1) e3 by (simp add: to_new_session_def unwrap_opt_def st2_def remove_leader_noop)
  moreover have "same_ids p st st3" using same_ids_trans [OF d2 enter_new_session_ids [OF e3]] .
  ultimately show thesis using that i3 enter_new_session_result [OF e3] by blast
qed

lemma enter_new_group_ids:
  "same_ids p st (enter_new_group p s st)"
  by (auto simp: enter_new_group_def same_ids_def Let_def alloc_group_def)

lemma enter_new_group_result:
  "p_group (procs (enter_new_group p s st) p) = Some (next_group st)"
  "g_session (groups (enter_new_group p s st) (next_group st)) = Some s"
  "g_pgid (groups (enter_new_group p s st) (next_group st)) = p"
  by (auto simp: enter_new_group_def Let_def alloc_group_def process_group_new_def)

lemma pgid_of_unfold:
  assumes "pg_inv st" and "p \<in> set (process_table st)"
  shows "pgid_of p st = g_pgid (groups st (the (p_group (procs st p))))"
  using member_group [OF assms] by (metis empty_iff option.sel)

lemma to_new_group_total:
  assumes inv: "pg_inv st" and p: "p \<in> set (process_table st)" and nl: "is_session_leader p st = Ok False"
    and kg: "map_of (group_table st) p = None"
  obtains st' where "to_new_group p st = Ok st'" and "pg_inv st'" and "same_ids p st st'"
    and "session_of p st' = session_of p st" and "pgid_of p st' = p"
proof -
  from member_group [OF inv p] obtain s where s: "session_of p st = Some s" by auto
  from leave_group_spec [OF inv p s(1) nl] obtain e st1 where l: "leave_group p s st = Ok (e, st1)"
    "same_ids p st st1" "pg_inv_ex {p} {s} st1" "p_group (procs st1 p) = None"
    "map_of (session_table st1) (s_sid (sessions st1 s)) = Some s"
    "\<And>k. map_of (group_table st) k = None \<Longrightarrow> map_of (group_table st1) k = None" by blast
  let ?st = "enter_new_group p s st1"
  have p1: "p \<in> set (process_table st1)" using l(2) p by (simp add: same_ids_def)
  have i: "pg_inv ?st" using enter_new_group_inv [OF l(3) p1 l(4) l(6) [OF kg] l(5)] .
  have d: "same_ids p st ?st" using same_ids_trans [OF l(2) enter_new_group_ids] .
  then have p2: "p \<in> set (process_table ?st)" using p by (simp add: same_ids_def)
  show thesis
    by (rule that [OF _ i d])
      (simp_all add: to_new_group_def s unwrap_opt_def l(1) session_of_unfold [OF i p2] pgid_of_unfold [OF i p2]
        enter_new_group_result)
qed


lemma to_specified_group_spec:
  assumes inv: "pg_inv st" and p: "p \<in> set (process_table st)" and nl: "is_session_leader p st = Ok False"
    and al: "map_of (group_table st) k = Some h"
  shows "pg_inv (to_specified_group p h st)" and "same_ids p st (to_specified_group p h st)"
    and "p_group (procs (to_specified_group p h st) p) = Some h"
    and "g_session (groups (to_specified_group p h st) h) = g_session (groups st h)"
    and "g_pgid (groups (to_specified_group p h st) h) = k"
proof -
  let ?join = "\<lambda>st. upd_proc p (\<lambda>x. x\<lparr>p_group := Some h\<rparr>)
     (upd_group h (\<lambda>x. x\<lparr>g_processes := pid_insert p (g_processes x)\<rparr>) st)"
  from member_group [OF inv p] obtain g where g: "p_group (procs st p) = Some g" "proc_group p st = Some g"
    "map_of (group_table st) (g_pgid (groups st g)) = Some g" by auto
  have hk: "g_pgid (groups st h) = k" using inv al by (auto simp: pg_inv_ex_def group_ok_def)
  note nl' = not_session_leader [OF inv p nl]
  have "pg_inv (to_specified_group p h st) \<and> same_ids p st (to_specified_group p h st)
    \<and> p_group (procs (to_specified_group p h st) p) = Some h
    \<and> g_session (groups (to_specified_group p h st) h) = g_session (groups st h)
    \<and> g_pgid (groups (to_specified_group p h st) h) = k"
  proof (cases "g_pgid (groups st g) = k")
    case True
    with g al have "g = h" by simp
    with True hk g inv show ?thesis by (simp add: to_specified_group_def same_ids_refl)
  next
    case False
    define st1 where "st1 = (if removeAll p (g_processes (groups st g)) = [] then emptied_group p g st else left_group p g st)"
    have e: "to_specified_group p h st = ?join st1"
      using g False hk by (simp add: to_specified_group_def Let_def g_is_empty_def st1_def emptied_group_def left_group_def)
    have i1: "pg_inv_ex {p} {} st1"
      using emptied_group_inv [OF inv p g(1) nl' _ g(3)] left_group_inv [OF inv p g(1) nl'] by (simp add: st1_def)
    have f: "p \<in> set (process_table st1)" "p_group (procs st1 p) = None" "map_of (group_table st1) k = Some h"
      using p al False by (auto simp: st1_def emptied_group_def left_group_def delete_conv')
    have d1: "same_ids p st st1"
      by (auto simp: st1_def same_ids_def emptied_group_def left_group_def)
    have d2: "same_ids p st1 (?join st1)" by (auto simp: same_ids_def)
    have "g_session (groups st1 h) = g_session (groups st h)" "g_pgid (groups st1 h) = k"
      using hk by (auto simp: st1_def emptied_group_def left_group_def)
    with join_group_inv [OF i1 f] same_ids_trans [OF d1 d2] show ?thesis unfolding e by simp
  qed
  then show "pg_inv (to_specified_group p h st)" "same_ids p st (to_specified_group p h st)"
    "p_group (procs (to_specified_group p h st) p) = Some h"
    "g_session (groups (to_specified_group p h st) h) = g_session (groups st h)"
    "g_pgid (groups (to_specified_group p h st) h) = k" by blast+
qed

text \<open>Every group a session lists is the group of that id in the group table.\<close>

definition sessions_exact :: "'x pstate_scheme \<Rightarrow> bool" where
  "sessions_exact st \<longleftrightarrow> (\<forall>(_, s) \<in> set (session_table st). \<forall>(k, g) \<in> set (s_groups (sessions st s)).
     map_of (group_table st) k = Some g)"

text \<open>The condition under which \<open>setpgid\<close> may move \<open>p\<close> to the group \<open>k\<close>.\<close>

definition may_join :: "pid \<Rightarrow> pgid \<Rightarrow> 'x pstate_scheme \<Rightarrow> bool" where
  "may_join p k st \<longleftrightarrow> pgid_of p st = k \<or> is_session_leader p st = Ok False \<and>
     (case map_of (group_table st) k of None \<Rightarrow> k = p
      | Some g \<Rightarrow> (\<exists>s. session_of p st = Some s \<and> map_of (s_groups (sessions st s)) k \<noteq> None))"

lemma to_other_group_cases:
  assumes inv: "pg_inv st" and p: "p \<in> set (process_table st)"
  shows "if may_join p k st
    then \<exists>st'. to_other_group p k st = Ok st' \<and> pg_inv st' \<and> same_ids p st st' \<and> pgid_of p st' = k
           \<and> (sessions_exact st \<longrightarrow> session_of p st' = session_of p st)
    else to_other_group p k st = Err EPERM"
proof (cases "pgid_of p st = k")
  case True
  then show ?thesis using inv by (simp add: may_join_def to_other_group_def same_ids_refl)
next
  case nk: False
  from member_group [OF inv p] obtain s where s: "session_of p st = Some s"
    "map_of (session_table st) (s_sid (sessions st s)) = Some s" by auto
  from is_session_leader_total [OF inv p] obtain b where b: "is_session_leader p st = Ok b" ..
  show ?thesis
  proof (cases b)
    case True
    with nk b show ?thesis by (simp add: may_join_def to_other_group_def)
  next
    case False
    with b have nl: "is_session_leader p st = Ok False" by simp
    show ?thesis
    proof (cases "map_of (group_table st) k")
      case None
      show ?thesis
      proof (cases "k = p")
        case True
        with to_new_group_total [OF inv p nl] None obtain st' where "to_new_group p st = Ok st'" "pg_inv st'"
          "same_ids p st st'" "session_of p st' = session_of p st" "pgid_of p st' = p" by auto
        with True None nl nk show ?thesis by (simp add: may_join_def to_other_group_def get_process_group_def)
      next
        case False
        with None nl nk show ?thesis by (simp add: may_join_def to_other_group_def get_process_group_def)
      qed
    next
      case (Some h)
      have hk: "g_pgid (groups st h) = k" using inv Some by (auto simp: pg_inv_ex_def group_ok_def)
      let ?st = "to_specified_group p h st"
      note sp = to_specified_group_spec [OF inv p nl Some]
      have p': "p \<in> set (process_table ?st)" using sp(2) p by (simp add: same_ids_def)
      have r: "to_other_group p k st = (if map_of (s_groups (sessions st s)) k = None then Err EPERM else Ok ?st)"
        using nk nl s Some hk by (simp add: to_other_group_def get_process_group_def unwrap_opt_def contains_process_group_def)
      have "pgid_of p ?st = k" by (simp add: pgid_of_unfold [OF sp(1) p'] sp)
      moreover have "session_of p ?st = session_of p st"
        if ex: "sessions_exact st" and i: "map_of (s_groups (sessions st s)) k = Some g" for g
      proof -
        have "(s_sid (sessions st s), s) \<in> set (session_table st)" "(k, g) \<in> set (s_groups (sessions st s))"
          using s(2) i by (auto dest: map_of_SomeD)
        with ex Some have "g = h" by (fastforce simp: sessions_exact_def)
        with inv s(2) i have "g_session (groups st h) = Some s" by (auto simp: pg_inv_ex_def session_ok_def)
        then show ?thesis by (simp add: session_of_unfold [OF sp(1) p'] sp s)
      qed
      ultimately show ?thesis using r sp s Some nl nk by (auto simp: may_join_def)
    qed
  qed
qed


section \<open>Correctness\<close>

definition empty_process :: process_obj where
  "empty_process = \<lparr>p_parent = None, p_children = [], p_group = None, p_status = Runnable, p_threads = [], p_vm = 0,
     p_file_table = 0, p_fs = 0, p_sighand = 0, p_umask = 0, p_nice = 0\<rparr>"

definition ps_empty :: pstate where
  "ps_empty = \<lparr>procs = (\<lambda>_. empty_process), groups = (\<lambda>_. process_group_new 0), sessions = (\<lambda>_. session_new 0 0),
     job_controls = (\<lambda>_. job_control_new), next_group = 0, next_session = 0, process_table = [],
     group_table = [], session_table = [], sig_log = []\<rparr>"

text \<open>The first process with a child in its group.\<close>

definition ps_example :: pstate where
  "ps_example =
    (let st = snd (enter_new_session 1 (ps_empty\<lparr>process_table := [1, 2]\<rparr>))
     in upd_proc 1 (\<lambda>x. x\<lparr>p_children := [2]\<rparr>) (upd_proc 2 (\<lambda>x. x\<lparr>p_group := Some 0\<rparr>)
          (upd_group 0 (\<lambda>x. x\<lparr>g_processes := [1, 2]\<rparr>) st)))"

lemmas ps_example_simps = ps_example_def enter_new_session_def alloc_group_def alloc_session_def ps_empty_def
  empty_process_def process_group_new_def session_new_def Let_def upd_defs

lemma ps_example_inv: "pg_inv ps_example"
  by (auto simp: ps_example_simps pg_inv_ex_def member_ok_def group_ok_def session_ok_def split: if_splits)

lemma ps_example_facts:
  "process_table ps_example = [1, 2]" "is_session_leader 2 ps_example = Ok False"
  "is_group_leader 2 ps_example = False" "map_of (session_table ps_example) 2 = None"
  "map_of (group_table ps_example) 2 = None" "sessions_exact ps_example" "pgid_of 2 ps_example = 1"
  "is_session_leader 1 ps_example = Ok True" "session_of 1 ps_example = Some 0"
  "s_terminal (sessions ps_example 0) = None" "jc_session_of 0 ps_example = None"
  by (simp_all add: ps_example_simps is_session_leader_def session_of_def proc_group_def upgrade_group_def
      group_alive_def upgrade_session_def session_alive_def unwrap_opt_def is_group_leader_def sessions_exact_def
      pgid_of_def jc_session_of_def job_control_new_def)

text \<open>(C20) \<open>setsid\<close>, called by a process of a state that satisfies the group and session invariant, never
  panics. A session leader gets its own id back and nothing changes. The leader of a group, and a process
  whose pid names an existing session or group, get \<open>EPERM\<close>. Any other process becomes the only member and
  the leader of a new group in a new session, both with its pid as id and without a controlling terminal;
  the invariant is kept and no other process changes group or session.\<close>

theorem setsid_correct:
  assumes inv: "pg_inv st" and p: "p \<in> set (process_table st)"
  shows "if is_session_leader p st = Ok True then sys_setsid p st = Ok (p, st)
    else if is_group_leader p st \<or> map_of (session_table st) p \<noteq> None \<or> map_of (group_table st) p \<noteq> None
    then sys_setsid p st = Err EPERM
    else \<exists>st'. sys_setsid p st = Ok (p, st') \<and> pg_inv st' \<and> process_table st' = process_table st
      \<and> is_session_leader p st' = Ok True \<and> is_group_leader p st' \<and> pgid_of p st' = p
      \<and> (\<exists>g. get_process_group p st' = Some g \<and> g_processes (groups st' g) = [p])
      \<and> (\<forall>t. is_controlling_terminal t p st' = Ok False)
      \<and> (\<forall>q \<in> set (process_table st). q \<noteq> p \<longrightarrow>
           session_of q st' = session_of q st \<and> p_group (procs st' q) = p_group (procs st q))"
proof -
  from is_session_leader_total [OF inv p] obtain b where b: "is_session_leader p st = Ok b" ..
  from member_group [OF inv p] obtain s where s: "session_of p st = Some s"
    "map_of (session_table st) (s_sid (sessions st s)) = Some s" by auto
  show ?thesis
  proof (cases b)
    case True
    with b s(1) have "s_leader (sessions st s) = Some p"
      by (auto simp: is_session_leader_def unwrap_opt_def split: option.splits)
    moreover have "session_ok st (s_sid (sessions st s)) s" using inv s(2) unfolding pg_inv_ex_def by blast
    ultimately have "s_sid (sessions st s) = p" by (simp add: session_ok_def)
    with True b s(1) show ?thesis by (simp add: sys_setsid_def to_new_session_def unwrap_opt_def)
  next
    case nl: False
    show ?thesis
    proof (cases "is_group_leader p st \<or> map_of (session_table st) p \<noteq> None \<or> map_of (group_table st) p \<noteq> None")
      case True
      with nl b s(1) have "sys_setsid p st = Err EPERM"
        by (auto simp: sys_setsid_def to_new_session_def unwrap_opt_def)
      with True nl b show ?thesis by simp
    next
      case False
      then have f: "is_session_leader p st = Ok False" "\<not> is_group_leader p st" "map_of (session_table st) p = None"
        "map_of (group_table st) p = None" using nl b by auto
      from to_new_session_total [OF inv p f] obtain s' st' g where r: "to_new_session p st = Ok (s', st')" "pg_inv st'" "same_ids p st st'"
        "s_sid (sessions st' s') = p" "s_leader (sessions st' s') = Some p" "p_group (procs st' p) = Some g"
        "g_session (groups st' g) = Some s'" "g_leader (groups st' g) = Some p" "g_pgid (groups st' g) = p"
        "g_processes (groups st' g) = [p]" "s_terminal (sessions st' s') = None"
        by blast
      from r(3) p have p': "p \<in> set (process_table st')" "process_table st' = process_table st" by (simp_all add: same_ids_def)
      from member_group [OF r(2) p'(1)] obtain g2 s2 where "p_group (procs st' p) = Some g2" "proc_group p st' = Some g2"
        "map_of (group_table st') (g_pgid (groups st' g2)) = Some g2" "g_session (groups st' g2) = Some s2"
        "session_of p st' = Some s2" by blast
      with r(6,7,9) have m: "proc_group p st' = Some g" "session_of p st' = Some s'" "get_process_group p st' = Some g"
        by (auto simp: get_process_group_def)
      have "session_of q st' = session_of q st \<and> p_group (procs st' q) = p_group (procs st q)"
        if "q \<in> set (process_table st)" "q \<noteq> p" for q
        using same_ids_session [OF r(3) inv r(2) that] r(3) that(2) by (simp add: same_ids_def)
      moreover have "is_session_leader p st' = Ok True" "is_group_leader p st'" "pgid_of p st' = p"
        "is_controlling_terminal t p st' = Ok False" for t
        using m r by (simp_all add: is_session_leader_def is_group_leader_def pgid_of_def unwrap_opt_def
            is_controlling_terminal_def)
      moreover have "sys_setsid p st = Ok (p, st')" using r by (simp add: sys_setsid_def)
      ultimately show ?thesis using f m(3) r(2,10) p'(2) by simp
    qed
  qed
qed

theorem setsid_correct_witness:
  "\<exists>st'. sys_setsid 2 ps_example = Ok (2, st') \<and> pg_inv st' \<and> is_session_leader 2 st' = Ok True
     \<and> session_of 1 st' = session_of 1 ps_example"
  using setsid_correct [OF ps_example_inv, of 2] by (auto simp: ps_example_facts)

text \<open>(C21) \<open>setpgid\<close>, called by a process of a state that satisfies the group and session invariant, never
  panics. It fails with \<open>ESRCH\<close> unless the target is the caller or one of its children and still in the
  process table, and with \<open>EPERM\<close> exactly when the group id is neither the target's pid nor an existing
  group, or the target may not join (it leads a session, or its session does not list the group). Otherwise
  the target is in the asked group afterwards, the invariant is kept, no other process changes group or
  session, and the target stays in its session provided every session lists live groups only.\<close>

theorem setpgid_correct:
  assumes inv: "pg_inv st"
    and p: "p = (if pid0 = 0 then current else pid0)" and k: "k = (if pgid0 = 0 then p else pgid0)"
  shows "if p \<noteq> current \<and> p \<notin> set (p_children (procs st current)) then sys_setpgid current pid0 pgid0 st = Err ESRCH
    else if k \<noteq> p \<and> get_process_group k st = None then sys_setpgid current pid0 pgid0 st = Err EPERM
    else if p \<notin> set (process_table st) then sys_setpgid current pid0 pgid0 st = Err ESRCH
    else if \<not> may_join p k st then sys_setpgid current pid0 pgid0 st = Err EPERM
    else \<exists>st'. sys_setpgid current pid0 pgid0 st = Ok st' \<and> pg_inv st' \<and> sys_getpgrp p st' = k
      \<and> (\<forall>q \<in> set (process_table st). q \<noteq> p \<longrightarrow>
           session_of q st' = session_of q st \<and> p_group (procs st' q) = p_group (procs st q))
      \<and> (sessions_exact st \<longrightarrow> session_of p st' = session_of p st)"
proof -
  let ?r = "sys_setpgid current pid0 pgid0 st"
  consider (a) "p \<noteq> current \<and> p \<notin> set (p_children (procs st current))"
    | (b) "\<not> (p \<noteq> current \<and> p \<notin> set (p_children (procs st current)))" "k \<noteq> p \<and> get_process_group k st = None"
    | (c) "\<not> (p \<noteq> current \<and> p \<notin> set (p_children (procs st current)))"
        "\<not> (k \<noteq> p \<and> get_process_group k st = None)" by blast
  then show ?thesis
  proof cases
    case a
    then show ?thesis unfolding sys_setpgid_def Let_def p [symmetric] by simp
  next
    case b
    then have "?r = Err EPERM"
      unfolding sys_setpgid_def Let_def p [symmetric] k [symmetric] get_process_group_def contain_process_group_def by auto
    with b show ?thesis by auto
  next
    case c
    then have r: "?r = (if p \<in> set (process_table st) then to_other_group p k st else Err ESRCH)"
      unfolding sys_setpgid_def Let_def p [symmetric] k [symmetric] get_process_group_def contain_process_group_def
      by (auto simp: get_process_def)
    show ?thesis
    proof (cases "p \<in> set (process_table st) \<and> may_join p k st")
      case True
      then obtain st' where o: "to_other_group p k st = Ok st'" "pg_inv st'" "same_ids p st st'" "pgid_of p st' = k"
        "sessions_exact st \<longrightarrow> session_of p st' = session_of p st"
        using to_other_group_cases [OF inv, of p k] by auto
      have "session_of q st' = session_of q st \<and> p_group (procs st' q) = p_group (procs st q)"
        if "q \<in> set (process_table st)" "q \<noteq> p" for q
        using same_ids_session [OF o(3) inv o(2) that] o(3) that(2) by (simp add: same_ids_def)
      with o r True c show ?thesis by (auto simp: sys_getpgrp_def)
    next
      case False
      with r c to_other_group_cases [OF inv, of p k] show ?thesis by auto
    qed
  qed
qed

theorem setpgid_correct_witness:
  "\<exists>st'. sys_setpgid 1 2 0 ps_example = Ok st' \<and> pg_inv st' \<and> sys_getpgrp 2 st' = 2
     \<and> session_of 2 st' = session_of 2 ps_example"
proof -
  have "2 \<in> set (p_children (procs ps_example 1))" by (simp add: ps_example_simps)
  moreover have "may_join 2 2 ps_example" by (simp add: may_join_def ps_example_facts)
  ultimately show ?thesis
    using setpgid_correct [OF ps_example_inv, of 2 2 1 2 0] by (auto simp: ps_example_facts)
qed


lemma fold_p_enqueue_signal:
  "fold (\<lambda>p. p_enqueue_signal p sig) ps st
   = st\<lparr>sig_log := sig_log st @ map (\<lambda>p. (p, sig)) (filter (\<lambda>p. \<not> is_zombie p st) ps)\<rparr>"
proof (induction ps arbitrary: st)
  case Nil
  then show ?case by simp
next
  case (Cons p ps)
  have "is_zombie q (p_enqueue_signal p sig st) = is_zombie q st" for q
    by (simp add: is_zombie_def p_enqueue_signal_def)
  with Cons.IH [of "p_enqueue_signal p sig st"] show ?case by (simp add: p_enqueue_signal_def)
qed

lemma broadcast_signal_eq:
  "broadcast_signal g sig st
   = st\<lparr>sig_log := sig_log st @ map (\<lambda>p. (p, sig)) (filter (\<lambda>p. \<not> is_zombie p st) (g_processes (groups st g)))\<rparr>"
  by (simp add: broadcast_signal_def fold_p_enqueue_signal)

lemmas session_lookup_defs = session_of_def proc_group_def upgrade_group_def group_alive_def upgrade_session_def
  session_alive_def Let_def

lemma session_lookup_upd_jc [simp]:
  "session_of p (upd_jc t f st) = session_of p st" "is_session_leader p (upd_jc t f st) = is_session_leader p st"
  "proc_group p (upd_jc t f st) = proc_group p st" "upgrade_session (upd_jc t f st) w = upgrade_session st w"
  "upgrade_group (upd_jc t f st) w = upgrade_group st w"
  by (simp_all add: session_lookup_defs is_session_leader_def upd_jc_def cong: option.case_cong)

lemma session_lookup_terminal [simp]:
  "session_of p (upd_session s (\<lambda>x. x\<lparr>s_terminal := w\<rparr>) st) = session_of p st"
  "is_session_leader p (upd_session s (\<lambda>x. x\<lparr>s_terminal := w\<rparr>) st) = is_session_leader p st"
  "upgrade_session (upd_session s (\<lambda>x. x\<lparr>s_terminal := w\<rparr>) st) u = upgrade_session st u"
  "upgrade_group (upd_session s (\<lambda>x. x\<lparr>s_terminal := w\<rparr>) st) v = upgrade_group st v"
proof -
  let ?st = "upd_session s (\<lambda>x. x\<lparr>s_terminal := w\<rparr>) st"
  have f: "s_sid (sessions ?st t) = s_sid (sessions st t)" "s_groups (sessions ?st t) = s_groups (sessions st t)"
    "s_leader (sessions ?st t) = s_leader (sessions st t)" for t by simp_all
  have alive: "session_alive ?st t = session_alive st t" "group_alive ?st g = group_alive st g" for t g
    unfolding session_alive_def group_alive_def f by simp_all
  show a: "upgrade_session ?st u = upgrade_session st u" and b: "upgrade_group ?st v = upgrade_group st v" for u v
    unfolding upgrade_session_def upgrade_group_def alive by (rule refl)+
  show c: "session_of p ?st = session_of p st"
    by (simp only: session_of_def proc_group_def a b upd_session_simps)
  show "is_session_leader p ?st = is_session_leader p st"
    by (simp only: is_session_leader_def c f)
qed

lemma session_lookup_sig_log [simp]:
  "session_of p (st\<lparr>sig_log := l\<rparr>) = session_of p st"
  "is_session_leader p (st\<lparr>sig_log := l\<rparr>) = is_session_leader p st"
  "upgrade_session (st\<lparr>sig_log := l\<rparr>) u = upgrade_session st u"
  "upgrade_group (st\<lparr>sig_log := l\<rparr>) v = upgrade_group st v"
  by (simp_all add: session_lookup_defs is_session_leader_def cong: option.case_cong)

text \<open>A session leader without a controlling terminal acquires a free terminal: the terminal then controls
  its session and the leader is in the foreground. Releasing it succeeds, sends SIGHUP and then SIGCONT to the
  live members of the foreground group, and the session has no terminal any more. But the job control of the
  terminal keeps the session: acquiring the terminal again fails with \<open>EPERM\<close>, although nobody controls it.\<close>

theorem release_keeps_terminal_busy:
  assumes inv: "pg_inv st" and p: "p \<in> set (process_table st)" and l: "is_session_leader p st = Ok True"
    and s: "session_of p st = Some s" and t: "s_terminal (sessions st s) = None" and j: "jc_session_of t st = None"
  shows "\<exists>st1 st2 g. term_set_current_session t p st = Ok st1 \<and> proc_group p st = Some g
    \<and> is_controlling_terminal t p st1 = Ok True \<and> current_belongs_to_foreground t p st1
    \<and> term_release_current_session t p st1 = Ok st2
    \<and> sig_log st2 = sig_log st @ map (\<lambda>q. (q, SIGHUP)) (filter (\<lambda>q. \<not> is_zombie q st) (g_processes (groups st g)))
        @ map (\<lambda>q. (q, SIGCONT)) (filter (\<lambda>q. \<not> is_zombie q st) (g_processes (groups st g)))
    \<and> is_controlling_terminal t p st2 = Ok False
    \<and> term_set_current_session t p st2 = Err EPERM"
proof -
  from member_group [OF inv p] obtain g s2 where m: "p_group (procs st p) = Some g" "proc_group p st = Some g"
    "p \<in> set (g_processes (groups st g))" "session_of p st = Some s2"
    "map_of (session_table st) (s_sid (sessions st s2)) = Some s2" by blast
  then have g: "proc_group p st = Some g" "p \<in> set (g_processes (groups st g))" "upgrade_group st (Some g) = Some g"
    "upgrade_session st (Some s) = Some s"
    using s by (simp_all add: proc_group_def upgrade_session_def session_alive_def)
  let ?a = "upd_jc t (\<lambda>j. j\<lparr>jc_session := Some s\<rparr>) (upd_jc t (\<lambda>j. j\<lparr>jc_foreground := Some g\<rparr>) st)"
  let ?st1 = "upd_session s (\<lambda>x. x\<lparr>s_terminal := Some t\<rparr>) ?a"
  let ?h = "map (\<lambda>q. (q, SIGHUP)) (filter (\<lambda>q. \<not> is_zombie q st) (g_processes (groups st g)))"
  let ?c = "map (\<lambda>q. (q, SIGCONT)) (filter (\<lambda>q. \<not> is_zombie q st) (g_processes (groups st g)))"
  let ?st2 = "upd_session s (\<lambda>x. x\<lparr>s_terminal := None\<rparr>) (?st1\<lparr>sig_log := sig_log st @ ?h @ ?c\<rparr>)"
  have jc: "job_controls ?st1 t = \<lparr>jc_foreground = Some g, jc_session = Some s\<rparr>" "job_controls ?st2 = job_controls ?st1"
    by (simp_all add: upd_jc_def)
  have pj: "procs ?st1 = procs st" "groups ?st1 = groups st" "sig_log ?st1 = sig_log st"
    by (simp_all add: upd_jc_def)
  have z: "is_zombie q ?st1 = is_zombie q st" for q by (simp add: is_zombie_def pj)
  have r1: "term_set_current_session t p st = Ok ?st1"
    using l s t j g by (simp add: term_set_current_session_def unwrap_opt_def set_terminal_def jc_set_current_session_def Let_def)
  have f1: "foreground t ?st1 = Some g" "jc_session_of t ?st1 = Some s"
    unfolding foreground_def jc_session_of_def jc by (simp_all add: g)
  have b: "broadcast_signal g SIGCONT (broadcast_signal g SIGHUP ?st1) = ?st1\<lparr>sig_log := sig_log st @ ?h @ ?c\<rparr>"
    by (simp add: broadcast_signal_eq pj z is_zombie_def)
  have r2: "term_release_current_session t p ?st1 = Ok ?st2"
    using l s by (simp add: term_release_current_session_def is_controlling_terminal_def unwrap_opt_def release_terminal_def
        jc_release_current_session_def f1 b del: One_nat_def)
  have f2: "jc_session_of t ?st2 = Some s" unfolding jc_session_of_def jc by (simp add: g)
  have r3: "term_set_current_session t p ?st2 = Err EPERM"
    using l s by (simp add: term_set_current_session_def unwrap_opt_def set_terminal_def jc_set_current_session_def f2
        del: One_nat_def)
  have "is_controlling_terminal t p ?st1 = Ok True" "is_controlling_terminal t p ?st2 = Ok False"
    using s by (simp_all add: is_controlling_terminal_def unwrap_opt_def)
  moreover have "current_belongs_to_foreground t p ?st1"
    unfolding current_belongs_to_foreground_def f1 option.case pj using g(2) by simp
  moreover have "sig_log ?st2 = sig_log st @ ?h @ ?c" by simp
  ultimately show ?thesis using r1 r2 r3 g(1) by blast
qed

theorem release_keeps_terminal_busy_witness:
  "\<exists>st1 st2. term_set_current_session 0 1 ps_example = Ok st1 \<and> term_release_current_session 0 1 st1 = Ok st2
     \<and> term_set_current_session 0 1 st2 = Err EPERM"
  using release_keeps_terminal_busy [OF ps_example_inv, of 1 0 0]
  by (auto simp: ps_example_facts simp del: One_nat_def)

end
