(* ===== verification/Process_Lifecycle.thy ===== *)
theory Process_Lifecycle
  imports Process_Groups
begin

text \<open>
  The life of a process: creation of the first process (\<open>create_user_process\<close>), \<open>clone\<close> and \<open>fork\<close>
  (\<open>process/clone.rs\<close>), \<open>exit_group\<close> (\<open>process/exit.rs\<close>), \<open>wait4\<close> and \<open>waitid\<close> (\<open>process/wait.rs\<close>).

  The state extends that of the process groups by the tid counter, the thread table, the register contexts
  and signal masks of threads, and the objects that processes may share: file tables, path resolvers, signal
  dispositions and address spaces. \<open>file_tables\<close> gives the open files of a table, \<open>cleaned\<close> the files whose
  \<open>clean_for_close\<close> ran, \<open>destroyed_vms\<close> the address spaces whose mappings were destroyed and \<open>resumed\<close> the
  processes whose \<open>children_pauser\<close> was woken. The writes to user memory are arguments that say whether they
  succeed; the futex words an exiting thread writes are outside the state. \<open>root_vmar().destroy_all()\<close> and the
  copy-on-write fork of an address space succeed or fail as an argument says.
\<close>

section \<open>State\<close>

record clone_context =
  cc_rax :: u64
  cc_rsp :: u64
  cc_fsbase :: u64
  cc_rest :: "u64 list"

record lstate = pstate +
  next_tid :: nat
  thread_table :: "nat list"
  contexts :: "nat \<Rightarrow> clone_context"
  sig_masks :: "nat \<Rightarrow> u64"
  clear_child_tids :: "nat \<Rightarrow> u64"
  next_arc :: nat
  file_tables :: "nat \<Rightarrow> nat list"
  fs_infos :: "nat \<Rightarrow> nat"
  sighands :: "nat \<Rightarrow> sig_dispositions"
  destroyed_vms :: "nat list"
  cleaned :: "nat list"
  resumed :: "pid list"

text \<open>\<open>fetch_add\<close> on an \<open>AtomicU32\<close> wraps.\<close>

definition allocate_tid :: "lstate \<Rightarrow> nat \<times> lstate" where
  "allocate_tid st = (next_tid st, st\<lparr>next_tid := (next_tid st + 1) mod 2 ^ 32\<rparr>)"

section \<open>Clone\<close>

definition CLONE_VM :: u32 where "CLONE_VM = 0x100"
definition CLONE_FS :: u32 where "CLONE_FS = 0x200"
definition CLONE_FILES :: u32 where "CLONE_FILES = 0x400"
definition CLONE_SIGHAND :: u32 where "CLONE_SIGHAND = 0x800"
definition CLONE_THREAD :: u32 where "CLONE_THREAD = 0x10000"
definition CLONE_SYSVSEM :: u32 where "CLONE_SYSVSEM = 0x40000"
definition CLONE_SETTLS :: u32 where "CLONE_SETTLS = 0x80000"
definition CLONE_PARENT_SETTID :: u32 where "CLONE_PARENT_SETTID = 0x100000"
definition CLONE_CHILD_CLEARTID :: u32 where "CLONE_CHILD_CLEARTID = 0x200000"
definition CLONE_CHILD_SETTID :: u32 where "CLONE_CHILD_SETTID = 0x1000000"

lemmas clone_flag_defs = CLONE_VM_def CLONE_FS_def CLONE_FILES_def CLONE_SIGHAND_def CLONE_THREAD_def
  CLONE_SYSVSEM_def CLONE_SETTLS_def CLONE_PARENT_SETTID_def CLONE_CHILD_CLEARTID_def CLONE_CHILD_SETTID_def

text \<open>All bits of the \<open>CloneFlags\<close> type: from \<open>CLONE_VM\<close> to \<open>CLONE_IO\<close> without a gap.\<close>

definition clone_flags_all :: u32 where
  "clone_flags_all = 0xffffff00"

definition clone_flags_from :: "u64 \<Rightarrow> u32" where
  "clone_flags_from flags = ucast (flags AND 0xffffffff) AND clone_flags_all"

definition has_flag :: "u32 \<Rightarrow> u32 \<Rightarrow> bool" where
  "has_flag flags f \<longleftrightarrow> flags AND f = f"

definition check_unsupported_flags :: "u32 \<Rightarrow> unit res" where
  "check_unsupported_flags flags =
    (let supported = CLONE_VM OR CLONE_FS OR CLONE_FILES OR CLONE_SIGHAND OR CLONE_THREAD OR CLONE_SYSVSEM
           OR CLONE_SETTLS OR CLONE_PARENT_SETTID OR CLONE_CHILD_SETTID OR CLONE_CHILD_CLEARTID
     in if flags AND NOT supported \<noteq> 0 then panic else Ok ())"

record clone_args =
  new_sp :: u64
  parent_tidptr :: u64
  child_tidptr :: u64
  tls :: u64
  clone_flags :: u32

definition clone_args_default :: clone_args where
  "clone_args_default = \<lparr>new_sp = 0, parent_tidptr = 0, child_tidptr = 0, tls = 0, clone_flags = 0\<rparr>"

text \<open>The outcomes of the calls that leave the model: the write of the tid to the parent's memory, the write to
  the child's memory, the copy of the address space, \<open>ThreadName::new_from_executable_path\<close>.\<close>

record clone_env =
  write_parent :: "u64 \<Rightarrow> unit res"
  write_child :: "u64 \<Rightarrow> unit res"
  fork_vm :: "unit res"
  thread_name :: "unit res"

definition clone_cpu_context :: "clone_context \<Rightarrow> u64 \<Rightarrow> u64 \<Rightarrow> u32 \<Rightarrow> clone_context res" where
  "clone_cpu_context parent sp t flags =
    (let c = parent\<lparr>cc_rax := 0\<rparr>
     in if has_flag flags CLONE_VM \<and> sp = 0 then panic
        else let c1 = (if sp \<noteq> 0 then c\<lparr>cc_rsp := sp\<rparr> else c);
                 c2 = (if has_flag flags CLONE_SETTLS then c1\<lparr>cc_fsbase := t\<rparr> else c1)
             in Ok c2)"

text \<open>A component behind an \<open>Arc\<close> is shared, or copied into a new cell.\<close>

definition alloc_arc :: "lstate \<Rightarrow> nat \<times> lstate" where
  "alloc_arc st = (next_arc st, st\<lparr>next_arc := next_arc st + 1\<rparr>)"

definition clone_vm :: "unit res \<Rightarrow> nat \<Rightarrow> u32 \<Rightarrow> lstate \<Rightarrow> (nat \<times> lstate) res" where
  "clone_vm forked parent flags st =
    (if has_flag flags CLONE_VM then Ok (parent, st) else bind_res forked (\<lambda>_. Ok (alloc_arc st)))"

definition clone_files :: "nat \<Rightarrow> u32 \<Rightarrow> lstate \<Rightarrow> nat \<times> lstate" where
  "clone_files parent flags st =
    (if has_flag flags CLONE_FILES then (parent, st)
     else let (a, st1) = alloc_arc st in (a, st1\<lparr>file_tables := (file_tables st1)(a := file_tables st1 parent)\<rparr>))"

definition clone_fs :: "nat \<Rightarrow> u32 \<Rightarrow> lstate \<Rightarrow> nat \<times> lstate" where
  "clone_fs parent flags st =
    (if has_flag flags CLONE_FS then (parent, st)
     else let (a, st1) = alloc_arc st in (a, st1\<lparr>fs_infos := (fs_infos st1)(a := fs_infos st1 parent)\<rparr>))"

definition clone_sighand :: "nat \<Rightarrow> u32 \<Rightarrow> lstate \<Rightarrow> nat \<times> lstate" where
  "clone_sighand parent flags st =
    (if has_flag flags CLONE_SIGHAND then (parent, st)
     else let (a, st1) = alloc_arc st in (a, st1\<lparr>sighands := (sighands st1)(a := sighands st1 parent)\<rparr>))"

definition build_thread :: "nat \<Rightarrow> clone_context \<Rightarrow> u64 \<Rightarrow> lstate \<Rightarrow> lstate" where
  "build_thread tid c m st = st\<lparr>contexts := (contexts st)(tid := c), sig_masks := (sig_masks st)(tid := m),
     clear_child_tids := (clear_child_tids st)(tid := 0), thread_table := pid_insert tid (thread_table st)\<rparr>"

definition clone_parent_settid :: "clone_env \<Rightarrow> u64 \<Rightarrow> u32 \<Rightarrow> unit res" where
  "clone_parent_settid env ptr flags = (if has_flag flags CLONE_PARENT_SETTID then write_parent env ptr else Ok ())"

definition clone_child_cleartid :: "nat \<Rightarrow> u64 \<Rightarrow> u32 \<Rightarrow> lstate \<Rightarrow> lstate" where
  "clone_child_cleartid tid ptr flags st =
    (if has_flag flags CLONE_CHILD_CLEARTID then st\<lparr>clear_child_tids := (clear_child_tids st)(tid := ptr)\<rparr> else st)"

definition clone_child_settid :: "clone_env \<Rightarrow> u64 \<Rightarrow> u32 \<Rightarrow> unit res" where
  "clone_child_settid env ptr flags = (if has_flag flags CLONE_CHILD_SETTID then write_child env ptr else Ok ())"

definition settid_steps :: "clone_env \<Rightarrow> clone_args \<Rightarrow> nat \<Rightarrow> lstate \<Rightarrow> lstate res" where
  "settid_steps env args tid st =
    bind_res (clone_parent_settid env (parent_tidptr args) (clone_flags args)) (\<lambda>_.
    let st1 = clone_child_cleartid tid (child_tidptr args) (clone_flags args) st
    in bind_res (clone_child_settid env (child_tidptr args) (clone_flags args)) (\<lambda>_. Ok st1))"

definition clone_child_thread :: "clone_env \<Rightarrow> clone_args \<Rightarrow> clone_context \<Rightarrow> pid \<Rightarrow> nat \<Rightarrow> lstate \<Rightarrow> (nat \<times> lstate) res" where
  "clone_child_thread env args ctx current cur_tid st =
    (let flags = clone_flags args
     in if \<not> (has_flag flags CLONE_VM \<and> has_flag flags CLONE_FILES \<and> has_flag flags CLONE_SIGHAND) then panic
        else bind_res (clone_cpu_context ctx (new_sp args) (tls args) flags) (\<lambda>c.
          let (tid, st1) = allocate_tid st;
              st2 = build_thread tid c (sig_masks st1 cur_tid) st1;
              st3 = upd_proc current (\<lambda>x. x\<lparr>p_threads := p_threads x @ [(tid, False)]\<rparr>) st2
          in bind_res (settid_steps env args tid st3) (\<lambda>st4. Ok (tid, st4))))"

definition set_parent_and_group :: "pid \<Rightarrow> pid \<Rightarrow> lstate \<Rightarrow> lstate res" where
  "set_parent_and_group parent child st =
    bind_res (unwrap_opt (proc_group parent st)) (\<lambda>g.
    let st1 = upd_proc parent (\<lambda>x. x\<lparr>p_children := pid_insert child (p_children x)\<rparr>) st;
        st2 = upd_group g (\<lambda>x. x\<lparr>g_processes := pid_insert child (g_processes x)\<rparr>) st1;
        st3 = upd_proc child (\<lambda>x. x\<lparr>p_group := Some g\<rparr>) st2
    in Ok (st3\<lparr>process_table := pid_insert child (process_table st3)\<rparr>))"

definition clone_child_process :: "clone_env \<Rightarrow> clone_args \<Rightarrow> clone_context \<Rightarrow> pid \<Rightarrow> nat \<Rightarrow> lstate \<Rightarrow> (pid \<times> lstate) res" where
  "clone_child_process env args ctx current cur_tid st =
    (let flags = clone_flags args; me = procs st current
     in bind_res (clone_vm (fork_vm env) (p_vm me) flags st) (\<lambda>(vm, st1).
        bind_res (clone_cpu_context ctx (new_sp args) (tls args) flags) (\<lambda>c.
        let (files, st2) = clone_files (p_file_table me) flags st1;
            (fs, st3) = clone_fs (p_fs me) flags st2;
            (sig, st4) = clone_sighand (p_sighand me) flags st3;
            m = sig_masks st4 cur_tid;
            (tid, st5) = allocate_tid st4
        in bind_res (thread_name env) (\<lambda>_.
           let st6 = build_thread tid c m st5;
               child = \<lparr>p_parent = Some current, p_children = [], p_group = None, p_status = Runnable,
                  p_threads = [(tid, False)], p_vm = vm, p_file_table = files, p_fs = fs, p_sighand = sig,
                  p_umask = p_umask me, p_nice = p_nice me\<rparr>;
               st7 = upd_proc tid (\<lambda>_. child) st6
           in bind_res (settid_steps env args tid st7) (\<lambda>st8.
              bind_res (set_parent_and_group current tid st8) (\<lambda>st9. Ok (tid, st9)))))))"

definition clone_child :: "clone_env \<Rightarrow> clone_args \<Rightarrow> clone_context \<Rightarrow> pid \<Rightarrow> nat \<Rightarrow> lstate \<Rightarrow> (nat \<times> lstate) res" where
  "clone_child env args ctx current cur_tid st =
    bind_res (check_unsupported_flags (clone_flags args)) (\<lambda>_.
    if has_flag (clone_flags args) CLONE_THREAD then clone_child_thread env args ctx current cur_tid st
    else clone_child_process env args ctx current cur_tid st)"

text \<open>Both system calls unwrap the result, so an error of \<open>clone_child\<close> is a panic.\<close>

definition unwrap_res :: "'a res \<Rightarrow> 'a res" where
  "unwrap_res r = (case r of Inl _ \<Rightarrow> panic | Inr x \<Rightarrow> Ok x)"

definition sys_clone :: "clone_env \<Rightarrow> u64 \<Rightarrow> u64 \<Rightarrow> u64 \<Rightarrow> u64 \<Rightarrow> u64 \<Rightarrow> clone_context \<Rightarrow> pid \<Rightarrow> nat \<Rightarrow> lstate \<Rightarrow>
    (nat \<times> lstate) res" where
  "sys_clone env flags sp ptid ctid t ctx current cur_tid st =
    unwrap_res (clone_child env \<lparr>new_sp = sp, parent_tidptr = ptid, child_tidptr = ctid, tls = t,
      clone_flags = clone_flags_from flags\<rparr> ctx current cur_tid st)"

definition sys_fork :: "clone_env \<Rightarrow> clone_context \<Rightarrow> pid \<Rightarrow> nat \<Rightarrow> lstate \<Rightarrow> (nat \<times> lstate) res" where
  "sys_fork env ctx current cur_tid st = unwrap_res (clone_child env clone_args_default ctx current cur_tid st)"

text \<open>The first process: the tables after \<open>process_builder.build()\<close>.\<close>

definition create_user_process :: "process_obj \<Rightarrow> pid \<Rightarrow> lstate \<Rightarrow> lstate" where
  "create_user_process p0 p st =
    (let st1 = upd_proc p (\<lambda>_. p0) st; (_, st2) = enter_new_session p st1
     in st2\<lparr>process_table := pid_insert p (process_table st2)\<rparr>)"

section \<open>Exit\<close>

abbreviation INIT_PROCESS_PID :: pid where "INIT_PROCESS_PID \<equiv> 1"

definition exit_threads :: "pid \<Rightarrow> lstate \<Rightarrow> lstate" where
  "exit_threads p st =
    (let ts = p_threads (procs st p);
         gone = map fst (filter (\<lambda>(tid, exited). \<not> exited \<and> tid \<noteq> p) ts)
     in (upd_proc p (\<lambda>x. x\<lparr>p_threads := map (\<lambda>(tid, _). (tid, True)) ts\<rparr>) st)
          \<lparr>thread_table := filter (\<lambda>t. t \<notin> set gone) (thread_table st)\<rparr>)"

definition exit_files :: "pid \<Rightarrow> lstate \<Rightarrow> lstate" where
  "exit_files p st =
    (let a = p_file_table (procs st p)
     in st\<lparr>cleaned := cleaned st @ file_tables st a, file_tables := (file_tables st)(a := [])\<rparr>)"

definition reparent_child :: "pid \<Rightarrow> lstate \<Rightarrow> lstate" where
  "reparent_child c st = upd_proc c (\<lambda>x. x\<lparr>p_parent := Some INIT_PROCESS_PID\<rparr>)
     (upd_proc INIT_PROCESS_PID (\<lambda>x. x\<lparr>p_children := pid_insert c (p_children x)\<rparr>) st)"

definition reparent_children :: "pid \<Rightarrow> lstate \<Rightarrow> lstate" where
  "reparent_children p st =
    (if p = INIT_PROCESS_PID then st
     else case get_process INIT_PROCESS_PID st of None \<Rightarrow> st
       | Some _ \<Rightarrow> fold reparent_child (p_children (procs st p)) (upd_proc p (\<lambda>x. x\<lparr>p_children := []\<rparr>) st))"

definition notify_parent :: "pid \<Rightarrow> lstate \<Rightarrow> lstate" where
  "notify_parent p st =
    (case p_parent (procs st p) of None \<Rightarrow> st
     | Some q \<Rightarrow> if q \<in> set (process_table st)
         then (let st1 = p_enqueue_signal q SIGCHLD st in st1\<lparr>resumed := resumed st1 @ [q]\<rparr>) else st)"

definition do_exit_group :: "pid \<Rightarrow> TermStatus \<Rightarrow> lstate \<Rightarrow> lstate" where
  "do_exit_group p ts st =
    (if is_zombie p st then st
     else notify_parent p (reparent_children p (exit_files p (exit_threads p
            (upd_proc p (\<lambda>x. x\<lparr>p_status := Zombie ts\<rparr>) st)))))"

section \<open>Wait\<close>

datatype ProcessFilter = FAny | WithPid pid | WithPgid pgid

definition filter_from_which_and_id :: "u64 \<Rightarrow> u64 \<Rightarrow> ProcessFilter res" where
  "filter_from_which_and_id which i =
    (if which = 0 then Ok FAny else if which = 1 then Ok (WithPid (unat (ucast i :: u32)))
     else if which = 2 then Ok (WithPgid (unat (ucast i :: u32))) else panic)"

text \<open>The argument is an \<open>i32\<close>; negating its least value overflows.\<close>

definition filter_from_id :: "pid \<Rightarrow> u32 \<Rightarrow> lstate \<Rightarrow> ProcessFilter res" where
  "filter_from_id current w st =
    (let i = sint w
     in if i < -1 then if i = - (2 ^ 31) then panic else Ok (WithPgid (nat (- i)))
        else if i = -1 then Ok FAny
        else if i = 0 then Ok (WithPgid (pgid_of current st))
        else Ok (WithPid (nat i)))"

definition WNOHANG :: u32 where "WNOHANG = 1"
definition WSTOPPED :: u32 where "WSTOPPED = 2"
definition WEXITED :: u32 where "WEXITED = 4"
definition WCONTINUED :: u32 where "WCONTINUED = 8"
definition WNOWAIT :: u32 where "WNOWAIT = 0x01000000"

definition wait_options_from_bits :: "u32 \<Rightarrow> u32 option" where
  "wait_options_from_bits b =
    (if b AND NOT (WNOHANG OR WSTOPPED OR WEXITED OR WCONTINUED OR WNOWAIT) = 0 then Some b else None)"

fun exit_code_of :: "ProcessStatus \<Rightarrow> u32 option" where
  "exit_code_of (Zombie ts) = Some (as_u32 ts)"
| "exit_code_of _ = None"

definition reap_zombie_child :: "unit res \<Rightarrow> pid \<Rightarrow> pid \<Rightarrow> lstate \<Rightarrow> (u32 \<times> lstate) res" where
  "reap_zombie_child destroyed p c st =
    (if c \<notin> set (p_children (procs st p)) then panic
     else let st1 = upd_proc p (\<lambda>x. x\<lparr>p_children := removeAll c (p_children x)\<rparr>) st
     in if \<not> is_zombie c st1 then panic
     else bind_res (unwrap_res destroyed) (\<lambda>_.
     let st2 = st1\<lparr>destroyed_vms := destroyed_vms st1 @ [p_vm (procs st1 c)],
           thread_table := filter (\<lambda>t. t \<notin> fst ` set (p_threads (procs st1 c))) (thread_table st1)\<rparr>
     in bind_res (unwrap_opt (proc_group c st2)) (\<lambda>g.
     bind_res (unwrap_opt (upgrade_session st2 (g_session (groups st2 g)))) (\<lambda>s.
     let st3 = upd_group g (g_remove_process c) st2;
         st4 = upd_session s (s_remove_process c) st3;
         st5 = upd_proc c (\<lambda>x. x\<lparr>p_group := None\<rparr>) st4;
         k = g_pgid (groups st5 g);
         st6 = (if g_is_empty (groups st5 g)
           then let a = upd_session s (remove_process_group k) (st5\<lparr>group_table := AList.delete k (group_table st5)\<rparr>)
                in if s_is_empty (sessions a s)
                   then a\<lparr>session_table := AList.delete (s_sid (sessions a s)) (session_table a)\<rparr> else a
           else st5);
         st7 = st6\<lparr>process_table := removeAll c (process_table st6)\<rparr>
     in bind_res (unwrap_opt (exit_code_of (p_status (procs st7 c)))) (\<lambda>code. Ok (code, st7))))))"

definition filter_matches :: "ProcessFilter \<Rightarrow> lstate \<Rightarrow> pid \<Rightarrow> bool" where
  "filter_matches f st c = (case f of FAny \<Rightarrow> True | WithPid p \<Rightarrow> c = p | WithPgid k \<Rightarrow> pgid_of c st = k)"

text \<open>One evaluation of the condition that \<open>children_pauser().pause_until\<close> waits for: \<open>None\<close> is to keep
  waiting.\<close>

definition wait_child_exit :: "unit res \<Rightarrow> pid \<Rightarrow> ProcessFilter \<Rightarrow> u32 \<Rightarrow> lstate \<Rightarrow> ((pid \<times> u32) \<times> lstate) res option" where
  "wait_child_exit destroyed p f opts st =
    (let unwaited = filter (filter_matches f st) (p_children (procs st p))
     in if unwaited = [] then Some (Err ECHILD)
        else case find (\<lambda>c. is_zombie c st) unwaited of
          Some z \<Rightarrow> Some (bind_res (unwrap_opt (exit_code_of (p_status (procs st z)))) (\<lambda>code.
              if has_flag opts WNOWAIT then Ok ((z, code), st)
              else bind_res (reap_zombie_child destroyed p z st) (\<lambda>(code', st'). Ok ((z, code'), st'))))
        | None \<Rightarrow> if has_flag opts WNOHANG then Some (Ok ((0, 0), st)) else None)"

definition sys_wait4 :: "unit res \<Rightarrow> (u64 \<Rightarrow> u32 \<Rightarrow> unit res) \<Rightarrow> pid \<Rightarrow> u64 \<Rightarrow> u64 \<Rightarrow> u32 \<Rightarrow> lstate \<Rightarrow> (pid \<times> lstate) res option" where
  "sys_wait4 destroyed write current wait_pid ptr opts st =
    (case wait_options_from_bits opts of None \<Rightarrow> Some panic
     | Some wo \<Rightarrow> (case filter_from_id current (ucast wait_pid) st of Inl e \<Rightarrow> Some (Inl e)
        | Inr f \<Rightarrow> map_option (\<lambda>r. bind_res r (\<lambda>((p, code), st').
             if p \<noteq> 0 \<and> ptr \<noteq> 0 then bind_res (write ptr code) (\<lambda>_. Ok (p, st')) else Ok (p, st')))
             (wait_child_exit destroyed current f wo st)))"

definition sys_waitid :: "unit res \<Rightarrow> pid \<Rightarrow> u64 \<Rightarrow> u64 \<Rightarrow> u64 \<Rightarrow> lstate \<Rightarrow> (u32 \<times> lstate) res option" where
  "sys_waitid destroyed current which upid opts st =
    (case filter_from_which_and_id which upid of Inl e \<Rightarrow> Some (Inl e)
     | Inr f \<Rightarrow> (case wait_options_from_bits (ucast opts) of None \<Rightarrow> Some panic
        | Some wo \<Rightarrow> map_option (\<lambda>r. bind_res r (\<lambda>((p, code), st'). Ok (code, st')))
             (wait_child_exit destroyed current f wo st)))"


section \<open>Invariant\<close>

text \<open>The process tree: the children of a process are processes of the table that name it as their parent; every
  process but the first has a parent that lists it; a zombie has given its children away; pids are below the
  counter.\<close>

definition family_inv :: "lstate \<Rightarrow> bool" where
  "family_inv st \<longleftrightarrow> INIT_PROCESS_PID \<in> set (process_table st) \<and> p_parent (procs st INIT_PROCESS_PID) = None
     \<and> (\<forall>p \<in> set (process_table st).
          (\<forall>c \<in> set (p_children (procs st p)). c \<in> set (process_table st) \<and> p_parent (procs st c) = Some p)
          \<and> (p \<noteq> INIT_PROCESS_PID \<longrightarrow> (\<exists>q \<in> set (process_table st). p_parent (procs st p) = Some q \<and> p \<in> set (p_children (procs st q))))
          \<and> (p \<noteq> INIT_PROCESS_PID \<and> is_zombie p st \<longrightarrow> p_children (procs st p) = [])
          \<and> p < next_tid st)"

definition l_inv :: "lstate \<Rightarrow> bool" where
  "l_inv st \<longleftrightarrow> pg_inv st \<and> family_inv st"

lemma pg_inv_ex_cong:
  assumes "\<And>q. q \<in> set (process_table st) \<Longrightarrow> p_group (procs st' q) = p_group (procs st q)"
    and "groups st' = groups st" and "sessions st' = sessions st"
    and "process_table st' = process_table st" and "group_table st' = group_table st"
    and "session_table st' = session_table st" and "next_group st' = next_group st" and "next_session st' = next_session st"
  shows "pg_inv_ex X Y st' = pg_inv_ex X Y st"
  by (simp add: pg_inv_ex_def member_ok_def group_ok_def session_ok_def assms cong: conj_cong)

lemma lookup_cong:
  assumes "p_group (procs st' q) = p_group (procs st q)" and "groups st' = groups st" and "sessions st' = sessions st"
    and "group_table st' = group_table st" and "session_table st' = session_table st"
  shows "proc_group q st' = proc_group q st" and "pgid_of q st' = pgid_of q st" and "session_of q st' = session_of q st"
proof -
  have a: "group_alive st' g = group_alive st g" "session_alive st' s = session_alive st s" for g s
    by (simp_all add: group_alive_def session_alive_def assms)
  show b: "proc_group q st' = proc_group q st"
    unfolding proc_group_def upgrade_group_def a assms by (rule refl)
  show "pgid_of q st' = pgid_of q st" "session_of q st' = session_of q st"
    unfolding pgid_of_def session_of_def upgrade_session_def a b assms by (rule refl)+
qed

subsection \<open>Exit\<close>

lemma reparent_child_procs:
  "procs (reparent_child c st) = (let f = (procs st)(1 := (procs st 1)\<lparr>p_children := pid_insert c (p_children (procs st 1))\<rparr>)
     in f(c := (f c)\<lparr>p_parent := Some 1\<rparr>))"
  by (simp add: reparent_child_def Let_def)

lemma fold_reparent_state: "\<exists>f. fold reparent_child cs st = st\<lparr>procs := f\<rparr>"
proof (induction cs arbitrary: st)
  case Nil
  then show ?case by (auto intro: exI [of _ "procs st"])
next
  case (Cons c cs)
  from Cons.IH [of "reparent_child c st"] show ?case by (auto simp: reparent_child_def upd_proc_def)
qed

lemma fold_reparent_child:
  fixes st :: lstate
  defines "f \<equiv> (\<lambda>cs st. procs (fold reparent_child cs st))"
  shows "set (p_children (f cs st 1)) = set (p_children (procs st 1)) \<union> set cs"
    and "q \<noteq> 1 \<Longrightarrow> p_children (f cs st q) = p_children (procs st q)"
    and "p_parent (f cs st q) = (if q \<in> set cs then Some 1 else p_parent (procs st q))"
    and "p_group (f cs st q) = p_group (procs st q)" and "p_status (f cs st q) = p_status (procs st q)"
    and "p_vm (f cs st q) = p_vm (procs st q)" and "p_file_table (f cs st q) = p_file_table (procs st q)"
  unfolding f_def by (induction cs arbitrary: st) (simp_all add: reparent_child_procs Let_def)


lemma do_exit_group_effect:
  fixes ts :: TermStatus
  assumes nz: "\<not> is_zombie p st" and i: "INIT_PROCESS_PID \<in> set (process_table st)"
  defines "st' \<equiv> do_exit_group p ts st"
  shows "p_group (procs st' q) = p_group (procs st q)"
    and "p_status (procs st' q) = (if q = p then Zombie ts else p_status (procs st q))"
    and "p_parent (procs st' q) = (if p \<noteq> 1 \<and> q \<in> set (p_children (procs st p)) then Some 1 else p_parent (procs st q))"
    and "set (p_children (procs st' q)) = (if p = 1 then set (p_children (procs st q)) else if q = 1 then set (p_children (procs st 1)) \<union> set (p_children (procs st p))
           else if q = p then {} else set (p_children (procs st q)))"
    and "groups st' = groups st" and "sessions st' = sessions st" and "process_table st' = process_table st"
    and "group_table st' = group_table st" and "session_table st' = session_table st"
    and "next_group st' = next_group st" and "next_session st' = next_session st" and "next_tid st' = next_tid st"
    and "p_vm (procs st' q) = p_vm (procs st q)" and "p_file_table (procs st' q) = p_file_table (procs st q)"
    and "file_tables st' = (file_tables st)(p_file_table (procs st p) := [])"
proof -
  define b where "b = exit_files p (exit_threads p (upd_proc p (\<lambda>x. x\<lparr>p_status := Zombie ts\<rparr>) st))"
  define d where "d = upd_proc p (\<lambda>x. x\<lparr>p_children := []\<rparr>) b"
  have gi: "get_process 1 b = Some 1"
    using i by (simp add: get_process_def b_def exit_files_def exit_threads_def Let_def)
  have n: "procs (notify_parent p x) = procs x" "groups (notify_parent p x) = groups x"
    "sessions (notify_parent p x) = sessions x" "process_table (notify_parent p x) = process_table x"
    "group_table (notify_parent p x) = group_table x" "session_table (notify_parent p x) = session_table x"
    "next_group (notify_parent p x) = next_group x" "next_session (notify_parent p x) = next_session x"
    "next_tid (notify_parent p x) = next_tid x" "file_tables (notify_parent p x) = file_tables x" for x
    by (auto simp: notify_parent_def p_enqueue_signal_def Let_def split: option.split)
  have st': "st' = notify_parent p (reparent_children p b)"
    using nz by (simp add: st'_def do_exit_group_def b_def)
  have bs: "p_group (procs b q) = p_group (procs st q)" "p_status (procs b q) = (if q = p then Zombie ts else p_status (procs st q))"
    "p_parent (procs b q) = p_parent (procs st q)" "p_children (procs b q) = p_children (procs st q)"
    "groups b = groups st" "sessions b = sessions st" "process_table b = process_table st" "group_table b = group_table st"
    "session_table b = session_table st" "next_group b = next_group st" "next_session b = next_session st" "next_tid b = next_tid st"
    "p_vm (procs b q) = p_vm (procs st q)" "p_file_table (procs b q) = p_file_table (procs st q)"
    "file_tables b = (file_tables st)(p_file_table (procs st p) := [])" for q
    by (auto simp: b_def exit_files_def exit_threads_def Let_def upd_proc_def)
  have r: "reparent_children p b = (if p = 1 then b else fold reparent_child (p_children (procs st p)) d)"
    using bs(4) [of p] by (simp add: reparent_children_def gi [simplified] d_def)
  have ds: "procs d = (procs b)(p := (procs b p)\<lparr>p_children := []\<rparr>)" "groups d = groups st" "sessions d = sessions st"
    "process_table d = process_table st" "group_table d = group_table st" "session_table d = session_table st"
    "next_group d = next_group st" "next_session d = next_session st" "next_tid d = next_tid st" "file_tables d = file_tables b"
    using bs by (auto simp: d_def upd_proc_def)
  obtain f where f: "fold reparent_child (p_children (procs st p)) d = d\<lparr>procs := f\<rparr>"
    using fold_reparent_state by blast
  note fr = fold_reparent_child [where cs = "p_children (procs st p)" and st = d, unfolded f, simplified]
  show "p_group (procs st' q) = p_group (procs st q)"
    "p_status (procs st' q) = (if q = p then Zombie ts else p_status (procs st q))"
    "p_parent (procs st' q) = (if p \<noteq> 1 \<and> q \<in> set (p_children (procs st p)) then Some 1 else p_parent (procs st q))"
    "p_vm (procs st' q) = p_vm (procs st q)" "p_file_table (procs st' q) = p_file_table (procs st q)"
    "groups st' = groups st" "sessions st' = sessions st" "process_table st' = process_table st"
    "group_table st' = group_table st" "session_table st' = session_table st" "next_group st' = next_group st"
    "next_session st' = next_session st" "next_tid st' = next_tid st"
    "file_tables st' = (file_tables st)(p_file_table (procs st p) := [])"
    by (simp_all add: st' n r f fr bs ds)
  show "set (p_children (procs st' q)) = (if p = 1 then set (p_children (procs st q)) else if q = 1 then set (p_children (procs st 1)) \<union> set (p_children (procs st p))
           else if q = p then {} else set (p_children (procs st q)))"
    by (cases "q = 1") (simp_all add: st' n r f fr bs ds)
qed


lemma do_exit_group_inv:
  assumes inv: "l_inv st" and p: "p \<in> set (process_table st)"
  shows "l_inv (do_exit_group p ts st)"
proof (cases "is_zombie p st")
  case True
  with inv show ?thesis by (simp add: do_exit_group_def)
next
  case nz: False
  from inv have fi: "family_inv st" by (simp add: l_inv_def)
  then have i: "1 \<in> set (process_table st)" by (simp add: family_inv_def)
  let ?st = "do_exit_group p ts st"
  note e = do_exit_group_effect [OF nz i]
  have "pg_inv ?st" using inv by (simp add: l_inv_def pg_inv_ex_cong [of st ?st, OF e(1) e(5-11)])
  moreover have "family_inv ?st"
  proof -
    have z: "is_zombie q ?st \<longleftrightarrow> q = p \<or> is_zombie q st" for q by (simp add: is_zombie_def e(2))
    have none: "p_parent (procs st 1) = None" using fi by (simp add: family_inv_def)
    have ch: "c \<in> set (process_table st) \<and> p_parent (procs st c) = Some q"
      if "q \<in> set (process_table st)" "c \<in> set (p_children (procs st q))" for q c
      using fi that unfolding family_inv_def by blast
    have par: "\<exists>r \<in> set (process_table st). p_parent (procs st q) = Some r \<and> q \<in> set (p_children (procs st r))"
      if "q \<in> set (process_table st)" "q \<noteq> 1" for q
      using fi that unfolding family_inv_def by blast
    have zc: "p_children (procs st q) = []" if "q \<in> set (process_table st)" "q \<noteq> 1" "is_zombie q st" for q
      using fi that unfolding family_inv_def by blast
    have lt: "q < next_tid st" if "q \<in> set (process_table st)" for q
      using fi that unfolding family_inv_def by blast
    have p1: "p_parent (procs ?st 1) = None"
      using none ch [OF p, of 1] by (auto simp: e(3))
    have "c \<in> set (process_table st) \<and> p_parent (procs ?st c) = Some q"
      if "q \<in> set (process_table st)" "c \<in> set (p_children (procs ?st q))" for q c
      using that ch [OF that(1), of c] ch [OF p, of c] ch [OF i, of c] by (auto simp: e(3,4) split: if_splits)
    moreover have "\<exists>r \<in> set (process_table st). p_parent (procs ?st q) = Some r \<and> q \<in> set (p_children (procs ?st r))"
      if q: "q \<in> set (process_table st)" "q \<noteq> 1" for q
    proof -
      from par [OF q] obtain r where r: "r \<in> set (process_table st)" "p_parent (procs st q) = Some r"
        "q \<in> set (p_children (procs st r))" by blast
      show ?thesis
      proof (cases "p \<noteq> 1 \<and> q \<in> set (p_children (procs st p))")
        case True
        with i show ?thesis by (auto simp: e(3,4) intro: bexI [of _ 1])
      next
        case False
        with r have "p_parent (procs ?st q) = Some r" "q \<in> set (p_children (procs ?st r))" by (auto simp: e(3,4))
        with r(1) show ?thesis by blast
      qed
    qed
    moreover have "p_children (procs ?st q) = []" if "q \<in> set (process_table st)" "q \<noteq> 1" "is_zombie q ?st" for q
    proof -
      have "set (p_children (procs ?st q)) = {}" using that zc [OF that(1,2)] by (auto simp: e(4) z)
      then show ?thesis by simp
    qed
    ultimately show ?thesis using i p1 lt unfolding family_inv_def e(7,12) by blast
  qed
  ultimately show ?thesis by (simp add: l_inv_def)
qed

subsection \<open>Clone\<close>

text \<open>The steps of \<open>clone_child_process\<close> before \<open>set_parent_and_group\<close> only touch what the invariant does not
  read, the new process apart.\<close>

definition cloned_from :: "lstate \<Rightarrow> pid \<Rightarrow> pid \<Rightarrow> lstate \<Rightarrow> bool" where
  "cloned_from st current tid st' \<longleftrightarrow>
     (\<forall>q. q \<noteq> tid \<longrightarrow> procs st' q = procs st q) \<and> p_parent (procs st' tid) = Some current
     \<and> p_children (procs st' tid) = [] \<and> p_group (procs st' tid) = None \<and> p_status (procs st' tid) = Runnable
     \<and> groups st' = groups st \<and> sessions st' = sessions st \<and> process_table st' = process_table st
     \<and> group_table st' = group_table st \<and> session_table st' = session_table st
     \<and> next_group st' = next_group st \<and> next_session st' = next_session st"

definition core_eq :: "lstate \<Rightarrow> lstate \<Rightarrow> bool" where
  "core_eq st' st \<longleftrightarrow> procs st' = procs st \<and> groups st' = groups st \<and> sessions st' = sessions st
     \<and> process_table st' = process_table st \<and> group_table st' = group_table st \<and> session_table st' = session_table st
     \<and> next_group st' = next_group st \<and> next_session st' = next_session st"

lemma clone_parts_core:
  "clone_vm r v fl st = Ok (a, st') \<Longrightarrow> core_eq st' st \<and> next_tid st' = next_tid st \<and> (has_flag fl CLONE_VM \<longrightarrow> a = v)"
  "clone_files v fl st = (a, st') \<Longrightarrow> core_eq st' st \<and> next_tid st' = next_tid st \<and> (has_flag fl CLONE_FILES \<longrightarrow> a = v)"
  "clone_fs v fl st = (a, st') \<Longrightarrow> core_eq st' st \<and> next_tid st' = next_tid st"
  "clone_sighand v fl st = (a, st') \<Longrightarrow> core_eq st' st \<and> next_tid st' = next_tid st"
  "allocate_tid st = (a, st') \<Longrightarrow> core_eq st' st \<and> next_tid st' = (next_tid st + 1) mod 2 ^ 32 \<and> a = next_tid st"
  "core_eq (build_thread tid c m st) st \<and> next_tid (build_thread tid c m st) = next_tid st"
  "settid_steps env args tid st = Ok st' \<Longrightarrow> core_eq st' st \<and> next_tid st' = next_tid st"
  by (auto simp: clone_vm_def clone_files_def clone_fs_def clone_sighand_def alloc_arc_def allocate_tid_def
      settid_steps_def clone_child_cleartid_def build_thread_def core_eq_def Let_def split: if_splits)

lemma clone_child_process_shape:
  assumes "clone_child_process env args ctx current cur_tid st = Ok (tid, st')"
  shows "tid = next_tid st" and "\<exists>st0. set_parent_and_group current tid st0 = Ok st'
     \<and> cloned_from st current tid st0 \<and> next_tid st0 = (next_tid st + 1) mod 2 ^ 32
     \<and> (has_flag (clone_flags args) CLONE_VM \<longrightarrow> p_vm (procs st0 tid) = p_vm (procs st current))
     \<and> (has_flag (clone_flags args) CLONE_FILES \<longrightarrow> p_file_table (procs st0 tid) = p_file_table (procs st current))"
proof -
  let ?f = "clone_flags args" and ?me = "procs st current"
  from assms obtain vm st1 c where a: "clone_vm (fork_vm env) (p_vm ?me) ?f st = Ok (vm, st1)"
    "clone_cpu_context ctx (new_sp args) (tls args) ?f = Ok c"
    by (auto simp: clone_child_process_def Let_def)
  obtain files st2 where b: "clone_files (p_file_table ?me) ?f st1 = (files, st2)" by (meson surj_pair)
  obtain fs st3 where d: "clone_fs (p_fs ?me) ?f st2 = (fs, st3)" by (meson surj_pair)
  obtain sg st4 where e: "clone_sighand (p_sighand ?me) ?f st3 = (sg, st4)" by (meson surj_pair)
  obtain t st5 where g: "allocate_tid st4 = (t, st5)" by (meson surj_pair)
  define st6 where "st6 = build_thread t c (sig_masks st4 cur_tid) st5"
  define child where "child = \<lparr>p_parent = Some current, p_children = [], p_group = None, p_status = Runnable,
     p_threads = [(t, False)], p_vm = vm, p_file_table = files, p_fs = fs, p_sighand = sg,
     p_umask = p_umask ?me, p_nice = p_nice ?me\<rparr>"
  from assms obtain st8 where h: "settid_steps env args t (upd_proc t (\<lambda>_. child) st6) = Ok st8"
    "set_parent_and_group current t st8 = Ok st'" "tid = t"
    by (auto simp: clone_child_process_def Let_def a b d e g st6_def child_def)
  have c6: "core_eq st6 st" "t = next_tid st" "next_tid st6 = (next_tid st + 1) mod 2 ^ 32"
    "has_flag ?f CLONE_VM \<longrightarrow> vm = p_vm ?me" "has_flag ?f CLONE_FILES \<longrightarrow> files = p_file_table ?me"
    using clone_parts_core(1) [OF a(1)] clone_parts_core(2) [OF b] clone_parts_core(3) [OF d] clone_parts_core(4) [OF e]
      clone_parts_core(5) [OF g] clone_parts_core(6) [of t c "sig_masks st4 cur_tid" st5]
    by (auto simp: st6_def core_eq_def)
  have c8: "core_eq st8 (upd_proc t (\<lambda>_. child) st6)" "next_tid st8 = next_tid st6"
    using clone_parts_core(7) [OF h(1)] by (auto simp: upd_proc_def)
  then have "cloned_from st current t st8" "p_vm (procs st8 t) = vm" "p_file_table (procs st8 t) = files"
    using c6(1) by (auto simp: cloned_from_def core_eq_def child_def)
  with h c6 c8 show "tid = next_tid st" and "\<exists>st0. set_parent_and_group current tid st0 = Ok st'
     \<and> cloned_from st current tid st0 \<and> next_tid st0 = (next_tid st + 1) mod 2 ^ 32
     \<and> (has_flag (clone_flags args) CLONE_VM \<longrightarrow> p_vm (procs st0 tid) = p_vm (procs st current))
     \<and> (has_flag (clone_flags args) CLONE_FILES \<longrightarrow> p_file_table (procs st0 tid) = p_file_table (procs st current))"
    by auto
qed


lemma add_process_inv:
  assumes "pg_inv st" and "p \<notin> set (process_table st)" and "p_group (procs st p) = None"
  shows "pg_inv_ex {p} {} (st\<lparr>process_table := pid_insert p (process_table st)\<rparr>)"
  using assms by (auto simp: pg_inv_ex_def member_ok_def group_ok_def session_ok_def)

lemma clone_child_process_inv:
  assumes inv: "l_inv st" and cur: "current \<in> set (process_table st)" and nz: "\<not> is_zombie current st"
    and wrap: "next_tid st + 1 < 2 ^ 32"
    and r: "clone_child_process env args ctx current cur_tid st = Ok (tid, st')"
  shows "l_inv st'" and "tid \<notin> set (process_table st)" and "process_table st' = pid_insert tid (process_table st)"
    and "p_parent (procs st' tid) = Some current" and "tid \<in> set (p_children (procs st' current))"
    and "pgid_of tid st' = pgid_of current st" and "session_of tid st' = session_of current st"
    and "\<not> is_zombie tid st'"
proof -
  from inv have pg: "pg_inv st" and fi: "family_inv st" by (simp_all add: l_inv_def)
  from clone_child_process_shape [OF r] obtain st0 where tid: "tid = next_tid st"
    and s0: "set_parent_and_group current tid st0 = Ok st'" "cloned_from st current tid st0"
      "next_tid st0 = (next_tid st + 1) mod 2 ^ 32" by blast
  have T: "q < next_tid st" if "q \<in> set (process_table st)" for q
    using fi that unfolding family_inv_def by blast
  then show fresh: "tid \<notin> set (process_table st)" using tid by blast
  have ct: "current \<noteq> tid" using cur fresh by blast
  have g0: "groups st0 = groups st" "sessions st0 = sessions st" "process_table st0 = process_table st"
    "group_table st0 = group_table st" "session_table st0 = session_table st" "next_group st0 = next_group st"
    "next_session st0 = next_session st" "p_group (procs st0 tid) = None" "procs st0 q = procs st q" if "q \<noteq> tid" for q
    using s0(2) that by (simp_all add: cloned_from_def)
  note g0' = g0(1-8) [OF ct]
  from member_group [OF pg cur] obtain g s where g: "p_group (procs st current) = Some g" "proc_group current st = Some g"
    "map_of (group_table st) (g_pgid (groups st g)) = Some g" "pgid_of current st = g_pgid (groups st g)"
    "session_of current st = Some s" "g_session (groups st g) = Some s" by blast
  have pgc: "proc_group current st0 = Some g"
    using lookup_cong(1) [of st0 current st] g0 [OF ct] g(2) by simp
  define j where "j = st0\<lparr>process_table := pid_insert tid (process_table st0)\<rparr>"
  define k where "k = upd_proc tid (\<lambda>x. x\<lparr>p_group := Some g\<rparr>)
     (upd_group g (\<lambda>x. x\<lparr>g_processes := pid_insert tid (g_processes x)\<rparr>) j)"
  have same: "procs st0 q = procs st q" if "q \<in> set (process_table st)" for q
    using g0(9) fresh that by metis
  have "pg_inv st0"
    using pg by (subst pg_inv_ex_cong [of st st0]) (simp_all add: same g0')
  then have "pg_inv_ex {tid} {} j"
    unfolding j_def using fresh g0' by (intro add_process_inv) auto
  then have ik: "pg_inv k"
    unfolding k_def by (rule join_group_inv) (use g g0' in \<open>auto simp: j_def\<close>)
  have st': "st' = upd_proc current (\<lambda>x. x\<lparr>p_children := pid_insert tid (p_children x)\<rparr>) k"
    using s0(1) pgc ct by (auto simp: set_parent_and_group_def unwrap_opt_def Let_def k_def j_def upd_defs fun_upd_twist)
  have i': "pg_inv st'"
    using ik by (subst pg_inv_ex_cong [of k]) (simp_all add: st')
  have pt: "process_table st' = pid_insert tid (process_table st)" "groups st' g = (groups st g)\<lparr>g_processes := pid_insert tid (g_processes (groups st g))\<rparr>"
    using g0' by (simp_all add: st' k_def j_def)
  have pr: "procs st' q = (if q = tid then (procs st0 tid)\<lparr>p_group := Some g\<rparr>
      else if q = current then (procs st q)\<lparr>p_children := pid_insert tid (p_children (procs st q))\<rparr> else procs st q)" for q
    using g0(9) ct by (simp add: st' k_def j_def)
  show "process_table st' = pid_insert tid (process_table st)" by (rule pt)
  show "p_parent (procs st' tid) = Some current" "tid \<in> set (p_children (procs st' current))"
    using s0(2) ct by (simp_all add: pr cloned_from_def)
  have t': "tid \<in> set (process_table st')" by (simp add: pt)
  show "pgid_of tid st' = pgid_of current st" "session_of tid st' = session_of current st"
    by (simp_all add: pgid_of_unfold [OF i' t'] session_of_unfold [OF i' t'] pr pt g)
  show nz': "\<not> is_zombie tid st'" using s0(2) by (simp add: is_zombie_def pr cloned_from_def)
  have nt: "next_tid st' = next_tid st + 1" using s0(3) wrap by (simp add: st' k_def j_def upd_defs)
  have z: "is_zombie q st' = is_zombie q st" if "q \<noteq> tid" for q using that by (simp add: is_zombie_def pr)
  have ch0: "p_children (procs st' tid) = []" using s0(2) by (simp add: pr cloned_from_def)
  have par0: "p_parent (procs st' q) = (if q = tid then Some current else p_parent (procs st q))" for q
    using s0(2) by (simp add: pr cloned_from_def)
  have ch1: "p_children (procs st' q) = (if q = current then pid_insert tid (p_children (procs st q)) else p_children (procs st q))"
    if "q \<noteq> tid" for q using that by (simp add: pr)
  have "family_inv st'"
    unfolding family_inv_def pt nt
  proof (intro conjI ballI)
    show "1 \<in> set (pid_insert tid (process_table st))" "p_parent (procs st' 1) = None"
      using fi fresh by (auto simp: family_inv_def par0)
    fix q assume q: "q \<in> set (pid_insert tid (process_table st))"
    show "q < next_tid st + 1" using q T tid by fastforce
    show "q \<noteq> 1 \<and> is_zombie q st' \<longrightarrow> p_children (procs st' q) = []"
    proof (cases "q = tid")
      case False
      with q have "q \<in> set (process_table st)" by simp
      then have "q \<noteq> 1 \<and> is_zombie q st \<longrightarrow> p_children (procs st q) = []" using fi unfolding family_inv_def by blast
      with False nz show ?thesis by (auto simp: z ch1)
    qed (simp add: ch0)
    show "q \<noteq> 1 \<longrightarrow> (\<exists>r \<in> set (pid_insert tid (process_table st)). p_parent (procs st' q) = Some r \<and> q \<in> set (p_children (procs st' r)))"
    proof (cases "q = tid")
      case True
      then show ?thesis using cur ct by (auto simp: par0 ch1)
    next
      case False
      with q have qT: "q \<in> set (process_table st)" by simp
      show ?thesis
      proof
        assume "q \<noteq> 1"
        with fi qT obtain r where r: "r \<in> set (process_table st)" "p_parent (procs st q) = Some r"
          "q \<in> set (p_children (procs st r))" unfolding family_inv_def by blast
        with fresh have "r \<noteq> tid" by blast
        with r False show "\<exists>r \<in> set (pid_insert tid (process_table st)). p_parent (procs st' q) = Some r \<and> q \<in> set (p_children (procs st' r))"
          by (intro bexI [of _ r]) (auto simp: par0 ch1)
      qed
    qed
    fix c assume c: "c \<in> set (p_children (procs st' q))"
    have qt: "q \<noteq> tid" using c ch0 by auto
    then have qT: "q \<in> set (process_table st)" using q by simp
    have old: "c \<in> set (process_table st) \<and> p_parent (procs st c) = Some q" if "c \<in> set (p_children (procs st q))"
      using fi qT that unfolding family_inv_def by blast
    show "c \<in> set (pid_insert tid (process_table st))" "p_parent (procs st' c) = Some q"
      using c old qt fresh by (auto simp: ch1 par0 split: if_splits)
  qed
  with i' show "l_inv st'" by (simp add: l_inv_def)
qed


subsection \<open>Wait\<close>

lemma remove_leader_inv:
  assumes inv: "pg_inv st"
  shows "pg_inv (upd_session s (s_remove_process p) st)" (is "pg_inv ?st")
proof -
  have f: "s_sid (sessions ?st t) = s_sid (sessions st t)" "s_groups (sessions ?st t) = s_groups (sessions st t)"
    "s_leader (sessions ?st t) = Some l \<Longrightarrow> s_leader (sessions st t) = Some l" for t l
    by (auto simp: s_remove_process_def split: if_splits)
  have g: "procs ?st = procs st" "groups ?st = groups st" "process_table ?st = process_table st"
    "next_group ?st = next_group st" "next_session ?st = next_session st" by simp_all
  have "member_ok ?st q = member_ok st q" "group_ok ?st k g = group_ok st k g" for q k g
    unfolding member_ok_def group_ok_def f by simp_all
  moreover have "session_ok ?st k t" if "session_ok st k t" for k t
    using that unfolding session_ok_def f(1,2) g by (blast dest: f(3))
  ultimately show ?thesis using inv unfolding pg_inv_ex_def f by simp
qed

lemma remove_process_inv:
  assumes "pg_inv_ex {p} {} st" and "p_group (procs st p) = None"
  shows "pg_inv (st\<lparr>process_table := removeAll p (process_table st)\<rparr>)"
proof -
  let ?st = "st\<lparr>process_table := removeAll p (process_table st)\<rparr>"
  have "member_ok ?st q" if "q \<in> set (process_table st)" "q \<noteq> p" for q
    using assms(1) that by (auto simp: pg_inv_ex_def member_ok_def)
  moreover have "group_ok ?st k g" if "map_of (group_table st) k = Some g" for k g
  proof -
    have "group_ok st k g" using assms(1) that by (auto simp: pg_inv_ex_def)
    with assms(2) show ?thesis by (auto simp: group_ok_def)
  qed
  moreover have "session_ok ?st k s \<and> s_groups (sessions st s) \<noteq> []" if "map_of (session_table st) k = Some s" for k s
  proof -
    have "session_ok st k s" "s_groups (sessions st s) \<noteq> []" using assms(1) that by (auto simp: pg_inv_ex_def)
    with assms(2) show ?thesis by (auto simp: session_ok_def)
  qed
  ultimately show ?thesis by (auto simp: pg_inv_ex_def)
qed

text \<open>The block of \<open>reap_zombie_child\<close> that takes the child out of its group and session.\<close>

definition unlink_child :: "pid \<Rightarrow> gref \<Rightarrow> sref \<Rightarrow> lstate \<Rightarrow> lstate" where
  "unlink_child c g s st =
    (let st5 = upd_proc c (\<lambda>x. x\<lparr>p_group := None\<rparr>) (upd_session s (s_remove_process c) (upd_group g (g_remove_process c) st));
         k = g_pgid (groups st5 g);
         st6 = (if g_is_empty (groups st5 g)
           then let a = upd_session s (remove_process_group k) (st5\<lparr>group_table := AList.delete k (group_table st5)\<rparr>)
                in if s_is_empty (sessions a s)
                   then a\<lparr>session_table := AList.delete (s_sid (sessions a s)) (session_table a)\<rparr> else a
           else st5)
     in st6\<lparr>process_table := removeAll c (process_table st6)\<rparr>)"

lemma reap_unlink:
  "reap_zombie_child destroyed p c st =
    (if c \<notin> set (p_children (procs st p)) then panic
     else let st1 = upd_proc p (\<lambda>x. x\<lparr>p_children := removeAll c (p_children x)\<rparr>) st
     in if \<not> is_zombie c st1 then panic
     else bind_res (unwrap_res destroyed) (\<lambda>_.
     let st2 = st1\<lparr>destroyed_vms := destroyed_vms st1 @ [p_vm (procs st1 c)],
           thread_table := filter (\<lambda>t. t \<notin> fst ` set (p_threads (procs st1 c))) (thread_table st1)\<rparr>
     in bind_res (unwrap_opt (proc_group c st2)) (\<lambda>g.
     bind_res (unwrap_opt (upgrade_session st2 (g_session (groups st2 g)))) (\<lambda>s.
     let st7 = unlink_child c g s st2
     in bind_res (unwrap_opt (exit_code_of (p_status (procs st7 c)))) (\<lambda>code. Ok (code, st7))))))"
  by (simp add: reap_zombie_child_def unlink_child_def Let_def)

lemma unlink_child_fields:
  "next_tid (unlink_child c g s st) = next_tid st" "destroyed_vms (unlink_child c g s st) = destroyed_vms st"
  "process_table (unlink_child c g s st) = removeAll c (process_table st)"
  "procs (unlink_child c g s st) = (procs st)(c := (procs st c)\<lparr>p_group := None\<rparr>)"
  "g_session (groups (unlink_child c g s st) h) = g_session (groups st h)"
  by (simp_all add: unlink_child_def Let_def upd_defs)

lemma unlink_child_inv:
  assumes inv: "pg_inv st" and c: "c \<in> set (process_table st)" and g: "p_group (procs st c) = Some g"
    and tbl: "map_of (group_table st) (g_pgid (groups st g)) = Some g"
    and s: "g_session (groups st g) = Some s" and al: "map_of (session_table st) (s_sid (sessions st s)) = Some s"
  shows "pg_inv (unlink_child c g s st)"
proof -
  define a where "a = upd_session s (s_remove_process c) st"
  have ia: "pg_inv a" unfolding a_def by (rule remove_leader_inv [OF inv])
  have fa: "c \<in> set (process_table a)" "p_group (procs a c) = Some g" "map_of (group_table a) (g_pgid (groups a g)) = Some g"
    "map_of (session_table a) (s_sid (sessions a s)) = Some s" "g_session (groups a g) = Some s" "groups a = groups st"
    using c g tbl al s by (auto simp: a_def s_remove_process_def)
  have nl: "s_leader (sessions a t) \<noteq> Some c" if "map_of (session_table a) k = Some t" for k t
  proof (cases "t = s")
    case True
    then show ?thesis by (auto simp: a_def s_remove_process_def)
  next
    case False
    have "session_ok a k t" using ia that by (auto simp: pg_inv_ex_def)
    with False fa(2,5) show ?thesis by (auto simp: session_ok_def)
  qed
  show ?thesis
  proof (cases "removeAll c (g_processes (groups st g)) = []")
    case True
    let ?k = "g_pgid (groups a g)"
    let ?b = "upd_session s (\<lambda>x. x\<lparr>s_groups := AList.delete ?k (s_groups x)\<rparr>) (emptied_group c g a)"
    have ie: "pg_inv_ex {c} {} (emptied_group c g a)"
      using emptied_group_inv [OF ia fa(1,2) nl _ fa(3)] True fa(6) by simp
    have ib: "pg_inv_ex {c} {s} ?b"
      by (rule drop_session_group_inv [OF ie]) (simp add: emptied_group_def delete_conv')
    have b: "map_of (session_table ?b) (s_sid (sessions ?b s)) = Some s" "p_group (procs ?b c) = None"
      using fa(4) by (simp_all add: emptied_group_def left_group_def)
    define d where "d = (if s_groups (sessions ?b s) = []
      then ?b\<lparr>session_table := AList.delete (s_sid (sessions ?b s)) (session_table ?b)\<rparr> else ?b)"
    have "pg_inv_ex {c} {} d" "p_group (procs d c) = None"
      using drop_session_inv [OF ib _ b(1)] pg_inv_ex_nonempty [OF ib] b(2) by (simp_all add: d_def)
    then have "pg_inv (d\<lparr>process_table := removeAll c (process_table d)\<rparr>)" by (rule remove_process_inv)
    moreover have "unlink_child c g s st = d\<lparr>process_table := removeAll c (process_table d)\<rparr>"
      using True by (simp add: unlink_child_def Let_def d_def emptied_group_def left_group_def a_def g_is_empty_def s_is_empty_def
          remove_process_group_def upd_defs)
    ultimately show ?thesis by simp
  next
    case False
    let ?l = "left_group c g a"
    have "pg_inv_ex {c} {} ?l" using left_group_inv [OF ia fa(1,2) nl] False fa(6) by simp
    then have "pg_inv (?l\<lparr>process_table := removeAll c (process_table ?l)\<rparr>)"
      by (rule remove_process_inv) (simp add: left_group_def)
    moreover have "unlink_child c g s st = ?l\<lparr>process_table := removeAll c (process_table ?l)\<rparr>"
      using False by (simp add: unlink_child_def Let_def left_group_def a_def g_is_empty_def upd_defs)
    ultimately show ?thesis by simp
  qed
qed


lemma proc_group_destroyed [simp]:
  "proc_group c (st\<lparr>thread_table := tt, destroyed_vms := dv\<rparr>) = proc_group c st"
  "upgrade_session (st\<lparr>thread_table := tt, destroyed_vms := dv\<rparr>) w = upgrade_session st w"
proof -
  have a: "group_alive (st\<lparr>thread_table := tt, destroyed_vms := dv\<rparr>) g = group_alive st g"
    "session_alive (st\<lparr>thread_table := tt, destroyed_vms := dv\<rparr>) s = session_alive st s" for g s
    by (simp_all add: group_alive_def session_alive_def)
  show "proc_group c (st\<lparr>thread_table := tt, destroyed_vms := dv\<rparr>) = proc_group c st"
    "upgrade_session (st\<lparr>thread_table := tt, destroyed_vms := dv\<rparr>) w = upgrade_session st w"
    unfolding proc_group_def upgrade_group_def upgrade_session_def a by simp_all
qed

lemma reap_spec:
  assumes inv: "l_inv st" and p: "p \<in> set (process_table st)" and c: "c \<in> set (p_children (procs st p))"
    and z: "p_status (procs st c) = Zombie ts"
  obtains st' where "reap_zombie_child (Ok ()) p c st = Ok (as_u32 ts, st')" and "l_inv st'"
    and "process_table st' = removeAll c (process_table st)"
    and "destroyed_vms st' = destroyed_vms st @ [p_vm (procs st c)]"
    and "\<And>q. q \<noteq> c \<Longrightarrow> p_group (procs st' q) = p_group (procs st q)"
    and "\<And>q. q \<noteq> p \<Longrightarrow> p_children (procs st' q) = p_children (procs st q)"
proof -
  from inv have pg: "pg_inv st" and fi: "family_inv st" by (simp_all add: l_inv_def)
  have ch: "x \<in> set (process_table st) \<and> p_parent (procs st x) = Some q"
    if "q \<in> set (process_table st)" "x \<in> set (p_children (procs st q))" for q x
    using fi that unfolding family_inv_def by blast
  have none: "p_parent (procs st 1) = None" "1 \<in> set (process_table st)" using fi by (simp_all add: family_inv_def)
  from ch [OF p c] none have cT: "c \<in> set (process_table st)" and cp: "p_parent (procs st c) = Some p" and c1: "c \<noteq> 1" by auto
  have cc: "p_children (procs st c) = []"
    using fi cT c1 z unfolding family_inv_def is_zombie_def by (metis is_zombie_status.simps(1))
  with c have cnp: "c \<noteq> p" by auto
  define st1 where "st1 = upd_proc p (\<lambda>x. x\<lparr>p_children := removeAll c (p_children x)\<rparr>) st"
  define st2 where "st2 = st1\<lparr>destroyed_vms := destroyed_vms st1 @ [p_vm (procs st1 c)],
     thread_table := filter (\<lambda>t. t \<notin> fst ` set (p_threads (procs st1 c))) (thread_table st1)\<rparr>"
  have pr2: "procs st2 q = (if q = p then (procs st p)\<lparr>p_children := removeAll c (p_children (procs st p))\<rparr> else procs st q)" for q
    by (simp add: st2_def st1_def)
  have f2: "groups st2 = groups st" "sessions st2 = sessions st" "process_table st2 = process_table st"
    "group_table st2 = group_table st" "session_table st2 = session_table st" "next_group st2 = next_group st"
    "next_session st2 = next_session st" "next_tid st2 = next_tid st" "p_group (procs st2 q) = p_group (procs st q)"
    "destroyed_vms st2 = destroyed_vms st @ [p_vm (procs st c)]" for q
    using cnp by (simp_all add: pr2) (simp_all add: st2_def st1_def upd_proc_def)
  have i2: "pg_inv st2" using pg by (subst pg_inv_ex_cong [of st]) (simp_all add: f2)
  have c2: "c \<in> set (process_table st2)" using cT f2 by simp
  from member_group [OF i2 c2] obtain g s where g: "p_group (procs st2 c) = Some g" "proc_group c st2 = Some g"
    "map_of (group_table st2) (g_pgid (groups st2 g)) = Some g" "g_session (groups st2 g) = Some s"
    "map_of (session_table st2) (s_sid (sessions st2 s)) = Some s" by blast
  define st' where "st' = unlink_child c g s st2"
  have i': "pg_inv st'" unfolding st'_def by (rule unlink_child_inv [OF i2 c2 g(1,3,4,5)])
  have pr': "procs st' q = (if q = c then (procs st c)\<lparr>p_group := None\<rparr> else procs st2 q)" for q
    using cnp by (simp add: st'_def unlink_child_fields pr2)
  have us: "upgrade_session st2 (Some s) = Some s" using g(5) by (simp add: upgrade_session_def session_alive_def)
  have zc: "is_zombie c st1" using z cnp by (simp add: is_zombie_def st1_def)
  have r: "reap_zombie_child (Ok ()) p c st = Ok (as_u32 ts, st')"
    unfolding reap_unlink Let_def st1_def [symmetric] st2_def [symmetric]
    using c zc g(2,4) us z by (simp add: unwrap_res_def unwrap_opt_def st'_def [symmetric] pr')
  have t': "process_table st' = removeAll c (process_table st)" "next_tid st' = next_tid st"
    by (simp_all add: st'_def unlink_child_fields f2)
  have chp: "p_children (procs st' q) = (if q = p then removeAll c (p_children (procs st p)) else p_children (procs st q))" for q
    using cnp cc by (simp add: pr' pr2)
  have par: "p_parent (procs st' q) = p_parent (procs st q)" for q by (simp add: pr' pr2)
  have zq: "is_zombie q st' = is_zombie q st" for q by (simp add: is_zombie_def pr' pr2)
  have "family_inv st'"
    unfolding family_inv_def t' par zq
  proof (intro conjI ballI)
    show "1 \<in> set (removeAll c (process_table st))" "p_parent (procs st 1) = None" using none c1 by simp_all
    fix q assume "q \<in> set (removeAll c (process_table st))"
    then have q: "q \<in> set (process_table st)" "q \<noteq> c" by simp_all
    show "q < next_tid st" using fi q unfolding family_inv_def by blast
    have "q \<noteq> 1 \<and> is_zombie q st \<longrightarrow> p_children (procs st q) = []" using fi q(1) unfolding family_inv_def by blast
    then show "q \<noteq> 1 \<and> is_zombie q st \<longrightarrow> p_children (procs st' q) = []" by (auto simp: chp)
    show "q \<noteq> 1 \<longrightarrow> (\<exists>r \<in> set (removeAll c (process_table st)). p_parent (procs st q) = Some r \<and> q \<in> set (p_children (procs st' r)))"
    proof
      assume "q \<noteq> 1"
      with fi q obtain r where r: "r \<in> set (process_table st)" "p_parent (procs st q) = Some r"
        "q \<in> set (p_children (procs st r))" unfolding family_inv_def by blast
      with cc have "r \<noteq> c" by auto
      with r q show "\<exists>r \<in> set (removeAll c (process_table st)). p_parent (procs st q) = Some r \<and> q \<in> set (p_children (procs st' r))"
        by (intro bexI [of _ r]) (auto simp: chp)
    qed
    fix x assume x: "x \<in> set (p_children (procs st' q))"
    then have "x \<in> set (p_children (procs st q))" "q = p \<longrightarrow> x \<noteq> c" by (auto simp: chp split: if_splits)
    with ch [OF q(1)] cp have "x \<in> set (process_table st)" "p_parent (procs st x) = Some q" "x \<noteq> c" by auto
    then show "x \<in> set (removeAll c (process_table st))" "p_parent (procs st x) = Some q" by simp_all
  qed
  with i' have li: "l_inv st'" by (simp add: l_inv_def)
  have "destroyed_vms st' = destroyed_vms st @ [p_vm (procs st c)]" by (simp add: st'_def unlink_child_fields f2)
  moreover have "p_group (procs st' q) = p_group (procs st q)" if "q \<noteq> c" for q using that by (simp add: pr' pr2)
  ultimately show thesis using that [OF r li t'(1)] chp by simp
qed


subsection \<open>Every system call keeps the invariant\<close>

lemma more_next_tid: "pstate.more st' = pstate.more st \<Longrightarrow> next_tid st' = next_tid (st :: lstate)"
  by (cases st, cases st') auto

lemma family_inv_cong:
  assumes "family_inv st" and "process_table st' = process_table st" and "next_tid st \<le> next_tid st'"
    and "\<And>q. p_parent (procs st' q) = p_parent (procs st q) \<and> p_children (procs st' q) = p_children (procs st q)
          \<and> p_status (procs st' q) = p_status (procs st q)"
  shows "family_inv st'"
proof -
  have "is_zombie q st' = is_zombie q st" for q using assms(4) by (simp add: is_zombie_def)
  then show ?thesis using assms(1,3) unfolding family_inv_def assms(2) by (simp add: assms(4)) fastforce
qed

lemma same_ids_family:
  assumes "same_ids p st st'" and "family_inv st"
  shows "family_inv st'"
proof (rule family_inv_cong [OF assms(2)])
  show "process_table st' = process_table st" "next_tid st \<le> next_tid st'"
    using assms(1) more_next_tid [of st' st] by (auto simp: same_ids_def)
  show "p_parent (procs st' q) = p_parent (procs st q) \<and> p_children (procs st' q) = p_children (procs st q)
      \<and> p_status (procs st' q) = p_status (procs st q)" for q
    using assms(1) by (cases "q = p") (auto simp: same_ids_def)
qed

lemma sys_setpgid_inv:
  assumes inv: "l_inv st" and r: "sys_setpgid current a b st = Ok st'"
  shows "l_inv st'"
proof -
  define p where "p = (if a = 0 then current else a)"
  define k where "k = (if b = 0 then p else b)"
  have "p \<in> set (process_table st) \<and> to_other_group p k st = Ok st'"
    using r unfolding sys_setpgid_def Let_def p_def [symmetric] k_def [symmetric]
    by (auto simp: get_process_def split: if_splits)
  with to_other_group_cases [of st p k] inv show ?thesis
    by (auto simp: l_inv_def same_ids_family split: if_splits)
qed

lemma sys_setsid_inv:
  assumes inv: "l_inv st" and p: "current \<in> set (process_table st)" and r: "sys_setsid current st = Ok (i, st')"
  shows "l_inv st'"
proof -
  from inv have pg: "pg_inv st" by (simp add: l_inv_def)
  from is_session_leader_total [OF pg p] obtain b where b: "is_session_leader current st = Ok b" ..
  from member_group [OF pg p] obtain s where s: "session_of current st = Some s" by auto
  show ?thesis
  proof (cases b)
    case True
    with b r s inv show ?thesis by (simp add: sys_setsid_def to_new_session_def unwrap_opt_def)
  next
    case nl: False
    with b r s have f: "\<not> is_group_leader current st" "map_of (session_table st) current = None" "map_of (group_table st) current = None"
      by (auto simp: sys_setsid_def to_new_session_def unwrap_opt_def split: if_splits)
    from nl b have "is_session_leader current st = Ok False" by simp
    from to_new_session_total [OF pg p this f] obtain s' st'' where "to_new_session current st = Ok (s', st'')"
      "pg_inv st''" "same_ids current st st''" by blast
    with r inv show ?thesis by (auto simp: sys_setsid_def l_inv_def same_ids_family)
  qed
qed

lemma clone_child_thread_inv:
  assumes inv: "l_inv st" and wrap: "next_tid st + 1 < 2 ^ 32"
    and r: "clone_child_thread env args ctx current cur_tid st = Ok (tid, st')"
  shows "l_inv st'"
proof -
  obtain t st1 where g: "allocate_tid st = (t, st1)" by (meson surj_pair)
  from r obtain c where h: "settid_steps env args t (upd_proc current (\<lambda>x. x\<lparr>p_threads := p_threads x @ [(t, False)]\<rparr>)
      (build_thread t c (sig_masks st1 cur_tid) st1)) = Ok st'"
    by (auto simp: clone_child_thread_def Let_def g split: if_splits)
  let ?b = "build_thread t c (sig_masks st1 cur_tid) st1"
  have c1: "core_eq st1 st" "next_tid st1 = next_tid st + 1" using clone_parts_core(5) [OF g] wrap by auto
  have c2: "core_eq ?b st1" "next_tid ?b = next_tid st1" using clone_parts_core(6) by auto
  have c3: "core_eq st' (upd_proc current (\<lambda>x. x\<lparr>p_threads := p_threads x @ [(t, False)]\<rparr>) ?b)" "next_tid st' = next_tid ?b"
    using clone_parts_core(7) [OF h] by (auto simp: upd_proc_def)
  have p: "p_group (procs st' q) = p_group (procs st q)" "p_parent (procs st' q) = p_parent (procs st q)
     \<and> p_children (procs st' q) = p_children (procs st q) \<and> p_status (procs st' q) = p_status (procs st q)" for q
    using c1 c2 c3 by (auto simp: core_eq_def)
  have "pg_inv st'" using inv c1 c2 c3 p(1) by (subst pg_inv_ex_cong [of st]) (auto simp: core_eq_def l_inv_def)
  moreover have "family_inv st'"
    using inv c1 c2 c3 p(2) by (intro family_inv_cong [of st st']) (auto simp: core_eq_def l_inv_def)
  ultimately show ?thesis by (simp add: l_inv_def)
qed

lemma wait_child_exit_cases:
  assumes inv: "l_inv st" and p: "p \<in> set (process_table st)"
  shows "wait_child_exit (Ok ()) p f opts st = None \<or> wait_child_exit (Ok ()) p f opts st = Some (Err ECHILD)
    \<or> (\<exists>r st'. wait_child_exit (Ok ()) p f opts st = Some (Ok (r, st')) \<and> l_inv st')"
proof -
  let ?u = "filter (filter_matches f st) (p_children (procs st p))"
  show ?thesis
  proof (cases "find (\<lambda>c. is_zombie c st) ?u")
    case None
    then show ?thesis using inv by (simp add: wait_child_exit_def Let_def)
  next
    case (Some z)
    then have z: "z \<in> set (p_children (procs st p))" "is_zombie z st" "?u \<noteq> []"
      by (auto dest: find_SomeD)
    then obtain ts where ts: "p_status (procs st z) = Zombie ts" by (cases "p_status (procs st z)") (auto simp: is_zombie_def)
    obtain st' where "reap_zombie_child (Ok ()) p z st = Ok (as_u32 ts, st')" "l_inv st'"
      by (rule reap_spec [OF inv p z(1) ts], rule that)
    with Some z(3) ts inv show ?thesis by (auto simp: wait_child_exit_def Let_def unwrap_opt_def)
  qed
qed


section \<open>Reachable states\<close>

text \<open>The state after the first user process was created: it has pid 1, the next tid is 2.\<close>

definition boot_state :: lstate where
  "boot_state = create_user_process (empty_process\<lparr>p_threads := [(1, False)]\<rparr>) 1
     (pstate.extend ps_empty (lstate.fields 2 [1] (\<lambda>_. \<lparr>cc_rax = 0, cc_rsp = 0, cc_fsbase = 0, cc_rest = []\<rparr>) (\<lambda>_. 0) (\<lambda>_. 0) 1
        (\<lambda>_. [10, 11, 12]) (\<lambda>_. 0) (\<lambda>_. []) [] [] []))"

text \<open>One system call of a live process; a call that fails leaves the state. Fewer than \<open>2\<^sup>3\<^sup>2\<close> threads are
  created.\<close>

inductive lstep :: "lstate \<Rightarrow> lstate \<Rightarrow> bool" where
  clone: "current \<in> set (process_table st) \<Longrightarrow> \<not> is_zombie current st \<Longrightarrow> next_tid st + 1 < 2 ^ 32 \<Longrightarrow>
    sys_clone env flags sp ptid ctid t ctx current cur_tid st = Ok (tid, st') \<Longrightarrow> lstep st st'"
| fork: "current \<in> set (process_table st) \<Longrightarrow> \<not> is_zombie current st \<Longrightarrow> next_tid st + 1 < 2 ^ 32 \<Longrightarrow>
    sys_fork env ctx current cur_tid st = Ok (tid, st') \<Longrightarrow> lstep st st'"
| setpgid: "current \<in> set (process_table st) \<Longrightarrow> sys_setpgid current a b st = Ok st' \<Longrightarrow> lstep st st'"
| setsid: "current \<in> set (process_table st) \<Longrightarrow> sys_setsid current st = Ok (i, st') \<Longrightarrow> lstep st st'"
| exit: "current \<in> set (process_table st) \<Longrightarrow> lstep st (do_exit_group current ts st)"
| wait: "current \<in> set (process_table st) \<Longrightarrow>
    sys_wait4 (Ok ()) write current wait_pid ptr opts st = Some (Ok (r, st')) \<Longrightarrow> lstep st st'"

inductive reachable :: "lstate \<Rightarrow> bool" where
  boot: "reachable boot_state"
| step: "reachable st \<Longrightarrow> lstep st st' \<Longrightarrow> reachable st'"

lemmas boot_state_simps = boot_state_def create_user_process_def enter_new_session_def alloc_group_def alloc_session_def
  ps_empty_def empty_process_def process_group_new_def session_new_def Let_def upd_defs pstate.defs lstate.defs
  pid_insert_def

lemma boot_inv: "l_inv boot_state"
proof -
  have "pg_inv boot_state"
    by (auto simp: boot_state_simps pg_inv_ex_def member_ok_def group_ok_def session_ok_def split: if_splits)
  moreover have "family_inv boot_state"
    by (simp add: boot_state_simps family_inv_def)
  ultimately show ?thesis by (simp add: l_inv_def)
qed

lemma unwrap_res_eq [simp]: "unwrap_res r = Ok x \<longleftrightarrow> r = Ok x"
  by (cases r) (auto simp: unwrap_res_def)

lemma clone_child_inv:
  assumes "l_inv st" and "current \<in> set (process_table st)" and "\<not> is_zombie current st" and "next_tid st + 1 < 2 ^ 32"
    and "clone_child env args ctx current cur_tid st = Ok (tid, st')"
  shows "l_inv st'"
  using assms clone_child_thread_inv [of st] clone_child_process_inv(1) [OF assms(1-4)]
  by (auto simp: clone_child_def split: if_splits)

lemma sys_wait4_inv:
  assumes "l_inv st" and "current \<in> set (process_table st)"
    and "sys_wait4 (Ok ()) write current wait_pid ptr opts st = Some (Ok (r, st'))"
  shows "l_inv st'"
proof -
  from assms(3) obtain f wo r0 where "wait_child_exit (Ok ()) current f wo st = Some (Ok (r0, st'))"
    by (auto simp: sys_wait4_def split: option.splits sum.splits if_splits)
  with wait_child_exit_cases [OF assms(1,2), of f wo] show ?thesis by auto
qed

lemma lstep_inv: "lstep st st' \<Longrightarrow> l_inv st \<Longrightarrow> l_inv st'"
  by (induction rule: lstep.induct)
    (auto simp: sys_clone_def sys_fork_def intro: clone_child_inv sys_setpgid_inv sys_setsid_inv do_exit_group_inv sys_wait4_inv)

lemma reachable_inv: "reachable st \<Longrightarrow> l_inv st"
  by (induction rule: reachable.induct) (auto intro: boot_inv lstep_inv)


lemma boot_table: "process_table boot_state = [1]"
  by (simp add: boot_state_simps)



section \<open>Examples\<close>

definition example_clone_env :: clone_env where
  "example_clone_env = \<lparr>write_parent = (\<lambda>_. Ok ()), write_child = (\<lambda>_. Ok ()), fork_vm = Ok (), thread_name = Ok ()\<rparr>"
definition example_ctx :: clone_context where
  "example_ctx = \<lparr>cc_rax = 0, cc_rsp = 0, cc_fsbase = 0, cc_rest = []\<rparr>"


lemmas group_eval = session_of_def proc_group_def pgid_of_def upgrade_group_def group_alive_def upgrade_session_def
  session_alive_def unwrap_opt_def is_session_leader_def is_group_leader_def
lemmas clone_eval = sys_fork_def clone_child_def clone_child_process_def clone_vm_def clone_files_def clone_fs_def clone_sighand_def
  alloc_arc_def allocate_tid_def settid_steps_def clone_parent_settid_def clone_child_settid_def clone_child_cleartid_def
  build_thread_def set_parent_and_group_def check_unsupported_flags_def clone_args_default_def has_flag_def clone_cpu_context_def
  clone_flag_defs example_clone_env_def example_ctx_def unwrap_res_def


lemma bind_res_weak_cong: "m = m' \<Longrightarrow> bind_res m f = bind_res m' f" by simp





subsection \<open>A concrete fork\<close>

lemma boot_fork:
  "\<exists>st. sys_fork example_clone_env example_ctx 1 1 boot_state = Ok (2, st) \<and> \<not> is_zombie 1 st"
  by (simp add: clone_eval group_eval boot_state_simps is_zombie_def cong: let_weak_cong bind_res_weak_cong)

lemma clone_vm_boot:
  "\<exists>st. clone_child_process example_clone_env (clone_args_default\<lparr>clone_flags := 0x500, new_sp := 4096\<rparr>) example_ctx 1 1 boot_state
     = Ok (2, st)"
  by (simp add: clone_eval group_eval boot_state_simps cong: let_weak_cong bind_res_weak_cong)

lemma forked_child:
  "\<exists>st. reachable st \<and> 1 \<in> set (process_table st) \<and> 2 \<in> set (p_children (procs st 1)) \<and> \<not> is_zombie 2 st \<and> \<not> is_zombie 1 st"
proof -
  from boot_fork obtain st where r: "sys_fork example_clone_env example_ctx 1 1 boot_state = Ok (2, st)" and z: "\<not> is_zombie 1 st" by blast
  have b: "1 \<in> set (process_table boot_state)" "\<not> is_zombie 1 boot_state" "next_tid boot_state + 1 < 2 ^ 32"
    by (simp_all add: boot_state_simps is_zombie_def)
  have "clone_child_process example_clone_env clone_args_default example_ctx 1 1 boot_state = Ok (2, st)"
    using r by (simp add: sys_fork_def clone_child_def clone_args_default_def has_flag_def clone_flag_defs)
  note k = clone_child_process_inv [OF boot_inv b this]
  have "reachable st" using reachable.step [OF reachable.boot lstep.fork [OF b r]] .
  with k z b(1) show ?thesis by (auto simp: k(3))
qed
section \<open>Exit and wait\<close>

text \<open>The decoding of a wait status as \<open>wait(2)\<close> describes it.\<close>

definition decode_status :: "u32 \<Rightarrow> TermStatus" where
  "decode_status code = (if code AND 0x7f = 0 then Exited (ucast (drop_bit 8 code)) else Killed (unat (code AND 0x7f)))"

fun term_status_ok :: "TermStatus \<Rightarrow> bool" where
  "term_status_ok (Exited _) = True"
| "term_status_ok (Killed n) \<longleftrightarrow> 1 \<le> n \<and> n \<le> 64"

lemma decode_as_u32:
  assumes "term_status_ok ts"
  shows "decode_status (as_u32 ts) = ts"
proof (cases ts)
  case (Exited s)
  have "push_bit 8 (ucast s :: u32) AND 0x7f = 0"
  proof (rule bit_word_eqI)
    fix n assume "n < LENGTH(32)"
    have "bit (0x7f :: u32) n \<Longrightarrow> n < 7"
    proof -
      have "(0x7f :: u32) = mask 7" by (simp add: mask_eq_exp_minus_1)
      then show "bit (0x7f :: u32) n \<Longrightarrow> n < 7" by (simp add: bit_mask_iff)
    qed
    then show "bit (push_bit 8 (ucast s :: u32) AND 0x7f) n = bit (0 :: u32) n"
      by (auto simp: bit_and_iff bit_push_bit_iff)
  qed
  moreover have "ucast (drop_bit 8 (push_bit 8 (ucast s :: u32))) = s"
    by (rule bit_word_eqI) (auto simp: bit_simps)
  ultimately show ?thesis using Exited by (simp add: decode_status_def)
next
  case (Killed n)
  with assms have n: "1 \<le> n" "n \<le> 64" by auto
  have "unat ((of_nat n :: u32) AND 0x7f) = n"
  proof -
    have "(0x7f :: u32) = mask 7" by (simp add: mask_eq_exp_minus_1)
    then have "(of_nat n :: u32) AND 0x7f = take_bit 7 (of_nat n)" by (simp add: take_bit_eq_mask)
    moreover have "unat (take_bit 7 (of_nat n :: u32)) = n"
      using n by (simp add: unsigned_take_bit_eq unat_of_nat take_bit_nat_eq_self)
    ultimately show ?thesis by simp
  qed
  moreover from this n have "(of_nat n :: u32) AND 0x7f \<noteq> 0" by auto
  ultimately show ?thesis using Killed by (simp add: decode_status_def)
qed

lemma find_filter_single:
  "c \<in> set xs \<Longrightarrow> P c \<Longrightarrow> find P (filter (\<lambda>x. x = c) xs) = Some c"
  by (induction xs) auto

lemma filter_matches_WithPid: "filter_matches (WithPid c) st = (\<lambda>x. x = c)"
  by (rule ext) (simp add: filter_matches_def)

lemma wait_running_child:
  assumes "c \<in> set (p_children (procs st p))" and "\<not> is_zombie c st"
  shows "wait_child_exit (Ok ()) p (WithPid c) 0 st = None"
proof -
  have "filter (filter_matches (WithPid c) st) (p_children (procs st p)) \<noteq> []"
    using assms(1) by (auto simp: filter_empty_conv filter_matches_def)
  moreover have "find (\<lambda>d. is_zombie d st) (filter (filter_matches (WithPid c) st) (p_children (procs st p))) = None"
    using assms(2) by (auto simp: find_None_iff filter_matches_def)
  ultimately show ?thesis by (simp add: wait_child_exit_def Let_def has_flag_def WNOHANG_def)
qed

lemma wait_zombie_child:
  assumes inv: "l_inv st" and p: "p \<in> set (process_table st)" and c: "c \<in> set (p_children (procs st p))"
    and z: "p_status (procs st c) = Zombie ts"
  obtains st' where "wait_child_exit (Ok ()) p (WithPid c) 0 st = Some (Ok ((c, as_u32 ts), st'))" and "l_inv st'"
    and "process_table st' = removeAll c (process_table st)" and "p_vm (procs st c) \<in> set (destroyed_vms st')"
proof -
  obtain st' where r: "reap_zombie_child (Ok ()) p c st = Ok (as_u32 ts, st')" "l_inv st'"
    "process_table st' = removeAll c (process_table st)" "destroyed_vms st' = destroyed_vms st @ [p_vm (procs st c)]"
    by (rule reap_spec [OF inv p c z], rule that)
  have "filter (filter_matches (WithPid c) st) (p_children (procs st p)) = filter (\<lambda>x. x = c) (p_children (procs st p))"
    by (simp add: filter_matches_WithPid)
  moreover have "find (\<lambda>d. is_zombie d st) (filter (\<lambda>x. x = c) (p_children (procs st p))) = Some c"
    using c z by (intro find_filter_single) (auto simp: is_zombie_def)
  moreover have "filter (\<lambda>x. x = c) (p_children (procs st p)) \<noteq> []" using c by (auto simp: filter_empty_conv)
  ultimately have "wait_child_exit (Ok ()) p (WithPid c) 0 st = Some (Ok ((c, as_u32 ts), st'))"
    using r(1) z by (simp add: wait_child_exit_def Let_def unwrap_opt_def has_flag_def WNOWAIT_def)
  with r show thesis by (intro that) auto
qed

lemma exit_wait_code:
  assumes "reachable st" and p: "p \<in> set (process_table st)" and c: "c \<in> set (p_children (procs st p))" and nz: "\<not> is_zombie c st"
  shows "c \<noteq> p \<Longrightarrow> \<exists>st2. wait_child_exit (Ok ()) p (WithPid c) 0 (do_exit_group c ts st) = Some (Ok ((c, as_u32 ts), st2))"
proof -
  assume cp: "c \<noteq> p"
  have inv: "l_inv st" by (rule reachable_inv) fact
  then have fi: "family_inv st" by (simp add: l_inv_def)
  then have i: "1 \<in> set (process_table st)" "p_parent (procs st 1) = None" by (simp_all add: family_inv_def)
  have "c \<in> set (process_table st) \<and> p_parent (procs st c) = Some p" using fi p c unfolding family_inv_def by blast
  with i have cT: "c \<in> set (process_table st)" and c1: "c \<noteq> 1" by auto
  let ?st = "do_exit_group c ts st"
  note e = do_exit_group_effect [OF nz i(1), where ts = ts]
  have "l_inv ?st" by (rule do_exit_group_inv [OF inv cT])
  moreover have "p \<in> set (process_table ?st)" "c \<in> set (p_children (procs ?st p))" "p_status (procs ?st c) = Zombie ts"
    using p c c1 cp by (auto simp: e(2,4,7))
  ultimately obtain st2 where "wait_child_exit (Ok ()) p (WithPid c) 0 ?st = Some (Ok ((c, as_u32 ts), st2))"
    by (rule wait_zombie_child)
  then show ?thesis by blast
qed










subsection \<open>A stale group\<close>

definition live :: "pid \<Rightarrow> (lstate \<Rightarrow> 'a res) \<Rightarrow> lstate \<Rightarrow> 'a res" where
  "live p f st = (if p \<in> set (process_table st) \<and> \<not> is_zombie p st \<and> next_tid st + 1 < 2 ^ 32 then f st else panic)"

definition cross_trace :: "lstate res" where
  "cross_trace =
    bind_res (live 1 (sys_fork example_clone_env example_ctx 1 1) boot_state) (\<lambda>(_, st1).
    bind_res (live 1 (sys_fork example_clone_env example_ctx 1 1) st1) (\<lambda>(_, st2).
    bind_res (live 1 (sys_setpgid 1 2 2) st2) (\<lambda>st3.
    bind_res (live 2 (sys_setpgid 2 0 1) st3) (\<lambda>st4.
    bind_res (live 2 (sys_setsid 2) st4) (\<lambda>(_, st5). Ok st5)))))"

lemma live_reachable:
  "reachable st \<Longrightarrow> live p (sys_fork env ctx p t) st = Ok (i, st') \<Longrightarrow> reachable st'"
  "reachable st \<Longrightarrow> live p (sys_setpgid p a b) st = Ok st' \<Longrightarrow> reachable st'"
  "reachable st \<Longrightarrow> live p (sys_setsid p) st = Ok (i, st') \<Longrightarrow> reachable st'"
  by (metis live_def Inl_Inr_False reachable.step lstep.fork, metis live_def Inl_Inr_False reachable.step lstep.setpgid,
      metis live_def Inl_Inr_False reachable.step lstep.setsid)

lemma cross_trace_reachable:
  assumes "cross_trace = Ok st"
  shows "reachable st"
proof -
  from assms obtain i1 st1 i2 st2 st3 st4 i5 where
    "live 1 (sys_fork example_clone_env example_ctx 1 1) boot_state = Ok (i1, st1)"
    "live 1 (sys_fork example_clone_env example_ctx 1 1) st1 = Ok (i2, st2)" "live 1 (sys_setpgid 1 2 2) st2 = Ok st3"
    "live 2 (sys_setpgid 2 0 1) st3 = Ok st4" "live 2 (sys_setsid 2) st4 = Ok (i5, st)"
    unfolding cross_trace_def by (auto simp del: One_nat_def)
  then show ?thesis using reachable.boot live_reachable by metis
qed

lemmas setpgid_eval = sys_setpgid_def to_other_group_def to_new_group_def to_specified_group_def leave_group_def enter_new_group_def
  get_process_def get_process_group_def contain_process_group_def contains_process_group_def sys_setsid_def to_new_session_def
  enter_new_session_def alloc_group_def alloc_session_def process_group_new_def session_new_def g_remove_process_def g_is_empty_def
  s_is_empty_def s_remove_process_def

lemma cross_trace_eval:
  "\<exists>st st'. cross_trace = Ok st \<and> sys_setpgid 1 3 2 st = Ok st' \<and> session_of 3 st = session_of 1 st
     \<and> session_of 2 st \<noteq> session_of 1 st \<and> session_of 3 st' = session_of 2 st"
  by (simp add: cross_trace_def live_def is_zombie_def clone_eval group_eval setpgid_eval upd_defs pid_insert_def boot_state_simps Let_def
     cong: let_weak_cong bind_res_weak_cong)


end
