(* ===== verification/Channel.thy ===== *)
theory Channel
  imports File_Table
begin

text \<open>
  Pollees (\<open>process/signal/poll.rs\<close>, \<open>events/io_events.rs\<close>) and the channels behind pipes and sockets
  (\<open>fs/utils/channel.rs\<close>).

  The ring buffer of a channel comes from the \<open>ringbuf\<close> crate, so its operations are a parameter \<open>ops\<close> of
  the definitions; \<open>ringbuf_ok ops contents\<close> is what its documentation promises, in terms of the sequence
  \<open>contents b\<close> of the buffered items. Observers are addresses, as in the theory of subjects; \<open>alive\<close> tells which
  can still be upgraded, and \<open>ch_called\<close> lists the observers called.

  \<open>Producer::write\<close> and \<open>Consumer::read\<close> retry \<open>try_write\<close> and \<open>try_read\<close>; one attempt gives \<open>None\<close> when the
  caller has to wait. The second half of the theory splits the operations into the steps between which
  other threads run: the guard that \<open>lock_event\<close> returns is dropped at once, so \<open>update_pollee\<close> is not a
  critical region.
\<close>

section \<open>Pollees\<close>

definition IO_IN :: u32 where "IO_IN = 0x0001"
definition IO_OUT :: u32 where "IO_OUT = 0x0004"
definition IO_ERR :: u32 where "IO_ERR = 0x0008"
definition IO_HUP :: u32 where "IO_HUP = 0x0010"
definition ALWAYS_POLL :: u32 where "ALWAYS_POLL = IO_ERR OR IO_HUP"

lemmas io_event_defs = IO_IN_def IO_OUT_def IO_ERR_def IO_HUP_def ALWAYS_POLL_def

definition io_events_filter :: "u32 \<Rightarrow> u32 \<Rightarrow> bool" where
  "io_events_filter f ev \<longleftrightarrow> f AND ev \<noteq> 0"

record pollee =
  pe_subject :: "u32 subject"
  pe_events :: u32

definition pollee_new :: "u32 \<Rightarrow> pollee" where
  "pollee_new init = \<lparr>pe_subject = subject_new, pe_events = init\<rparr>"

definition pollee_poll :: "u32 \<Rightarrow> nat option \<Rightarrow> pollee \<Rightarrow> u32 \<times> pollee" where
  "pollee_poll msk poller p =
    (let m = msk OR ALWAYS_POLL; revents = pe_events p AND m
     in if revents \<noteq> 0 then (revents, p)
        else case poller of None \<Rightarrow> (revents, p)
          | Some ob \<Rightarrow> let p1 = p\<lparr>pe_subject := register_observer ob m (pe_subject p)\<rparr> in (pe_events p1 AND m, p1))"

definition pollee_register_observer :: "nat \<Rightarrow> u32 \<Rightarrow> pollee \<Rightarrow> pollee" where
  "pollee_register_observer ob msk p = p\<lparr>pe_subject := register_observer ob (msk OR ALWAYS_POLL) (pe_subject p)\<rparr>"

definition pollee_unregister_observer :: "nat \<Rightarrow> pollee \<Rightarrow> nat option \<times> pollee" where
  "pollee_unregister_observer ob p = (let (r, s) = unregister_observer ob (pe_subject p) in (r, p\<lparr>pe_subject := s\<rparr>))"

definition pollee_add_events :: "(nat \<Rightarrow> bool) \<Rightarrow> u32 \<Rightarrow> pollee \<Rightarrow> nat list \<times> pollee" where
  "pollee_add_events alive ev p =
    (let (called, s) = notify_observers alive io_events_filter ev (pe_subject p)
     in (called, p\<lparr>pe_events := pe_events p OR ev, pe_subject := s\<rparr>))"

definition pollee_del_events :: "u32 \<Rightarrow> pollee \<Rightarrow> pollee" where
  "pollee_del_events ev p = p\<lparr>pe_events := pe_events p AND NOT ev\<rparr>"

section \<open>Channels\<close>

record ('a, 'b) rb_ops =
  rb_new :: "nat \<Rightarrow> 'b"
  rb_push_slice :: "'a list \<Rightarrow> 'b \<Rightarrow> nat \<times> 'b"
  rb_pop_slice :: "nat \<Rightarrow> 'b \<Rightarrow> 'a list \<times> 'b"
  rb_is_full :: "'b \<Rightarrow> bool"
  rb_is_empty :: "'b \<Rightarrow> bool"
  rb_capacity :: "'b \<Rightarrow> nat"

record 'b channel =
  ch_rb :: 'b
  ch_prod_pollee :: pollee
  ch_cons_pollee :: pollee
  ch_prod_shutdown :: bool
  ch_cons_shutdown :: bool
  ch_prod_flags :: u32
  ch_cons_flags :: u32
  ch_called :: "nat list"

definition check_status_flags :: "u32 \<Rightarrow> unit res" where
  "check_status_flags flags =
    (if flags AND NOT (O_NONBLOCK OR O_DIRECT) \<noteq> 0 then Err EINVAL
     else if flags AND O_DIRECT = O_DIRECT then Err EINVAL else Ok ())"

definition channel_with_capacity_and_flags :: "('a, 'b) rb_ops \<Rightarrow> nat \<Rightarrow> u32 \<Rightarrow> 'b channel res" where
  "channel_with_capacity_and_flags ops capacity flags =
    bind_res (check_status_flags flags) (\<lambda>_.
    if capacity = 0 then Err EINVAL
    else Ok \<lparr>ch_rb = rb_new ops capacity, ch_prod_pollee = pollee_new IO_OUT, ch_cons_pollee = pollee_new 0,
             ch_prod_shutdown = False, ch_cons_shutdown = False, ch_prod_flags = flags, ch_cons_flags = flags,
             ch_called = []\<rparr>)"

definition is_nonblocking :: "u32 \<Rightarrow> bool" where
  "is_nonblocking flags \<longleftrightarrow> flags AND O_NONBLOCK = O_NONBLOCK"

definition cons_add_events :: "(nat \<Rightarrow> bool) \<Rightarrow> u32 \<Rightarrow> 'b channel \<Rightarrow> 'b channel" where
  "cons_add_events alive ev ch =
    (let (called, p) = pollee_add_events alive ev (ch_cons_pollee ch)
     in ch\<lparr>ch_cons_pollee := p, ch_called := ch_called ch @ called\<rparr>)"

definition prod_add_events :: "(nat \<Rightarrow> bool) \<Rightarrow> u32 \<Rightarrow> 'b channel \<Rightarrow> 'b channel" where
  "prod_add_events alive ev ch =
    (let (called, p) = pollee_add_events alive ev (ch_prod_pollee ch)
     in ch\<lparr>ch_prod_pollee := p, ch_called := ch_called ch @ called\<rparr>)"

definition cons_del_events :: "u32 \<Rightarrow> 'b channel \<Rightarrow> 'b channel" where
  "cons_del_events ev ch = ch\<lparr>ch_cons_pollee := pollee_del_events ev (ch_cons_pollee ch)\<rparr>"

definition prod_del_events :: "u32 \<Rightarrow> 'b channel \<Rightarrow> 'b channel" where
  "prod_del_events ev ch = ch\<lparr>ch_prod_pollee := pollee_del_events ev (ch_prod_pollee ch)\<rparr>"

definition prod_update_pollee :: "('a, 'b) rb_ops \<Rightarrow> (nat \<Rightarrow> bool) \<Rightarrow> 'b channel \<Rightarrow> 'b channel" where
  "prod_update_pollee ops alive ch =
    (let ch1 = (if rb_is_full ops (ch_rb ch) then prod_del_events IO_OUT ch else ch)
     in if \<not> rb_is_empty ops (ch_rb ch1) then cons_add_events alive IO_IN ch1 else ch1)"

definition cons_update_pollee :: "('a, 'b) rb_ops \<Rightarrow> (nat \<Rightarrow> bool) \<Rightarrow> 'b channel \<Rightarrow> 'b channel" where
  "cons_update_pollee ops alive ch =
    (let ch1 = (if rb_is_empty ops (ch_rb ch) then cons_del_events IO_IN ch else ch)
     in if \<not> rb_is_full ops (ch_rb ch1) then prod_add_events alive IO_OUT ch1 else ch1)"

definition ch_try_write :: "('a, 'b) rb_ops \<Rightarrow> (nat \<Rightarrow> bool) \<Rightarrow> 'a list \<Rightarrow> 'b channel \<Rightarrow> nat res \<times> 'b channel" where
  "ch_try_write ops alive buf ch =
    (if ch_prod_shutdown ch \<or> ch_cons_shutdown ch then (Err EPIPE, ch)
     else if buf = [] then (Ok 0, ch)
     else let (n, b) = rb_push_slice ops buf (ch_rb ch);
              ch1 = prod_update_pollee ops alive (ch\<lparr>ch_rb := b\<rparr>)
          in if n > 0 then (Ok n, ch1) else (Err EAGAIN, ch1))"

text \<open>The items read are those the code stores in the caller's buffer of \<open>n\<close> places.\<close>

definition ch_try_read :: "('a, 'b) rb_ops \<Rightarrow> (nat \<Rightarrow> bool) \<Rightarrow> nat \<Rightarrow> 'b channel \<Rightarrow> 'a list res \<times> 'b channel" where
  "ch_try_read ops alive n ch =
    (if ch_cons_shutdown ch then (Err EPIPE, ch)
     else if n = 0 then (Ok [], ch)
     else let (xs, b) = rb_pop_slice ops n (ch_rb ch);
              ch1 = cons_update_pollee ops alive (ch\<lparr>ch_rb := b\<rparr>)
          in if ch_prod_shutdown ch1 then (Ok xs, ch1)
             else if length xs > 0 then (Ok xs, ch1) else (Err EAGAIN, ch1))"

fun should_io_return :: "'a res \<Rightarrow> bool \<Rightarrow> bool" where
  "should_io_return r True = True"
| "should_io_return (Inr _) False = True"
| "should_io_return (Inl (Errno EAGAIN)) False = False"
| "should_io_return (Inl _) False = True"

definition producer_write :: "('a, 'b) rb_ops \<Rightarrow> (nat \<Rightarrow> bool) \<Rightarrow> 'a list \<Rightarrow> 'b channel \<Rightarrow> nat res option \<times> 'b channel" where
  "producer_write ops alive buf ch =
    (let (r, ch1) = ch_try_write ops alive buf ch
     in (if should_io_return r (is_nonblocking (ch_prod_flags ch)) then Some r else None, ch1))"

definition consumer_read :: "('a, 'b) rb_ops \<Rightarrow> (nat \<Rightarrow> bool) \<Rightarrow> nat \<Rightarrow> 'b channel \<Rightarrow> 'a list res option \<times> 'b channel" where
  "consumer_read ops alive n ch =
    (let (r, ch1) = ch_try_read ops alive n ch
     in (if should_io_return r (is_nonblocking (ch_cons_flags ch)) then Some r else None, ch1))"

definition drop_producer :: "(nat \<Rightarrow> bool) \<Rightarrow> 'b channel \<Rightarrow> 'b channel" where
  "drop_producer alive ch = cons_add_events alive IO_HUP (ch\<lparr>ch_prod_shutdown := True\<rparr>)"

definition drop_consumer :: "(nat \<Rightarrow> bool) \<Rightarrow> 'b channel \<Rightarrow> 'b channel" where
  "drop_consumer alive ch = prod_add_events alive IO_ERR (ch\<lparr>ch_cons_shutdown := True\<rparr>)"

definition prod_set_status_flags :: "u32 \<Rightarrow> 'b channel \<Rightarrow> 'b channel res" where
  "prod_set_status_flags flags ch = bind_res (check_status_flags flags) (\<lambda>_. Ok (ch\<lparr>ch_prod_flags := flags\<rparr>))"

definition cons_set_status_flags :: "u32 \<Rightarrow> 'b channel \<Rightarrow> 'b channel res" where
  "cons_set_status_flags flags ch = bind_res (check_status_flags flags) (\<lambda>_. Ok (ch\<lparr>ch_cons_flags := flags\<rparr>))"

section \<open>Sequential behaviour\<close>

text \<open>The documented behaviour of the ring buffer.\<close>

definition ringbuf_ok :: "('a, 'b) rb_ops \<Rightarrow> ('b \<Rightarrow> 'a list) \<Rightarrow> bool" where
  "ringbuf_ok ops contents \<longleftrightarrow>
     (\<forall>c. contents (rb_new ops c) = [] \<and> rb_capacity ops (rb_new ops c) = c)
     \<and> (\<forall>xs b. let k = rb_capacity ops b - length (contents b); (n, b') = rb_push_slice ops xs b
              in n = min k (length xs) \<and> contents b' = contents b @ take k xs \<and> rb_capacity ops b' = rb_capacity ops b)
     \<and> (\<forall>n b. let (xs, b') = rb_pop_slice ops n b
              in xs = take n (contents b) \<and> contents b' = drop n (contents b) \<and> rb_capacity ops b' = rb_capacity ops b)
     \<and> (\<forall>b. rb_is_empty ops b \<longleftrightarrow> contents b = []) \<and> (\<forall>b. rb_is_full ops b \<longleftrightarrow> length (contents b) = rb_capacity ops b)"

text \<open>The events of the two ends tell whether the buffer holds data and whether it has room.\<close>

definition channel_inv :: "('a, 'b) rb_ops \<Rightarrow> ('b \<Rightarrow> 'a list) \<Rightarrow> 'b channel \<Rightarrow> bool" where
  "channel_inv ops contents ch \<longleftrightarrow>
     0 < rb_capacity ops (ch_rb ch) \<and> length (contents (ch_rb ch)) \<le> rb_capacity ops (ch_rb ch)
     \<and> (pe_events (ch_cons_pollee ch) AND IO_IN \<noteq> 0 \<longleftrightarrow> contents (ch_rb ch) \<noteq> [])
     \<and> (pe_events (ch_prod_pollee ch) AND IO_OUT \<noteq> 0 \<longleftrightarrow> length (contents (ch_rb ch)) < rb_capacity ops (ch_rb ch))
     \<and> (pe_events (ch_cons_pollee ch) AND IO_HUP \<noteq> 0 \<longleftrightarrow> ch_prod_shutdown ch)
     \<and> (pe_events (ch_prod_pollee ch) AND IO_ERR \<noteq> 0 \<longleftrightarrow> ch_cons_shutdown ch)"

datatype 'a chan_op = OpWrite "'a list" | OpRead nat | OpDropProducer | OpDropConsumer

text \<open>A run, with the items accepted by the writes and delivered by the reads so far.\<close>

fun chan_run :: "('a, 'b) rb_ops \<Rightarrow> (nat \<Rightarrow> bool) \<Rightarrow> 'a chan_op list \<Rightarrow> 'b channel \<times> 'a list \<times> 'a list \<Rightarrow>
    'b channel \<times> 'a list \<times> 'a list" where
  "chan_run ops alive [] s = s"
| "chan_run ops alive (OpWrite buf # os) (ch, w, r) =
     (let (n, ch') = ch_try_write ops alive buf ch
      in chan_run ops alive os (ch', (case n of Inr k \<Rightarrow> w @ take k buf | Inl _ \<Rightarrow> w), r))"
| "chan_run ops alive (OpRead n # os) (ch, w, r) =
     (let (xs, ch') = ch_try_read ops alive n ch
      in chan_run ops alive os (ch', w, (case xs of Inr ys \<Rightarrow> r @ ys | Inl _ \<Rightarrow> r)))"
| "chan_run ops alive (OpDropProducer # os) (ch, w, r) = chan_run ops alive os (drop_producer alive ch, w, r)"
| "chan_run ops alive (OpDropConsumer # os) (ch, w, r) = chan_run ops alive os (drop_consumer alive ch, w, r)"


subsection \<open>Lemmas\<close>

lemma and_single_bit: "(e :: u32) AND push_bit k 1 \<noteq> 0 \<longleftrightarrow> bit e k" if "k < 32"
  using that by (auto simp: bit_eq_iff [where ?a = "_ :: u32"] bit_simps)

lemma io_bits:
  "e AND IO_IN \<noteq> 0 \<longleftrightarrow> bit e 0" "e AND IO_OUT \<noteq> 0 \<longleftrightarrow> bit e 2"
  "e AND IO_ERR \<noteq> 0 \<longleftrightarrow> bit e 3" "e AND IO_HUP \<noteq> 0 \<longleftrightarrow> bit e 4"
  using and_single_bit [of 0 e] and_single_bit [of 2 e] and_single_bit [of 3 e] and_single_bit [of 4 e]
  by (simp_all add: io_event_defs)

lemma bit_io [simp]:
  "bit IO_IN 0" "\<not> bit IO_IN 2" "\<not> bit IO_IN 3" "\<not> bit IO_IN 4"
  "bit IO_OUT 2" "\<not> bit IO_OUT 0" "\<not> bit IO_OUT 3" "\<not> bit IO_OUT 4"
  "bit IO_ERR 3" "\<not> bit IO_ERR 0" "\<not> bit IO_ERR 2" "\<not> bit IO_ERR 4"
  "bit IO_HUP 4" "\<not> bit IO_HUP 0" "\<not> bit IO_HUP 2" "\<not> bit IO_HUP 3"
  by (simp_all add: io_event_defs)

lemma pe_events_simps [simp]:
  "pe_events (snd (pollee_add_events alive ev p)) = pe_events p OR ev"
  "pe_events (pollee_del_events ev p) = pe_events p AND NOT ev"
  by (simp_all add: pollee_add_events_def pollee_del_events_def split: prod.split)

lemma channel_event_simps [simp]:
  "pe_events (ch_cons_pollee (cons_add_events alive ev ch)) = pe_events (ch_cons_pollee ch) OR ev"
  "pe_events (ch_prod_pollee (prod_add_events alive ev ch)) = pe_events (ch_prod_pollee ch) OR ev"
  "ch_prod_pollee (cons_add_events alive ev ch) = ch_prod_pollee ch" "ch_cons_pollee (prod_add_events alive ev ch) = ch_cons_pollee ch"
  "pe_events (ch_cons_pollee (cons_del_events ev ch)) = pe_events (ch_cons_pollee ch) AND NOT ev"
  "pe_events (ch_prod_pollee (prod_del_events ev ch)) = pe_events (ch_prod_pollee ch) AND NOT ev"
  "ch_prod_pollee (cons_del_events ev ch) = ch_prod_pollee ch" "ch_cons_pollee (prod_del_events ev ch) = ch_cons_pollee ch"
  "ch_rb (cons_add_events alive ev ch) = ch_rb ch" "ch_rb (prod_add_events alive ev ch) = ch_rb ch"
  "ch_rb (cons_del_events ev ch) = ch_rb ch" "ch_rb (prod_del_events ev ch) = ch_rb ch"
  "ch_prod_shutdown (cons_add_events alive ev ch) = ch_prod_shutdown ch" "ch_prod_shutdown (prod_add_events alive ev ch) = ch_prod_shutdown ch"
  "ch_prod_shutdown (cons_del_events ev ch) = ch_prod_shutdown ch" "ch_prod_shutdown (prod_del_events ev ch) = ch_prod_shutdown ch"
  "ch_cons_shutdown (cons_add_events alive ev ch) = ch_cons_shutdown ch" "ch_cons_shutdown (prod_add_events alive ev ch) = ch_cons_shutdown ch"
  "ch_cons_shutdown (cons_del_events ev ch) = ch_cons_shutdown ch" "ch_cons_shutdown (prod_del_events ev ch) = ch_cons_shutdown ch"
  by (simp_all add: cons_add_events_def prod_add_events_def cons_del_events_def prod_del_events_def pollee_add_events_def
      pollee_del_events_def split: prod.split)

lemma ringbufD:
  assumes "ringbuf_ok ops contents"
  shows "contents (rb_new ops c) = []" and "rb_capacity ops (rb_new ops c) = c"
    and "rb_push_slice ops xs b = (n, b') \<Longrightarrow> n = min (rb_capacity ops b - length (contents b)) (length xs)
          \<and> contents b' = contents b @ take (rb_capacity ops b - length (contents b)) xs \<and> rb_capacity ops b' = rb_capacity ops b"
    and "rb_pop_slice ops m b = (ys, b') \<Longrightarrow> ys = take m (contents b) \<and> contents b' = drop m (contents b)
          \<and> rb_capacity ops b' = rb_capacity ops b"
    and "rb_is_empty ops b \<longleftrightarrow> contents b = []" and "rb_is_full ops b \<longleftrightarrow> length (contents b) = rb_capacity ops b"
  using assms by (auto simp: ringbuf_ok_def Let_def dest: spec split: prod.splits)

lemma prod_update_inv:
  assumes rb: "ringbuf_ok ops contents" and inv: "channel_inv ops contents ch"
    and b: "contents b = contents (ch_rb ch) @ ys" "rb_capacity ops b = rb_capacity ops (ch_rb ch)"
      "length (contents b) \<le> rb_capacity ops b"
  shows "channel_inv ops contents (prod_update_pollee ops alive (ch\<lparr>ch_rb := b\<rparr>))"
  using inv b unfolding channel_inv_def io_bits
  by (auto simp: prod_update_pollee_def Let_def ringbufD(5,6) [OF rb] bit_simps)

lemma cons_update_inv:
  assumes rb: "ringbuf_ok ops contents" and inv: "channel_inv ops contents ch"
    and b: "contents b = drop m (contents (ch_rb ch))" "rb_capacity ops b = rb_capacity ops (ch_rb ch)"
  shows "channel_inv ops contents (cons_update_pollee ops alive (ch\<lparr>ch_rb := b\<rparr>))"
  using inv b unfolding channel_inv_def io_bits
  by (auto simp: cons_update_pollee_def Let_def ringbufD(5,6) [OF rb] bit_simps)

lemma update_pollee_fields [simp]:
  "ch_rb (prod_update_pollee ops alive ch) = ch_rb ch" "ch_rb (cons_update_pollee ops alive ch) = ch_rb ch"
  "ch_prod_shutdown (prod_update_pollee ops alive ch) = ch_prod_shutdown ch" "ch_cons_shutdown (prod_update_pollee ops alive ch) = ch_cons_shutdown ch"
  "ch_prod_shutdown (cons_update_pollee ops alive ch) = ch_prod_shutdown ch" "ch_cons_shutdown (cons_update_pollee ops alive ch) = ch_cons_shutdown ch"
  by (simp_all add: prod_update_pollee_def cons_update_pollee_def Let_def)


lemma ch_try_write_spec:
  assumes rb: "ringbuf_ok ops contents" and inv: "channel_inv ops contents ch" and w: "ch_try_write ops alive buf ch = (r, ch')"
  shows "r = (if ch_prod_shutdown ch \<or> ch_cons_shutdown ch then Err EPIPE else if buf = [] then Ok 0
              else if length (contents (ch_rb ch)) = rb_capacity ops (ch_rb ch) then Err EAGAIN
              else Ok (min (rb_capacity ops (ch_rb ch) - length (contents (ch_rb ch))) (length buf)))"
    and "contents (ch_rb ch') = contents (ch_rb ch) @ (case r of Inr k \<Rightarrow> take k buf | Inl _ \<Rightarrow> [])"
    and "channel_inv ops contents ch'" and "rb_capacity ops (ch_rb ch') = rb_capacity ops (ch_rb ch)"
proof -
  obtain n b where p: "rb_push_slice ops buf (ch_rb ch) = (n, b)" by fastforce
  note pd = ringbufD(3) [OF rb p]
  have le: "length (contents (ch_rb ch)) \<le> rb_capacity ops (ch_rb ch)" using inv by (simp add: channel_inv_def)
  have i: "channel_inv ops contents (prod_update_pollee ops alive (ch\<lparr>ch_rb := b\<rparr>))"
    using pd le by (intro prod_update_inv [OF rb inv]) auto
  have tk: "take (min k (length buf)) buf = take k buf" for k by (metis min_def take_all_iff nle_le)
  show "r = (if ch_prod_shutdown ch \<or> ch_cons_shutdown ch then Err EPIPE else if buf = [] then Ok 0
              else if length (contents (ch_rb ch)) = rb_capacity ops (ch_rb ch) then Err EAGAIN
              else Ok (min (rb_capacity ops (ch_rb ch) - length (contents (ch_rb ch))) (length buf)))"
    using w pd le by (auto simp: ch_try_write_def p Let_def split: if_splits)
  show "contents (ch_rb ch') = contents (ch_rb ch) @ (case r of Inr k \<Rightarrow> take k buf | Inl _ \<Rightarrow> [])"
    using w pd le tk by (auto simp: ch_try_write_def p Let_def split: if_splits)
  show "channel_inv ops contents ch'" using w inv i by (auto simp: ch_try_write_def p Let_def split: if_splits)
  show "rb_capacity ops (ch_rb ch') = rb_capacity ops (ch_rb ch)"
    using w pd by (auto simp: ch_try_write_def p Let_def split: if_splits)
qed

lemma ch_try_read_spec:
  assumes rb: "ringbuf_ok ops contents" and inv: "channel_inv ops contents ch" and w: "ch_try_read ops alive n ch = (r, ch')"
  shows "r = (if ch_cons_shutdown ch then Err EPIPE else if n = 0 then Ok []
              else if contents (ch_rb ch) = [] \<and> \<not> ch_prod_shutdown ch then Err EAGAIN
              else Ok (take n (contents (ch_rb ch))))"
    and "contents (ch_rb ch) = (case r of Inr ys \<Rightarrow> ys | Inl _ \<Rightarrow> []) @ contents (ch_rb ch')"
    and "channel_inv ops contents ch'" and "rb_capacity ops (ch_rb ch') = rb_capacity ops (ch_rb ch)"
proof -
  obtain ys b where p: "rb_pop_slice ops n (ch_rb ch) = (ys, b)" by fastforce
  note pd = ringbufD(4) [OF rb p]
  have i: "channel_inv ops contents (cons_update_pollee ops alive (ch\<lparr>ch_rb := b\<rparr>))"
    using pd by (intro cons_update_inv [OF rb inv]) auto
  show "r = (if ch_cons_shutdown ch then Err EPIPE else if n = 0 then Ok []
              else if contents (ch_rb ch) = [] \<and> \<not> ch_prod_shutdown ch then Err EAGAIN
              else Ok (take n (contents (ch_rb ch))))"
    using w pd by (auto simp: ch_try_read_def p Let_def split: if_splits)
  show "contents (ch_rb ch) = (case r of Inr ys \<Rightarrow> ys | Inl _ \<Rightarrow> []) @ contents (ch_rb ch')"
    using w pd by (auto simp: ch_try_read_def p Let_def split: if_splits)
  show "channel_inv ops contents ch'" using w inv i by (auto simp: ch_try_read_def p Let_def split: if_splits)
  show "rb_capacity ops (ch_rb ch') = rb_capacity ops (ch_rb ch)"
    using w pd by (auto simp: ch_try_read_def p Let_def split: if_splits)
qed

lemma drop_inv:
  assumes "channel_inv ops contents ch"
  shows "channel_inv ops contents (drop_producer alive ch)" and "channel_inv ops contents (drop_consumer alive ch)"
    and "ch_rb (drop_producer alive ch) = ch_rb ch" and "ch_rb (drop_consumer alive ch) = ch_rb ch"
  using assms unfolding channel_inv_def io_bits by (auto simp: drop_producer_def drop_consumer_def bit_simps)

lemma chan_run_spec:
  assumes rb: "ringbuf_ok ops contents"
  shows "channel_inv ops contents ch \<Longrightarrow> w = r @ contents (ch_rb ch) \<Longrightarrow> chan_run ops alive os (ch, w, r) = (ch', w', r') \<Longrightarrow>
     channel_inv ops contents ch' \<and> w' = r' @ contents (ch_rb ch') \<and> rb_capacity ops (ch_rb ch') = rb_capacity ops (ch_rb ch)"
proof (induction os arbitrary: ch w r)
  case Nil
  then show ?case by auto
next
  case (Cons x os)
  show ?case
  proof (cases x)
    case (OpWrite buf)
    obtain n c where t: "ch_try_write ops alive buf ch = (n, c)" by fastforce
    note s = ch_try_write_spec [OF rb Cons.prems(1) t]
    have "(case n of Inr k \<Rightarrow> w @ take k buf | Inl _ \<Rightarrow> w) = r @ contents (ch_rb c)"
      using s(2) Cons.prems(2) by (auto split: sum.splits)
    with Cons.IH [OF s(3), of "case n of Inr k \<Rightarrow> w @ take k buf | Inl _ \<Rightarrow> w" r] Cons.prems(3) OpWrite t s(4)
    show ?thesis by simp
  next
    case (OpRead n)
    obtain ys c where t: "ch_try_read ops alive n ch = (ys, c)" by fastforce
    note s = ch_try_read_spec [OF rb Cons.prems(1) t]
    have "w = (case ys of Inr zs \<Rightarrow> r @ zs | Inl _ \<Rightarrow> r) @ contents (ch_rb c)"
      using s(2) Cons.prems(2) by (auto split: sum.splits)
    with Cons.IH [OF s(3), of w "case ys of Inr zs \<Rightarrow> r @ zs | Inl _ \<Rightarrow> r"] Cons.prems(3) OpRead t s(4)
    show ?thesis by simp
  next
    case OpDropProducer
    with Cons drop_inv [OF Cons.prems(1), of alive] show ?thesis by auto
  next
    case OpDropConsumer
    with Cons drop_inv [OF Cons.prems(1), of alive] show ?thesis by auto
  qed
qed

text \<open>A ring buffer that keeps its contents as a list, to show that the documented behaviour is consistent.\<close>

definition list_rb_ops :: "('a, nat \<times> 'a list) rb_ops" where
  "list_rb_ops = \<lparr>rb_new = (\<lambda>c. (c, [])),
     rb_push_slice = (\<lambda>xs (c, ys). let k = c - length ys in (min k (length xs), (c, ys @ take k xs))),
     rb_pop_slice = (\<lambda>n (c, ys). (take n ys, (c, drop n ys))),
     rb_is_full = (\<lambda>(c, ys). length ys = c), rb_is_empty = (\<lambda>(c, ys). ys = []), rb_capacity = fst\<rparr>"

lemma list_rb_ok: "ringbuf_ok list_rb_ops snd"
  by (auto simp: ringbuf_ok_def list_rb_ops_def Let_def)

lemma new_channel_inv:
  assumes "ringbuf_ok ops contents" and "channel_with_capacity_and_flags ops capacity flags = Ok ch"
  shows "channel_inv ops contents ch" and "contents (ch_rb ch) = []" and "rb_capacity ops (ch_rb ch) = capacity"
    and "\<not> ch_prod_shutdown ch" and "\<not> ch_cons_shutdown ch"
  using assms(2) unfolding channel_inv_def io_bits
  by (auto simp: channel_with_capacity_and_flags_def pollee_new_def ringbufD [OF assms(1)] split: if_splits)




section \<open>Interleavings\<close>

text \<open>The steps of \<open>update_pollee\<close> after the ring buffer was accessed: evaluate the first condition, remove the
  event, evaluate the second condition, add the event. Each end holds the lock of its own half of the ring
  buffer only, and the guard of \<open>lock_event\<close> is dropped before the first step.\<close>

datatype upd_pc = UIdle | UStart | UDel | UMid | UAdd

record 'b cstate =
  cs_ch :: "'b channel"
  cs_p :: upd_pc
  cs_c :: upd_pc

inductive chan_step :: "('a, 'b) rb_ops \<Rightarrow> (nat \<Rightarrow> bool) \<Rightarrow> 'b cstate \<Rightarrow> 'b cstate \<Rightarrow> bool"
  for ops :: "('a, 'b) rb_ops" and alive :: "nat \<Rightarrow> bool" where
  p_push: "\<not> ch_prod_shutdown ch \<Longrightarrow> \<not> ch_cons_shutdown ch \<Longrightarrow> buf \<noteq> [] \<Longrightarrow> rb_push_slice ops buf (ch_rb ch) = (n, b) \<Longrightarrow>
    chan_step ops alive \<lparr>cs_ch = ch, cs_p = UIdle, cs_c = c\<rparr> \<lparr>cs_ch = ch\<lparr>ch_rb := b\<rparr>, cs_p = UStart, cs_c = c\<rparr>"
| p_full: "chan_step ops alive \<lparr>cs_ch = ch, cs_p = UStart, cs_c = c\<rparr>
    \<lparr>cs_ch = ch, cs_p = (if rb_is_full ops (ch_rb ch) then UDel else UMid), cs_c = c\<rparr>"
| p_del: "chan_step ops alive \<lparr>cs_ch = ch, cs_p = UDel, cs_c = c\<rparr> \<lparr>cs_ch = prod_del_events IO_OUT ch, cs_p = UMid, cs_c = c\<rparr>"
| p_empty: "chan_step ops alive \<lparr>cs_ch = ch, cs_p = UMid, cs_c = c\<rparr>
    \<lparr>cs_ch = ch, cs_p = (if \<not> rb_is_empty ops (ch_rb ch) then UAdd else UIdle), cs_c = c\<rparr>"
| p_add: "chan_step ops alive \<lparr>cs_ch = ch, cs_p = UAdd, cs_c = c\<rparr> \<lparr>cs_ch = cons_add_events alive IO_IN ch, cs_p = UIdle, cs_c = c\<rparr>"
| c_pop: "\<not> ch_cons_shutdown ch \<Longrightarrow> 0 < m \<Longrightarrow> rb_pop_slice ops m (ch_rb ch) = (xs, b) \<Longrightarrow>
    chan_step ops alive \<lparr>cs_ch = ch, cs_p = p, cs_c = UIdle\<rparr> \<lparr>cs_ch = ch\<lparr>ch_rb := b\<rparr>, cs_p = p, cs_c = UStart\<rparr>"
| c_empty: "chan_step ops alive \<lparr>cs_ch = ch, cs_p = p, cs_c = UStart\<rparr>
    \<lparr>cs_ch = ch, cs_p = p, cs_c = (if rb_is_empty ops (ch_rb ch) then UDel else UMid)\<rparr>"
| c_del: "chan_step ops alive \<lparr>cs_ch = ch, cs_p = p, cs_c = UDel\<rparr> \<lparr>cs_ch = cons_del_events IO_IN ch, cs_p = p, cs_c = UMid\<rparr>"
| c_full: "chan_step ops alive \<lparr>cs_ch = ch, cs_p = p, cs_c = UMid\<rparr>
    \<lparr>cs_ch = ch, cs_p = p, cs_c = (if \<not> rb_is_full ops (ch_rb ch) then UAdd else UIdle)\<rparr>"
| c_add: "chan_step ops alive \<lparr>cs_ch = ch, cs_p = p, cs_c = UAdd\<rparr> \<lparr>cs_ch = prod_add_events alive IO_OUT ch, cs_p = p, cs_c = UIdle\<rparr>"

text \<open>Without an interruption the steps of a write are \<open>try_write\<close>, those of a read \<open>try_read\<close>.\<close>

lemma chan_steps_write:
  assumes "\<not> ch_prod_shutdown ch" and "\<not> ch_cons_shutdown ch" and "buf \<noteq> []"
  shows "(chan_step ops alive)\<^sup>*\<^sup>* \<lparr>cs_ch = ch, cs_p = UIdle, cs_c = c\<rparr> \<lparr>cs_ch = snd (ch_try_write ops alive buf ch), cs_p = UIdle, cs_c = c\<rparr>"
proof -
  obtain n b where p: "rb_push_slice ops buf (ch_rb ch) = (n, b)" by fastforce
  let ?c1 = "ch\<lparr>ch_rb := b\<rparr>"
  let ?c2 = "if rb_is_full ops b then prod_del_events IO_OUT ?c1 else ?c1"
  have r: "ch_rb ?c2 = b" by simp
  have "(chan_step ops alive)\<^sup>*\<^sup>* \<lparr>cs_ch = ch, cs_p = UIdle, cs_c = c\<rparr> \<lparr>cs_ch = ?c1, cs_p = UStart, cs_c = c\<rparr>"
    using p_push [OF assms p] by blast
  also have "(chan_step ops alive)\<^sup>*\<^sup>* \<lparr>cs_ch = ?c1, cs_p = UStart, cs_c = c\<rparr> \<lparr>cs_ch = ?c2, cs_p = UMid, cs_c = c\<rparr>"
    using p_full [of ops alive ?c1 c] p_del [of ops alive ?c1 c] by (cases "rb_is_full ops b") (auto intro: rtranclp_trans)
  also have "(chan_step ops alive)\<^sup>*\<^sup>* \<lparr>cs_ch = ?c2, cs_p = UMid, cs_c = c\<rparr>
     \<lparr>cs_ch = (if \<not> rb_is_empty ops b then cons_add_events alive IO_IN ?c2 else ?c2), cs_p = UIdle, cs_c = c\<rparr>"
    using p_empty [of ops alive ?c2 c] p_add [of ops alive ?c2 c] r by (cases "rb_is_empty ops b") (auto intro: rtranclp_trans)
  also have "(if \<not> rb_is_empty ops b then cons_add_events alive IO_IN ?c2 else ?c2) = snd (ch_try_write ops alive buf ch)"
    using assms p by (simp add: ch_try_write_def prod_update_pollee_def Let_def)
  finally show ?thesis .
qed

lemma chan_steps_read:
  assumes "\<not> ch_cons_shutdown ch" and "0 < m"
  shows "(chan_step ops alive)\<^sup>*\<^sup>* \<lparr>cs_ch = ch, cs_p = p, cs_c = UIdle\<rparr> \<lparr>cs_ch = snd (ch_try_read ops alive m ch), cs_p = p, cs_c = UIdle\<rparr>"
proof -
  obtain xs b where q: "rb_pop_slice ops m (ch_rb ch) = (xs, b)" by fastforce
  let ?c1 = "ch\<lparr>ch_rb := b\<rparr>"
  let ?c2 = "if rb_is_empty ops b then cons_del_events IO_IN ?c1 else ?c1"
  have r: "ch_rb ?c2 = b" by simp
  have "(chan_step ops alive)\<^sup>*\<^sup>* \<lparr>cs_ch = ch, cs_p = p, cs_c = UIdle\<rparr> \<lparr>cs_ch = ?c1, cs_p = p, cs_c = UStart\<rparr>"
    using c_pop [OF assms q] by blast
  also have "(chan_step ops alive)\<^sup>*\<^sup>* \<lparr>cs_ch = ?c1, cs_p = p, cs_c = UStart\<rparr> \<lparr>cs_ch = ?c2, cs_p = p, cs_c = UMid\<rparr>"
    using c_empty [of ops alive ?c1 p] c_del [of ops alive ?c1 p] by (cases "rb_is_empty ops b") (auto intro: rtranclp_trans)
  also have "(chan_step ops alive)\<^sup>*\<^sup>* \<lparr>cs_ch = ?c2, cs_p = p, cs_c = UMid\<rparr>
     \<lparr>cs_ch = (if \<not> rb_is_full ops b then prod_add_events alive IO_OUT ?c2 else ?c2), cs_p = p, cs_c = UIdle\<rparr>"
    using c_full [of ops alive ?c2 p] c_add [of ops alive ?c2 p] r by (cases "rb_is_full ops b") (auto intro: rtranclp_trans)
  also have "(if \<not> rb_is_full ops b then prod_add_events alive IO_OUT ?c2 else ?c2) = snd (ch_try_read ops alive m ch)"
    using assms q by (simp add: ch_try_read_def cons_update_pollee_def Let_def)
  finally show ?thesis .
qed

text \<open>(C40) The events of a channel can go stale for good when a read and a write overlap, because the guard of
  \<open>lock_event\<close> is dropped at once. A reader finds the channel empty, decides to remove \<open>IN\<close>, and is overtaken by
  a complete write that adds \<open>IN\<close>; then the reader removes it. Nobody is inside an operation any more and the
  channel holds data, but its pollee reports nothing: the reader, whose attempt ended with \<open>EAGAIN\<close>, polls,
  gets no event and goes to sleep.\<close>

theorem channel_lost_wakeup:
  "\<exists>ch0 ch. channel_with_capacity_and_flags list_rb_ops 2 0 = Ok ch0
     \<and> (chan_step list_rb_ops (\<lambda>_. True))\<^sup>*\<^sup>* \<lparr>cs_ch = ch0, cs_p = UIdle, cs_c = UIdle\<rparr> \<lparr>cs_ch = ch, cs_p = UIdle, cs_c = UIdle\<rparr>
     \<and> snd (ch_rb ch) = [7 :: nat] \<and> fst (pollee_poll IO_IN (Some reader) (ch_cons_pollee ch)) = 0"
proof -
  let ?R = "chan_step (list_rb_ops :: (nat, nat \<times> nat list) rb_ops) (\<lambda>_. True)"
  let ?al = "\<lambda>_ :: nat. True"
  define ch0 :: "(nat \<times> nat list) channel" where
    "ch0 = \<lparr>ch_rb = (2, []), ch_prod_pollee = pollee_new IO_OUT, ch_cons_pollee = pollee_new 0, ch_prod_shutdown = False,
       ch_cons_shutdown = False, ch_prod_flags = 0, ch_cons_flags = 0, ch_called = []\<rparr>"
  have c: "channel_with_capacity_and_flags list_rb_ops 2 0 = Ok ch0"
    by (simp add: channel_with_capacity_and_flags_def check_status_flags_def O_DIRECT_def O_NONBLOCK_def list_rb_ops_def ch0_def)
  define ch1 where "ch1 = snd (ch_try_write list_rb_ops ?al [7] ch0)"
  define ch2 where "ch2 = prod_add_events ?al IO_OUT (cons_del_events IO_IN ch1)"
  have rb: "rb_is_empty list_rb_ops (ch_rb ch0)" "rb_pop_slice list_rb_ops 1 (ch_rb ch0) = ([], ch_rb ch0)" "ch_rb ch1 = (2, [7])"
    by (simp_all add: list_rb_ops_def ch0_def ch1_def ch_try_write_def Let_def)
  have "?R\<^sup>*\<^sup>* \<lparr>cs_ch = ch0, cs_p = UIdle, cs_c = UIdle\<rparr> \<lparr>cs_ch = ch0, cs_p = UIdle, cs_c = UStart\<rparr>"
    using c_pop [OF _ _ rb(2), of ?al UIdle] by (auto simp: ch0_def)
  also have "?R\<^sup>*\<^sup>* \<lparr>cs_ch = ch0, cs_p = UIdle, cs_c = UStart\<rparr> \<lparr>cs_ch = ch0, cs_p = UIdle, cs_c = UDel\<rparr>"
    using c_empty [of list_rb_ops ?al ch0 UIdle] rb(1) by auto
  also have "?R\<^sup>*\<^sup>* \<lparr>cs_ch = ch0, cs_p = UIdle, cs_c = UDel\<rparr> \<lparr>cs_ch = ch1, cs_p = UIdle, cs_c = UDel\<rparr>"
    unfolding ch1_def by (rule chan_steps_write) (simp_all add: ch0_def)
  also have "?R\<^sup>*\<^sup>* \<lparr>cs_ch = ch1, cs_p = UIdle, cs_c = UDel\<rparr> \<lparr>cs_ch = cons_del_events IO_IN ch1, cs_p = UIdle, cs_c = UMid\<rparr>"
    by (rule r_into_rtranclp, rule c_del)
  also have "?R\<^sup>*\<^sup>* \<lparr>cs_ch = cons_del_events IO_IN ch1, cs_p = UIdle, cs_c = UMid\<rparr> \<lparr>cs_ch = cons_del_events IO_IN ch1, cs_p = UIdle, cs_c = UAdd\<rparr>"
    using c_full [of list_rb_ops ?al "cons_del_events IO_IN ch1" UIdle] rb(3) by (auto simp: list_rb_ops_def)
  also have "?R\<^sup>*\<^sup>* \<lparr>cs_ch = cons_del_events IO_IN ch1, cs_p = UIdle, cs_c = UAdd\<rparr> \<lparr>cs_ch = ch2, cs_p = UIdle, cs_c = UIdle\<rparr>"
    unfolding ch2_def by (rule r_into_rtranclp, rule c_add)
  finally have r: "?R\<^sup>*\<^sup>* \<lparr>cs_ch = ch0, cs_p = UIdle, cs_c = UIdle\<rparr> \<lparr>cs_ch = ch2, cs_p = UIdle, cs_c = UIdle\<rparr>" .
  have "pe_events (ch_cons_pollee ch2) = 0"
    by (simp add: ch2_def ch1_def ch_try_write_def list_rb_ops_def ch0_def Let_def prod_update_pollee_def pollee_new_def IO_IN_def)
  then have "fst (pollee_poll IO_IN (Some reader) (ch_cons_pollee ch2)) = 0" by (simp add: pollee_poll_def Let_def)
  with c r rb(3) show ?thesis by (auto simp: ch2_def intro!: exI [of _ ch0] exI [of _ ch2])
qed


section \<open>Pollers\<close>

text \<open>A thread that polls with a poller and then waits (\<open>Pollee::poll\<close>, \<open>Poller::wait\<close>), against a thread that adds an
  event (\<open>Pollee::add_events\<close>, \<open>Subject::notify_observers\<close>, \<open>EventCounter::write\<close>). The polling thread checks the
  events, registers its observer in two steps under the lock of the subject (insert, then count), checks
  again and waits for a positive counter. The other thread sets the event, reads the number of observers
  without the lock, and calls the observers under the lock. The atomics are sequentially consistent here.\<close>

datatype poll_pc = PFast | PInsert | PCount bool | PCheck | PWait | PDone
datatype add_pc = AOr | ALoad | ANotify | ADone

record poll_state =
  po_pollee :: pollee
  po_counter :: nat
  po_poll :: poll_pc
  po_add :: add_pc

inductive poll_step :: "(nat \<Rightarrow> bool) \<Rightarrow> nat \<Rightarrow> u32 \<Rightarrow> u32 \<Rightarrow> poll_state \<Rightarrow> poll_state \<Rightarrow> bool"
  for alive :: "nat \<Rightarrow> bool" and ob :: nat and m :: u32 and ev :: u32 where
  fast: "poll_step alive ob m ev \<lparr>po_pollee = p, po_counter = n, po_poll = PFast, po_add = a\<rparr>
    \<lparr>po_pollee = p, po_counter = n, po_poll = (if pe_events p AND m \<noteq> 0 then PDone else PInsert), po_add = a\<rparr>"
| insert: "btree_insert ob m (observers (pe_subject p)) = (old, obs) \<Longrightarrow>
    poll_step alive ob m ev \<lparr>po_pollee = p, po_counter = n, po_poll = PInsert, po_add = a\<rparr>
    \<lparr>po_pollee = p\<lparr>pe_subject := (pe_subject p)\<lparr>observers := obs\<rparr>\<rparr>, po_counter = n, po_poll = PCount (old = None), po_add = a\<rparr>"
| count: "poll_step alive ob m ev \<lparr>po_pollee = p, po_counter = n, po_poll = PCount new, po_add = a\<rparr>
    \<lparr>po_pollee = p\<lparr>pe_subject := (pe_subject p)\<lparr>num_observers := (if new then num_observers (pe_subject p) + 1 else num_observers (pe_subject p))\<rparr>\<rparr>,
     po_counter = n, po_poll = PCheck, po_add = a\<rparr>"
| check: "poll_step alive ob m ev \<lparr>po_pollee = p, po_counter = n, po_poll = PCheck, po_add = a\<rparr>
    \<lparr>po_pollee = p, po_counter = n, po_poll = (if pe_events p AND m \<noteq> 0 then PDone else PWait), po_add = a\<rparr>"
| wake: "0 < n \<Longrightarrow> poll_step alive ob m ev \<lparr>po_pollee = p, po_counter = n, po_poll = PWait, po_add = a\<rparr>
    \<lparr>po_pollee = p, po_counter = 0, po_poll = PDone, po_add = a\<rparr>"
| add: "poll_step alive ob m ev \<lparr>po_pollee = p, po_counter = n, po_poll = q, po_add = AOr\<rparr>
    \<lparr>po_pollee = p\<lparr>pe_events := pe_events p OR ev\<rparr>, po_counter = n, po_poll = q, po_add = ALoad\<rparr>"
| load: "poll_step alive ob m ev \<lparr>po_pollee = p, po_counter = n, po_poll = q, po_add = ALoad\<rparr>
    \<lparr>po_pollee = p, po_counter = n, po_poll = q, po_add = (if num_observers (pe_subject p) = 0 then ADone else ANotify)\<rparr>"
| notify: "\<forall>b. q \<noteq> PCount b \<Longrightarrow> retain_notify alive io_events_filter ev (observers (pe_subject p)) = (kept, called, dropped) \<Longrightarrow>
    poll_step alive ob m ev \<lparr>po_pollee = p, po_counter = n, po_poll = q, po_add = ANotify\<rparr>
    \<lparr>po_pollee = p\<lparr>pe_subject := \<lparr>observers = kept, num_observers = num_observers (pe_subject p) - dropped\<rparr>\<rparr>,
     po_counter = n + length (filter (\<lambda>c. c = ob) called), po_poll = q, po_add = ADone\<rparr>"

text \<open>The invariant: once the event is set it stays visible; past the registration the observer is in the subject
  and counted; and when both the notification is over and the polling thread waits, the counter is positive.\<close>

definition poll_inv :: "nat \<Rightarrow> u32 \<Rightarrow> u32 \<Rightarrow> poll_state \<Rightarrow> bool" where
  "poll_inv ob m ev s \<longleftrightarrow>
     (let p = po_pollee s; sub = pe_subject p
      in sorted_wrt (<) (map fst (observers sub))
       \<and> (po_add s \<noteq> AOr \<longrightarrow> pe_events p AND m \<noteq> 0)
       \<and> num_observers sub = length (observers sub) - (if po_poll s = PCount True then 1 else 0)
       \<and> ((\<exists>b. po_poll s = PCount b) \<or> po_poll s \<in> {PCheck, PWait} \<longrightarrow> map_of (observers sub) ob = Some m)
       \<and> (po_poll s = PWait \<and> po_add s = ADone \<longrightarrow> 0 < po_counter s))"

lemma or_and_nonzero: "(ev :: u32) AND m \<noteq> 0 \<Longrightarrow> (e OR ev) AND m \<noteq> 0"
  by (auto simp: bit_eq_iff [where ?a = "_ :: u32"] bit_simps)

lemma retain_observer:
  assumes "alive ob" and "map_of es ob = Some m"
  shows "map_of (filter (\<lambda>(o', _). alive o') es) ob = Some m"
    and "flt m ev \<Longrightarrow> ob \<in> set (map fst (filter (\<lambda>(o', f). alive o' \<and> flt f ev) es))"
proof -
  show "map_of (filter (\<lambda>(o', _). alive o') es) ob = Some m"
    using assms by (induction es) (auto split: if_splits)
  show "ob \<in> set (map fst (filter (\<lambda>(o', f). alive o' \<and> flt f ev) es))" if "flt m ev"
    using map_of_SomeD [OF assms(2)] assms(1) that by force
qed

lemma length_filter_split: "length (filter (\<lambda>(o', _). alive o') es) = length es - length (filter (\<lambda>(o', _). \<not> alive o') es)"
  by (induction es) (auto simp: Suc_diff_le)

lemma poll_step_inv:
  assumes "poll_step alive ob m ev s s'" and inv: "poll_inv ob m ev s" and al: "alive ob" and ev: "ev AND m \<noteq> 0"
  shows "poll_inv ob m ev s'"
  using assms(1) inv
proof cases
  case (insert p old obs n a)
  note i = btree_insert_spec [OF _ insert(3)]
  with insert inv show ?thesis by (auto simp: poll_inv_def Let_def split: if_splits)
next
  case (count p n new a)
  with inv have "observers (pe_subject p) \<noteq> []" by (auto simp: poll_inv_def Let_def)
  with inv count show ?thesis by (cases new) (auto simp: poll_inv_def Let_def Suc_diff_1)
next
  case (add p n q)
  with inv or_and_nonzero [OF ev] show ?thesis by (simp add: poll_inv_def Let_def)
next
  case (load p n q)
  with inv show ?thesis by (auto simp: poll_inv_def Let_def)
next
  case (notify q p kept called dropped n)
  have e: "kept = filter (\<lambda>(o', _). alive o') (observers (pe_subject p))"
    "called = map fst (filter (\<lambda>(o', f). alive o' \<and> io_events_filter f ev) (observers (pe_subject p)))"
    "dropped = length (filter (\<lambda>(o', _). \<not> alive o') (observers (pe_subject p)))"
    using notify(4) by (simp_all add: retain_notify_eq)
  have f: "io_events_filter m ev" using ev by (simp add: io_events_filter_def and.commute)
  have c: "0 < length (filter (\<lambda>c. c = ob) called)" if "map_of (observers (pe_subject p)) ob = Some m"
    using retain_observer(2) [where alive = alive, OF al that, of io_events_filter ev] f by (simp add: e(2) filter_empty_conv) force
  have k: "map_of kept ob = Some m" if "map_of (observers (pe_subject p)) ob = Some m"
    using retain_observer(1) [where alive = alive, OF al that] by (simp add: e(1))
  have "sorted_wrt (<) (map fst kept)" "length kept = length (observers (pe_subject p)) - dropped"
    using inv notify(1) length_filter_split [of alive "observers (pe_subject p)"]
    by (simp_all add: poll_inv_def Let_def e sorted_wrt_map_filter)
  with inv notify c k show ?thesis by (auto simp: poll_inv_def Let_def)
qed (auto simp: poll_inv_def Let_def split: if_splits)

lemma poll_steps_inv:
  assumes "(poll_step alive ob m ev)\<^sup>*\<^sup>* s s'" and "poll_inv ob m ev s" and "alive ob" and "ev AND m \<noteq> 0"
  shows "poll_inv ob m ev s'"
  using assms(1,2)
proof induction
  case (step y z)
  then show ?case using poll_step_inv [OF step.hyps(2) step.IH assms(3,4)] by simp
qed

text \<open>(C18) No wake-up is lost between a poller and the thread that adds an event it is interested in. In every
  interleaving of the two, from a consistent pollee, once the event is added and the observers notified the
  polling thread is not stuck: it can go on by itself, and does so until it has either seen the event or been
  woken.\<close>

theorem poll_no_lost_wakeup:
  assumes inv: "subject_inv (pe_subject p)" and al: "alive ob" and m: "m = msk OR ALWAYS_POLL" and ev: "ev AND m \<noteq> 0"
    and run: "(poll_step alive ob m ev)\<^sup>*\<^sup>* \<lparr>po_pollee = p, po_counter = 0, po_poll = PFast, po_add = AOr\<rparr> s"
    and fin: "po_add s = ADone"
  shows "\<exists>s'. (poll_step alive ob m ev)\<^sup>*\<^sup>* s s' \<and> po_poll s' = PDone \<and> po_add s' = ADone"
proof -
  have "poll_inv ob m ev \<lparr>po_pollee = p, po_counter = 0, po_poll = PFast, po_add = AOr\<rparr>"
    using inv by (simp add: poll_inv_def subject_inv_def)
  from poll_steps_inv [OF run this al ev] have i: "poll_inv ob m ev s" .
  obtain q n pc where s: "s = \<lparr>po_pollee = q, po_counter = n, po_poll = pc, po_add = ADone\<rparr>"
    using fin by (cases s) simp
  have e: "pe_events q AND m \<noteq> 0" using i by (simp add: s poll_inv_def Let_def)
  let ?R = "poll_step alive ob m ev" and ?S = "\<lambda>q n pc. \<lparr>po_pollee = q, po_counter = n, po_poll = pc, po_add = ADone\<rparr>"
  have chk: "?R\<^sup>*\<^sup>* (?S q' n PCheck) (?S q' n PDone)" if "pe_events q' AND m \<noteq> 0" for q'
    using check [of alive ob m ev q' n ADone] that by auto
  have cnt: "\<exists>q'. ?R\<^sup>*\<^sup>* (?S q n (PCount b)) (?S q' n PCheck) \<and> pe_events q' = pe_events q" for b
    using count [of alive ob m ev q n b ADone] by (intro exI) (rule conjI, rule r_into_rtranclp, assumption, simp)
  show ?thesis
  proof (cases pc)
    case PFast
    then have "?R s (?S q n PDone)" using fast [of alive ob m ev q n ADone] e by (simp add: s)
    then show ?thesis by (intro exI [of _ "?S q n PDone"]) auto
  next
    case PInsert
    obtain old obs where b: "btree_insert ob m (observers (pe_subject q)) = (old, obs)" by fastforce
    let ?q = "q\<lparr>pe_subject := (pe_subject q)\<lparr>observers := obs\<rparr>\<rparr>"
    have 1: "?R s (?S ?q n (PCount (old = None)))" using insert [OF b, of alive ev n ADone] PInsert by (simp add: s)
    obtain q2 where 2: "?R (?S ?q n (PCount (old = None))) (?S q2 n PCheck)" "pe_events q2 = pe_events q"
      using count [of alive ob m ev ?q n "old = None" ADone] by fastforce
    have "?R\<^sup>*\<^sup>* s (?S q2 n PDone)"
      using 1 2(1) chk [of q2] e 2(2) by (simp add: converse_rtranclp_into_rtranclp)
    then show ?thesis by (intro exI [of _ "?S q2 n PDone"]) simp
  next
    case (PCount b)
    from cnt [of b] obtain q2 where "?R\<^sup>*\<^sup>* s (?S q2 n PCheck)" "pe_events q2 = pe_events q" using PCount by (auto simp: s)
    with chk [of q2] e have "?R\<^sup>*\<^sup>* s (?S q2 n PDone)" by (simp add: rtranclp_trans)
    then show ?thesis by (intro exI [of _ "?S q2 n PDone"]) simp
  next
    case PCheck
    then have "?R\<^sup>*\<^sup>* s (?S q n PDone)" using chk [OF e] by (simp add: s)
    then show ?thesis by (intro exI [of _ "?S q n PDone"]) simp
  next
    case PWait
    with i have "0 < n" by (simp add: s poll_inv_def Let_def)
    then have "?R s (?S q 0 PDone)" using wake [of n alive ob m ev q ADone] PWait by (simp add: s)
    then show ?thesis by (intro exI [of _ "?S q 0 PDone"]) auto
  next
    case PDone
    then show ?thesis by (intro exI [of _ s]) (simp add: s)
  qed
qed

theorem poll_no_lost_wakeup_witness:
  "\<exists>s. (poll_step (\<lambda>_. True) 5 (IO_IN OR ALWAYS_POLL) IO_IN)\<^sup>*\<^sup>*
       \<lparr>po_pollee = (pollee_new 0)\<lparr>pe_events := IO_IN\<rparr>, po_counter = 0, po_poll = PFast, po_add = ADone\<rparr> s
     \<and> po_poll s = PDone \<and> po_add s = ADone"
proof -
  let ?R = "poll_step (\<lambda>_. True) 5 (IO_IN OR ALWAYS_POLL) IO_IN"
  let ?S = "\<lambda>p a. \<lparr>po_pollee = p, po_counter = 0, po_poll = PFast, po_add = a\<rparr>"
  let ?p = "(pollee_new 0)\<lparr>pe_events := IO_IN\<rparr>"
  have i: "subject_inv (pe_subject (pollee_new 0))" by (simp add: pollee_new_def subject_inv_def subject_new_def)
  have e: "IO_IN AND (IO_IN OR ALWAYS_POLL) \<noteq> 0" by (simp add: io_event_defs)
  have "?R (?S (pollee_new 0) AOr) (?S ?p ALoad)" using add [of _ _ _ IO_IN "pollee_new 0"] by (simp add: pollee_new_def)
  moreover have "?R (?S ?p ALoad) (?S ?p ADone)" using load [of _ _ _ _ ?p] by (simp add: pollee_new_def subject_new_def)
  ultimately have r: "?R\<^sup>*\<^sup>* (?S (pollee_new 0) AOr) (?S ?p ADone)" by auto
  show ?thesis by (rule poll_no_lost_wakeup [OF i _ refl e r]) simp_all
qed

end
