(* ===== verification/Line_Discipline.thy ===== *)
theory Line_Discipline
  imports Channel Signal_Queues
begin

text \<open>
  The terminal settings (\<open>device/tty/termio.rs\<close>) and the line discipline of terminals
  (\<open>device/tty/line_discipline.rs\<close>).

  The buffers are \<open>StaticRb\<close>s of the \<open>ringbuf\<close> crate, so their operations are a parameter \<open>ops\<close> and
  \<open>tty_rb_ok ops contents\<close> states their documented behaviour: a queue of \<open>BUFFER_CAPACITY\<close> bytes, \<open>push_overwrite\<close>
  drops the oldest byte of a full one, \<open>pop\<close> removes the oldest byte. \<open>intr\<close> tells whether the code runs in
  interrupt context. \<open>ld_echo\<close> collects what goes to the echo callback and \<open>ld_console\<close> what is printed to the
  kernel console; \<open>ld_signals\<close> collects the signals sent to the foreground.
\<close>

section \<open>Terminal settings\<close>

definition ICRNL :: u32 where "ICRNL = 0x100"
definition IXON :: u32 where "IXON = 0x0400"
definition OPOST :: u32 where "OPOST = 1"
definition ONLCR :: u32 where "ONLCR = 4"
definition ISIG :: u32 where "ISIG = 0x00001"
definition ICANON :: u32 where "ICANON = 0x00002"
definition ECHO :: u32 where "ECHO = 0x00008"
definition ECHOE :: u32 where "ECHOE = 0x00010"
definition ECHOK :: u32 where "ECHOK = 0x00020"
definition ECHOCTL :: u32 where "ECHOCTL = 0x00200"
definition ECHOKE :: u32 where "ECHOKE = 0x00800"
definition IEXTEN :: u32 where "IEXTEN = 0x08000"
definition CREAD :: u32 where "CREAD = 0x80"

datatype (plugins only: code) CC_C_CHAR = VINTR | VQUIT | VERASE | VKILL | VEOF | VTIME | VMIN | VSWTC | VSTART | VSTOP | VSUSP | VEOL
  | VREPRINT | VDISCARD | VWERASE | VLNEXT | VEOL2

fun cc_index :: "CC_C_CHAR \<Rightarrow> nat" where
  "cc_index VINTR = 0"
| "cc_index VQUIT = 1"
| "cc_index VERASE = 2"
| "cc_index VKILL = 3"
| "cc_index VEOF = 4"
| "cc_index VTIME = 5"
| "cc_index VMIN = 6"
| "cc_index VSWTC = 7"
| "cc_index VSTART = 8"
| "cc_index VSTOP = 9"
| "cc_index VSUSP = 10"
| "cc_index VEOL = 11"
| "cc_index VREPRINT = 12"
| "cc_index VDISCARD = 13"
| "cc_index VWERASE = 14"
| "cc_index VLNEXT = 15"
| "cc_index VEOL2 = 16"

definition control_character :: "u8 \<Rightarrow> u8" where
  "control_character c = c - 65 + 1"

fun default_char :: "CC_C_CHAR \<Rightarrow> u8" where
  "default_char VINTR = control_character 67"
| "default_char VQUIT = control_character 92"
| "default_char VERASE = 0x7f"
| "default_char VKILL = control_character 85"
| "default_char VEOF = control_character 68"
| "default_char VTIME = 0"
| "default_char VMIN = 1"
| "default_char VSWTC = 0"
| "default_char VSTART = control_character 81"
| "default_char VSTOP = control_character 83"
| "default_char VSUSP = control_character 90"
| "default_char VEOL = 0"
| "default_char VREPRINT = control_character 82"
| "default_char VDISCARD = control_character 79"
| "default_char VWERASE = control_character 87"
| "default_char VLNEXT = control_character 86"
| "default_char VEOL2 = 0"

record kernel_termios =
  c_iflags :: u32
  c_oflags :: u32
  c_cflags :: u32
  c_lflags :: u32
  c_line :: u8
  c_cc :: "u8 list"

definition get_special_char :: "kernel_termios \<Rightarrow> CC_C_CHAR \<Rightarrow> u8" where
  "get_special_char t c = c_cc t ! cc_index c"

definition termios_default :: kernel_termios where
  "termios_default =
    (let cc = fold (\<lambda>c xs. xs[cc_index c := default_char c])
          [VINTR, VQUIT, VERASE, VKILL, VEOF, VTIME, VMIN, VSWTC, VSTART, VSTOP, VSUSP, VEOL, VREPRINT, VDISCARD,
           VWERASE, VLNEXT, VEOL2] (replicate 19 0)
     in \<lparr>c_iflags = ICRNL OR IXON, c_oflags = OPOST OR ONLCR, c_cflags = 0xf OR 0x30 OR CREAD,
         c_lflags = ICANON OR ECHO OR ISIG OR ECHOE OR ECHOK OR ECHOCTL OR ECHOKE OR IEXTEN, c_line = 0, c_cc = cc\<rparr>)"

definition is_canonical_mode :: "kernel_termios \<Rightarrow> bool" where
  "is_canonical_mode t \<longleftrightarrow> c_lflags t AND ICANON = ICANON"

definition contains_icrnl :: "kernel_termios \<Rightarrow> bool" where
  "contains_icrnl t \<longleftrightarrow> c_iflags t AND ICRNL = ICRNL"

definition contains_isig :: "kernel_termios \<Rightarrow> bool" where
  "contains_isig t \<longleftrightarrow> c_lflags t AND ISIG = ISIG"

definition contain_echo :: "kernel_termios \<Rightarrow> bool" where
  "contain_echo t \<longleftrightarrow> c_lflags t AND ECHO = ECHO"

definition contains_echo_ctl :: "kernel_termios \<Rightarrow> bool" where
  "contains_echo_ctl t \<longleftrightarrow> c_lflags t AND ECHOCTL = ECHOCTL"

definition contains_iexten :: "kernel_termios \<Rightarrow> bool" where
  "contains_iexten t \<longleftrightarrow> c_lflags t AND IEXTEN = IEXTEN"

section \<open>The line discipline\<close>

definition BUFFER_CAPACITY :: nat where "BUFFER_CAPACITY = 4096"

record 'b tty_rb_ops =
  tr_default :: 'b
  tr_push_overwrite :: "u8 \<Rightarrow> 'b \<Rightarrow> 'b"
  tr_pop :: "'b \<Rightarrow> u8 option \<times> 'b"
  tr_len :: "'b \<Rightarrow> nat"
  tr_is_full :: "'b \<Rightarrow> bool"
  tr_is_empty :: "'b \<Rightarrow> bool"

datatype PolleeType = PAdd | PDel

record 'b ldisc =
  ld_current :: 'b
  ld_read :: 'b
  ld_termios :: kernel_termios
  ld_pollee :: pollee
  ld_para_signal :: "sig_num option"
  ld_para_pollee :: "PolleeType option"
  ld_work_items :: nat
  ld_signals :: "sig_num list"
  ld_echo :: string
  ld_console :: string

definition ldisc_new :: "'b tty_rb_ops \<Rightarrow> 'b ldisc" where
  "ldisc_new ops = \<lparr>ld_current = tr_default ops, ld_read = tr_default ops, ld_termios = termios_default,
     ld_pollee = pollee_new 0, ld_para_signal = None, ld_para_pollee = None, ld_work_items = 0, ld_signals = [],
     ld_echo = [], ld_console = []\<rparr>"

text \<open>\<open>buffer.pop_iter().collect()\<close>: as many pops as there are bytes.\<close>

fun pop_n :: "'b tty_rb_ops \<Rightarrow> nat \<Rightarrow> 'b \<Rightarrow> u8 list \<times> 'b" where
  "pop_n ops 0 b = ([], b)"
| "pop_n ops (Suc n) b =
     (case tr_pop ops b of (None, b1) \<Rightarrow> ([], b1)
      | (Some x, b1) \<Rightarrow> (let (xs, b2) = pop_n ops n b1 in (x # xs, b2)))"

definition drain :: "'b tty_rb_ops \<Rightarrow> 'b \<Rightarrow> u8 list \<times> 'b" where
  "drain ops b = pop_n ops (tr_len ops b) b"

definition line_push_char :: "'b tty_rb_ops \<Rightarrow> u8 \<Rightarrow> 'b \<Rightarrow> 'b res" where
  "line_push_char ops ch b = (if tr_is_full ops b then panic else Ok (tr_push_overwrite ops ch b))"

definition backspace :: "'b tty_rb_ops \<Rightarrow> 'b \<Rightarrow> 'b" where
  "backspace ops b = snd (tr_pop ops b)"

definition is_line_terminator :: "u8 \<Rightarrow> kernel_termios \<Rightarrow> bool" where
  "is_line_terminator item t \<longleftrightarrow>
     item = 10 \<or> item = get_special_char t VEOF \<or> item = get_special_char t VEOL
     \<or> (contains_iexten t \<and> item = get_special_char t VEOL2)"

definition is_eof :: "u8 \<Rightarrow> kernel_termios \<Rightarrow> bool" where
  "is_eof ch t \<longleftrightarrow> ch = get_special_char t VEOF"

definition is_printable_char :: "u8 \<Rightarrow> bool" where
  "is_printable_char ch \<longleftrightarrow> 0x20 \<le> ch \<and> ch < 0x7f"

definition is_ctrl_char :: "u8 \<Rightarrow> bool" where
  "is_ctrl_char ch \<longleftrightarrow> ch \<noteq> 13 \<and> ch \<noteq> 10 \<and> ch < 0x20"

definition get_printable_char :: "u8 \<Rightarrow> u8" where
  "get_printable_char c = c + 65 - 1"

text \<open>\<open>format!\<close> with \<open>{}\<close> on a \<open>u8\<close> prints its decimal digits; the value has two of them.\<close>

definition decimal2 :: "u8 \<Rightarrow> string" where
  "decimal2 v = [char_of (48 + unat v div 10), char_of (48 + unat v mod 10)]"

definition output_char :: "u8 \<Rightarrow> kernel_termios \<Rightarrow> 'b ldisc \<Rightarrow> 'b ldisc" where
  "output_char ch t ld =
    (if ch = 10 then ld\<lparr>ld_echo := ld_echo ld @ [char_of (10 :: nat)]\<rparr>
     else if ch = 13 then ld\<lparr>ld_echo := ld_echo ld @ [char_of (13 :: nat), char_of (10 :: nat)]\<rparr>
     else if ch = get_special_char t VERASE then ld\<lparr>ld_echo := ld_echo ld @ [char_of (8 :: nat), CHR '' '', char_of (8 :: nat)]\<rparr>
     else if is_printable_char ch then ld\<lparr>ld_console := ld_console ld @ [char_of (unat ch)]\<rparr>
     else if is_ctrl_char ch \<and> contains_echo_ctl t
       then ld\<lparr>ld_echo := ld_echo ld @ CHR ''^'' # decimal2 (get_printable_char ch)\<rparr>
     else ld)"

definition may_send_signal :: "bool \<Rightarrow> kernel_termios \<Rightarrow> u8 \<Rightarrow> 'b ldisc \<Rightarrow> bool \<times> 'b ldisc" where
  "may_send_signal intr t ch ld =
    (if \<not> is_canonical_mode t \<or> \<not> contains_isig t then (False, ld)
     else let sig = (if ch = get_special_char t VINTR then Some SIGINT
                     else if ch = get_special_char t VQUIT then Some SIGQUIT else None)
     in case sig of None \<Rightarrow> (False, ld)
        | Some s \<Rightarrow> (True, if intr then ld\<lparr>ld_para_signal := Some s\<rparr> else ld\<lparr>ld_signals := ld_signals ld @ [s]\<rparr>))"

definition ld_add_events :: "(nat \<Rightarrow> bool) \<Rightarrow> u32 \<Rightarrow> 'b ldisc \<Rightarrow> 'b ldisc" where
  "ld_add_events alive ev ld = ld\<lparr>ld_pollee := snd (pollee_add_events alive ev (ld_pollee ld))\<rparr>"

definition ld_del_events :: "u32 \<Rightarrow> 'b ldisc \<Rightarrow> 'b ldisc" where
  "ld_del_events ev ld = ld\<lparr>ld_pollee := pollee_del_events ev (ld_pollee ld)\<rparr>"

definition update_readable_state :: "'b tty_rb_ops \<Rightarrow> (nat \<Rightarrow> bool) \<Rightarrow> bool \<Rightarrow> 'b ldisc \<Rightarrow> 'b ldisc" where
  "update_readable_state ops alive intr ld =
    (if intr then ld\<lparr>ld_para_pollee := Some (if \<not> tr_is_empty ops (ld_read ld) then PAdd else PDel),
                    ld_work_items := ld_work_items ld + 1\<rparr>
     else if \<not> tr_is_empty ops (ld_read ld) then ld_add_events alive IO_IN ld
     else ld_del_events IO_IN ld)"

definition update_readable_state_after :: "(nat \<Rightarrow> bool) \<Rightarrow> 'b ldisc \<Rightarrow> 'b ldisc" where
  "update_readable_state_after alive ld =
    (let ld1 = (case ld_para_signal ld of None \<Rightarrow> ld
                | Some s \<Rightarrow> ld\<lparr>ld_para_signal := None, ld_signals := ld_signals ld @ [s]\<rparr>)
     in case ld_para_pollee ld1 of None \<Rightarrow> ld1
        | Some PAdd \<Rightarrow> ld_add_events alive IO_IN (ld1\<lparr>ld_para_pollee := None\<rparr>)
        | Some PDel \<Rightarrow> ld_del_events IO_IN (ld1\<lparr>ld_para_pollee := None\<rparr>))"

definition push_char :: "'b tty_rb_ops \<Rightarrow> (nat \<Rightarrow> bool) \<Rightarrow> bool \<Rightarrow> u8 \<Rightarrow> 'b ldisc \<Rightarrow> 'b ldisc res" where
  "push_char ops alive intr ch0 ld =
    (let t = ld_termios ld; ch = (if contains_icrnl t \<and> ch0 = 13 then 10 else ch0);
         (sent, ld0) = may_send_signal intr t ch ld
     in if sent then Ok ld0
        else let ld1 = (if contain_echo t then output_char ch t ld0 else ld0)
        in if \<not> is_canonical_mode t
           then Ok (update_readable_state ops alive intr (ld1\<lparr>ld_read := tr_push_overwrite ops ch (ld_read ld1)\<rparr>))
           else let ld2 = (if ch = get_special_char t VKILL then ld1\<lparr>ld_current := snd (drain ops (ld_current ld1))\<rparr> else ld1);
                    ld3 = (if ch = get_special_char t VERASE \<and> \<not> tr_is_empty ops (ld_current ld2)
                           then ld2\<lparr>ld_current := backspace ops (ld_current ld2)\<rparr> else ld2)
           in bind_res (if is_line_terminator ch t
                then bind_res (line_push_char ops ch (ld_current ld3)) (\<lambda>cur.
                  let (xs, cur') = drain ops cur
                  in Ok (ld3\<lparr>ld_current := cur', ld_read := fold (tr_push_overwrite ops) xs (ld_read ld3)\<rparr>))
                else Ok ld3) (\<lambda>ld4.
              bind_res (if is_printable_char ch
                then bind_res (line_push_char ops ch (ld_current ld4)) (\<lambda>cur. Ok (ld4\<lparr>ld_current := cur\<rparr>))
                else Ok ld4) (\<lambda>ld5.
              Ok (update_readable_state ops alive intr ld5))))"

text \<open>The loop of \<open>poll_read\<close>: at most \<open>n\<close> bytes, in canonical mode up to a line terminator; the end-of-file
  character is consumed but not delivered.\<close>

fun poll_read_loop :: "'b tty_rb_ops \<Rightarrow> kernel_termios \<Rightarrow> nat \<Rightarrow> 'b \<Rightarrow> u8 list \<times> 'b" where
  "poll_read_loop ops t 0 b = ([], b)"
| "poll_read_loop ops t (Suc n) b =
     (case tr_pop ops b of (None, b1) \<Rightarrow> ([], b1)
      | (Some x, b1) \<Rightarrow>
         if is_canonical_mode t \<and> is_line_terminator x t
         then (if is_eof x t then [] else [x], b1)
         else (let (xs, b2) = poll_read_loop ops t n b1 in (x # xs, b2)))"

definition poll_read :: "'b tty_rb_ops \<Rightarrow> nat \<Rightarrow> 'b ldisc \<Rightarrow> u8 list \<times> 'b ldisc" where
  "poll_read ops dst_len ld =
    (let n = min (tr_len ops (ld_read ld)) dst_len
     in if n = 0 then ([], ld)
        else let (xs, b) = poll_read_loop ops (ld_termios ld) n (ld_read ld) in (xs, ld\<lparr>ld_read := b\<rparr>))"

definition block_read :: "'b tty_rb_ops \<Rightarrow> nat \<Rightarrow> u8 \<Rightarrow> 'b ldisc \<Rightarrow> (u8 list \<times> 'b ldisc) res" where
  "block_read ops dst_len vmin ld =
    (let buffer_len = tr_len ops (ld_read ld)
     in if dst_len \<le> buffer_len then Ok (poll_read ops dst_len ld)
        else if buffer_len < unat vmin then Err EAGAIN
        else Ok (poll_read ops buffer_len ld))"

definition ld_try_read :: "'b tty_rb_ops \<Rightarrow> (nat \<Rightarrow> bool) \<Rightarrow> bool \<Rightarrow> nat \<Rightarrow> 'b ldisc \<Rightarrow> (u8 list \<times> 'b ldisc) res" where
  "ld_try_read ops alive intr dst_len ld =
    (let vmin = get_special_char (ld_termios ld) VMIN; vtime = get_special_char (ld_termios ld) VTIME
     in bind_res (if vtime \<noteq> 0 then panic
                  else if vmin = 0 then Ok (poll_read ops dst_len ld) else block_read ops dst_len vmin ld)
          (\<lambda>(xs, ld1). Ok (xs, update_readable_state ops alive intr ld1)))"

text \<open>One round of the loop of \<open>read\<close>: \<open>None\<close> is to wait for input.\<close>

definition ld_read_once :: "'b tty_rb_ops \<Rightarrow> (nat \<Rightarrow> bool) \<Rightarrow> bool \<Rightarrow> nat \<Rightarrow> 'b ldisc \<Rightarrow> (u8 list \<times> 'b ldisc) res option" where
  "ld_read_once ops alive intr dst_len ld =
    (let r = ld_try_read ops alive intr dst_len ld in if r = Err EAGAIN then None else Some r)"

definition ld_set_termios :: "kernel_termios \<Rightarrow> 'b ldisc \<Rightarrow> 'b ldisc" where
  "ld_set_termios t ld = ld\<lparr>ld_termios := t\<rparr>"

definition drain_input :: "'b tty_rb_ops \<Rightarrow> 'b ldisc \<Rightarrow> 'b ldisc" where
  "drain_input ops ld = ld\<lparr>ld_current := snd (drain ops (ld_current ld)), ld_read := snd (drain ops (ld_read ld))\<rparr>"


section \<open>Correctness\<close>

text \<open>The documented behaviour of \<open>StaticRb<u8, BUFFER_CAPACITY>\<close>.\<close>

definition tty_rb_ok :: "'b tty_rb_ops \<Rightarrow> ('b \<Rightarrow> u8 list) \<Rightarrow> bool" where
  "tty_rb_ok ops contents \<longleftrightarrow>
     contents (tr_default ops) = []
     \<and> (\<forall>x b. contents (tr_push_overwrite ops x b) =
          (if length (contents b) < BUFFER_CAPACITY then contents b @ [x] else tl (contents b) @ [x]))
     \<and> (\<forall>b. fst (tr_pop ops b) = (case contents b of [] \<Rightarrow> None | x # _ \<Rightarrow> Some x) \<and> contents (snd (tr_pop ops b)) = tl (contents b))
     \<and> (\<forall>b. tr_len ops b = length (contents b)) \<and> (\<forall>b. tr_is_full ops b \<longleftrightarrow> length (contents b) = BUFFER_CAPACITY)
     \<and> (\<forall>b. tr_is_empty ops b \<longleftrightarrow> contents b = [])"

lemma tty_rbD:
  assumes "tty_rb_ok ops contents"
  shows "contents (tr_default ops) = []"
    and "length (contents b) < BUFFER_CAPACITY \<Longrightarrow> contents (tr_push_overwrite ops x b) = contents b @ [x]"
    and "fst (tr_pop ops b) = (case contents b of [] \<Rightarrow> None | y # _ \<Rightarrow> Some y)" and "contents (snd (tr_pop ops b)) = tl (contents b)"
    and "tr_len ops b = length (contents b)" and "tr_is_full ops b \<longleftrightarrow> length (contents b) = BUFFER_CAPACITY"
    and "tr_is_empty ops b \<longleftrightarrow> contents b = []"
  using assms by (simp_all add: tty_rb_ok_def)

lemma pop_n_spec:
  assumes "tty_rb_ok ops contents"
  shows "fst (pop_n ops n b) = take n (contents b) \<and> contents (snd (pop_n ops n b)) = drop n (contents b)"
proof (induction n arbitrary: b)
  case 0
  then show ?case by simp
next
  case (Suc n)
  obtain x b1 where p: "tr_pop ops b = (x, b1)" by fastforce
  have q: "x = (case contents b of [] \<Rightarrow> None | y # _ \<Rightarrow> Some y)" "contents b1 = tl (contents b)"
    using tty_rbD(3,4) [OF assms, of b] by (simp_all add: p)
  show ?case
  proof (cases "contents b")
    case Nil
    with q show ?thesis by (simp add: p)
  next
    case (Cons y ys)
    with q Suc.IH [of b1] show ?thesis by (auto simp: p split: prod.split)
  qed
qed

lemma drain_spec:
  assumes "tty_rb_ok ops contents"
  shows "fst (drain ops b) = contents b" and "contents (snd (drain ops b)) = []"
  using pop_n_spec [OF assms, of "length (contents b)" b] by (simp_all add: drain_def tty_rbD(5) [OF assms])

lemma fold_push_spec:
  assumes "tty_rb_ok ops contents"
  shows "length (contents b) + length xs \<le> BUFFER_CAPACITY \<Longrightarrow> contents (fold (tr_push_overwrite ops) xs b) = contents b @ xs"
proof (induction xs arbitrary: b)
  case (Cons x xs)
  then show ?case using tty_rbD(2) [OF assms, of b x] by simp
qed simp

lemma termios_default_chars:
  "get_special_char termios_default VINTR = 3" "get_special_char termios_default VQUIT = 28"
  "get_special_char termios_default VERASE = 127" "get_special_char termios_default VKILL = 21"
  "get_special_char termios_default VEOF = 4" "get_special_char termios_default VTIME = 0"
  "get_special_char termios_default VMIN = 1" "get_special_char termios_default VEOL = 0"
  "get_special_char termios_default VEOL2 = 0"
  by (simp_all add: get_special_char_def termios_default_def Let_def control_character_def eval_nat_numeral)

lemma termios_default_flags:
  "is_canonical_mode termios_default" "contains_icrnl termios_default" "contains_isig termios_default"
  "contain_echo termios_default" "contains_echo_ctl termios_default" "contains_iexten termios_default"
  by (simp_all add: is_canonical_mode_def contains_icrnl_def contains_isig_def contain_echo_def contains_echo_ctl_def
      contains_iexten_def termios_default_def Let_def ICRNL_def IXON_def ICANON_def ECHO_def ISIG_def ECHOE_def ECHOK_def
      ECHOCTL_def ECHOKE_def IEXTEN_def)

lemmas termios_default_simps = termios_default_chars termios_default_flags

lemma printable_not_special:
  assumes "is_printable_char c"
  shows "c \<noteq> 0" "c \<noteq> 3" "c \<noteq> 4" "c \<noteq> 10" "c \<noteq> 13" "c \<noteq> 21" "c \<noteq> 28" "c \<noteq> 127"
  using assms by (auto simp: is_printable_char_def)

lemma update_readable_fields [simp]:
  "ld_current (update_readable_state ops alive intr ld) = ld_current ld" "ld_read (update_readable_state ops alive intr ld) = ld_read ld"
  "ld_termios (update_readable_state ops alive intr ld) = ld_termios ld" "ld_echo (update_readable_state ops alive intr ld) = ld_echo ld"
  by (simp_all add: update_readable_state_def ld_add_events_def ld_del_events_def)

lemma output_char_fields [simp]:
  "ld_current (output_char ch t ld) = ld_current ld" "ld_read (output_char ch t ld) = ld_read ld"
  "ld_termios (output_char ch t ld) = ld_termios ld"
  by (simp_all add: output_char_def)

lemma push_printable:
  assumes rb: "tty_rb_ok ops contents" and t: "ld_termios ld = termios_default" and c: "is_printable_char c"
    and l: "length (contents (ld_current ld)) < BUFFER_CAPACITY"
  shows "\<exists>ld'. push_char ops alive intr c ld = Ok ld' \<and> contents (ld_current ld') = contents (ld_current ld) @ [c]
     \<and> ld_read ld' = ld_read ld \<and> ld_termios ld' = termios_default"
  using c l printable_not_special [OF c]
  by (simp add: push_char_def t termios_default_simps may_send_signal_def Let_def is_line_terminator_def line_push_char_def
      tty_rbD(6) [OF rb] tty_rbD(2) [OF rb])

lemma push_terminator:
  assumes rb: "tty_rb_ok ops contents" and t: "ld_termios ld = termios_default" and c: "c = 10 \<or> c = 13"
    and l: "length (contents (ld_current ld)) + length (contents (ld_read ld)) < BUFFER_CAPACITY"
  shows "\<exists>ld'. push_char ops alive intr c ld = Ok ld' \<and> contents (ld_current ld') = []
     \<and> contents (ld_read ld') = contents (ld_read ld) @ contents (ld_current ld) @ [10] \<and> ld_termios ld' = termios_default"
proof -
  have p: "\<not> is_printable_char 10" by (simp add: is_printable_char_def)
  let ?cur = "tr_push_overwrite ops 10 (ld_current ld)"
  have cur: "contents ?cur = contents (ld_current ld) @ [10]" using l by (simp add: tty_rbD(2) [OF rb])
  obtain xs b where d: "drain ops ?cur = (xs, b)" by fastforce
  have x: "xs = contents (ld_current ld) @ [10]" "contents b = []" using drain_spec [OF rb, of ?cur] by (simp_all add: d cur)
  have f: "contents (fold (tr_push_overwrite ops) xs (ld_read ld)) = contents (ld_read ld) @ xs"
    using l by (intro fold_push_spec [OF rb]) (simp add: x)
  show ?thesis
    unfolding append_assoc [symmetric] x(1) [symmetric]
    using c l by (auto simp: push_char_def t termios_default_simps may_send_signal_def Let_def is_line_terminator_def line_push_char_def
        tty_rbD(6) [OF rb] d x(2) f p [simplified])
qed


lemma push_line:
  assumes rb: "tty_rb_ok ops contents" and t: "ld_termios ld = termios_default" and cs: "list_all is_printable_char cs"
    and l: "length (contents (ld_current ld)) + length cs \<le> BUFFER_CAPACITY"
  shows "\<exists>ld'. fold_res (push_char ops alive intr) cs ld = Ok ld' \<and> contents (ld_current ld') = contents (ld_current ld) @ cs
     \<and> ld_read ld' = ld_read ld \<and> ld_termios ld' = termios_default"
  using t cs l
proof (induction cs arbitrary: ld)
  case Nil
  then show ?case by simp
next
  case (Cons c cs)
  then obtain ld1 where s: "push_char ops alive intr c ld = Ok ld1" "contents (ld_current ld1) = contents (ld_current ld) @ [c]"
    "ld_read ld1 = ld_read ld" "ld_termios ld1 = termios_default"
    using push_printable [OF rb, of ld c alive intr] by auto
  with Cons.IH [of ld1] Cons.prems show ?case by auto
qed

lemma poll_read_line:
  assumes rb: "tty_rb_ok ops contents"
  shows "contents b = cs @ [10] \<Longrightarrow> list_all is_printable_char cs \<Longrightarrow>
    fst (poll_read_loop ops termios_default (length cs + 1) b) = cs @ [10]
    \<and> contents (snd (poll_read_loop ops termios_default (length cs + 1) b)) = []"
proof (induction cs arbitrary: b)
  case Nil
  obtain x b1 where p: "tr_pop ops b = (x, b1)" by fastforce
  have "x = Some 10" "contents b1 = []" using tty_rbD(3,4) [OF rb, of b] Nil by (simp_all add: p)
  then show ?case by (simp add: p termios_default_simps is_line_terminator_def is_eof_def)
next
  case (Cons c cs)
  obtain x b1 where p: "tr_pop ops b = (x, b1)" by fastforce
  have x: "x = Some c" "contents b1 = cs @ [10]" using tty_rbD(3,4) [OF rb, of b] Cons.prems by (simp_all add: p)
  have c: "\<not> is_line_terminator c termios_default"
    using Cons.prems(2) printable_not_special [of c] by (simp add: is_line_terminator_def termios_default_simps)
  from Cons.IH [OF x(2)] Cons.prems(2) c show ?case by (auto simp: p x(1) split: prod.split)
qed

text \<open>A buffer that is a list, to show that the documented behaviour is consistent.\<close>

definition list_tty_ops :: "u8 list tty_rb_ops" where
  "list_tty_ops = \<lparr>tr_default = [], tr_push_overwrite = (\<lambda>x b. (if length b < BUFFER_CAPACITY then b else tl b) @ [x]),
     tr_pop = (\<lambda>b. case b of [] \<Rightarrow> (None, []) | x # xs \<Rightarrow> (Some x, xs)), tr_len = length,
     tr_is_full = (\<lambda>b. length b = BUFFER_CAPACITY), tr_is_empty = (\<lambda>b. b = [])\<rparr>"

lemma list_tty_ok: "tty_rb_ok list_tty_ops (\<lambda>b. b)"
  by (simp add: tty_rb_ok_def list_tty_ops_def split: list.split)

text \<open>(C31) A line typed at a terminal with the default settings reaches the reader as it was typed. For printable
  characters and a line that fits the buffer: while the line is not terminated a read has to wait; after a
  newline or carriage return one read returns exactly the characters followed by a newline, and both buffers
  are empty again. No character makes the kernel panic.\<close>

theorem tty_line_round_trip:
  assumes rb: "tty_rb_ok ops contents" and cs: "list_all is_printable_char cs" and len: "length cs < BUFFER_CAPACITY"
    and nl: "nl = 10 \<or> nl = 13" and dst: "length cs < n"
  shows "\<exists>ld0 ld1 ld2. fold_res (push_char ops alive intr) cs (ldisc_new ops) = Ok ld0
    \<and> ld_read_once ops alive intr n ld0 = None
    \<and> fold_res (push_char ops alive intr) (cs @ [nl]) (ldisc_new ops) = Ok ld1
    \<and> ld_read_once ops alive intr n ld1 = Some (Ok (cs @ [10], ld2))
    \<and> contents (ld_read ld2) = [] \<and> contents (ld_current ld2) = []"
proof -
  let ?ld = "ldisc_new ops"
  have new: "ld_termios ?ld = termios_default" "contents (ld_current ?ld) = []" "contents (ld_read ?ld) = []"
    by (simp_all add: ldisc_new_def tty_rbD(1) [OF rb])
  from push_line [OF rb new(1) cs, of alive intr] new len obtain ld0 where
    a: "fold_res (push_char ops alive intr) cs ?ld = Ok ld0" "contents (ld_current ld0) = cs" "ld_read ld0 = ld_read ?ld"
       "ld_termios ld0 = termios_default" by auto
  have r0: "tr_len ops (ld_read ld0) = 0" by (simp add: tty_rbD(5) [OF rb] a(3) new(3))
  have w: "ld_read_once ops alive intr n ld0 = None"
    using dst r0 by (simp add: ld_read_once_def ld_try_read_def a(4) termios_default_simps block_read_def Let_def)
  from push_terminator [OF rb a(4) nl, of alive intr] a new len obtain ld1 where
    b: "push_char ops alive intr nl ld0 = Ok ld1" "contents (ld_current ld1) = []" "contents (ld_read ld1) = cs @ [10]"
       "ld_termios ld1 = termios_default" by auto
  have f: "fold_res (push_char ops alive intr) (cs @ [nl]) ?ld = Ok ld1" by (simp add: fold_res_append a(1) b(1))
  obtain xs q where p: "poll_read_loop ops termios_default (length cs + 1) (ld_read ld1) = (xs, q)" by fastforce
  have x: "xs = cs @ [10]" "contents q = []" using poll_read_line [OF rb b(3) cs] by (simp_all only: p fst_conv snd_conv)
  have l1: "tr_len ops (ld_read ld1) = length cs + 1" by (simp add: tty_rbD(5) [OF rb] b(3))
  have pr: "poll_read ops k ld1 = (cs @ [10], ld1\<lparr>ld_read := q\<rparr>)" if "length cs + 1 \<le> k" for k
    unfolding poll_read_def l1 b(4) Let_def min_absorb1 [OF that] p x(1) by simp
  have "block_read ops n 1 ld1 = Ok (cs @ [10], ld1\<lparr>ld_read := q\<rparr>)"
    unfolding block_read_def Let_def l1 using dst pr [of n] pr [of "length cs + 1"] by simp
  then have "ld_read_once ops alive intr n ld1 = Some (Ok (cs @ [10], update_readable_state ops alive intr (ld1\<lparr>ld_read := q\<rparr>)))"
    by (simp add: ld_read_once_def ld_try_read_def b(4) termios_default_simps Let_def)
  with a(1) w f x(2) b(2) show ?thesis
    by (intro exI [of _ ld0] exI [of _ ld1] exI [of _ "update_readable_state ops alive intr (ld1\<lparr>ld_read := q\<rparr>)"]) simp
qed

theorem tty_line_round_trip_witness:
  "\<exists>ld1 ld2. fold_res (push_char list_tty_ops (\<lambda>_. True) False) [104, 105, 13] (ldisc_new list_tty_ops) = Ok ld1
     \<and> ld_read_once list_tty_ops (\<lambda>_. True) False 80 ld1 = Some (Ok ([104, 105, 10], ld2))"
proof -
  have "list_all is_printable_char [104, 105]" "length [104 :: u8, 105] < BUFFER_CAPACITY"
    by (simp_all add: is_printable_char_def BUFFER_CAPACITY_def)
  from tty_line_round_trip [OF list_tty_ok this, of 13 80 "\<lambda>_. True" False] show ?thesis by auto
qed

text \<open>Input that the line discipline treats wrongly, with the default settings. The erase character removes the
  oldest character of the line instead of the newest, because \<open>backspace\<close> pops the front of the queue. A control
  character is echoed as a caret and the decimal code of the letter: control-A gives \<open>^65\<close>. A printable character
  typed when the line is full panics. A read panics when \<open>VTIME\<close> is not zero.\<close>

theorem tty_wrong_editing:
  assumes rb: "tty_rb_ok ops contents" and t: "ld_termios ld = termios_default"
  shows "(contents (ld_current ld) = x # xs \<longrightarrow>
      (\<exists>ld'. push_char ops alive intr 0x7f ld = Ok ld' \<and> contents (ld_current ld') = xs))
    \<and> (\<exists>ld'. push_char ops alive intr 1 ld = Ok ld' \<and> ld_echo ld' = ld_echo ld @ ''^65'')
    \<and> (length (contents (ld_current ld)) = BUFFER_CAPACITY \<and> is_printable_char c \<longrightarrow> push_char ops alive intr c ld = panic)
    \<and> (get_special_char t' VTIME \<noteq> 0 \<longrightarrow> ld_read_once ops alive intr n (ld_set_termios t' ld) = Some panic)"
proof (intro conjI impI)
  assume c: "contents (ld_current ld) = x # xs"
  show "\<exists>ld'. push_char ops alive intr 0x7f ld = Ok ld' \<and> contents (ld_current ld') = xs"
    using c tty_rbD(4) [OF rb, of "ld_current ld"]
    by (simp add: push_char_def t termios_default_simps may_send_signal_def Let_def is_line_terminator_def is_printable_char_def
        backspace_def tty_rbD(7) [OF rb])
next
  have d: "CHR ''^'' # decimal2 65 = ''^65''" by (simp add: decimal2_def char_of_def bit_0)
  have np: "\<not> is_printable_char 1" by (simp add: is_printable_char_def word_le_nat_alt)
  show "\<exists>ld'. push_char ops alive intr 1 ld = Ok ld' \<and> ld_echo ld' = ld_echo ld @ ''^65''"
    using d np by (simp add: push_char_def t termios_default_simps may_send_signal_def Let_def is_line_terminator_def
        output_char_def is_ctrl_char_def get_printable_char_def)
next
  assume "length (contents (ld_current ld)) = BUFFER_CAPACITY \<and> is_printable_char c"
  then show "push_char ops alive intr c ld = panic"
    using printable_not_special [of c]
    by (simp add: push_char_def t termios_default_simps may_send_signal_def Let_def is_line_terminator_def line_push_char_def
        tty_rbD(6) [OF rb])
next
  assume "get_special_char t' VTIME \<noteq> 0"
  then show "ld_read_once ops alive intr n (ld_set_termios t' ld) = Some panic"
    by (simp add: ld_read_once_def ld_try_read_def ld_set_termios_def Let_def)
qed

theorem tty_wrong_editing_witness:
  "\<exists>ld'. push_char list_tty_ops (\<lambda>_. True) False 0x7f ((ldisc_new list_tty_ops)\<lparr>ld_current := [97, 98]\<rparr>) = Ok ld' \<and> ld_current ld' = [98]"
  using tty_wrong_editing [OF list_tty_ok, of "(ldisc_new list_tty_ops)\<lparr>ld_current := [97, 98]\<rparr>" 97 "[98]"]
  by (auto simp: ldisc_new_def)

end
