(* ===== verification/Frames.thy ===== *)
theory Frames
  imports Prelude
begin

text \<open>
  \<open>framework/aster-frame/src/vm/frame.rs\<close>: page frames, collections of frames, contiguous segments, and the
  readers and writers that move bytes. The kernel's memory is one function \<open>kmem\<close> from kernel virtual
  addresses to bytes: a frame is reached through the direct mapping (\<open>paddr_to_vaddr\<close>), a byte slice \<open>&[u8]\<close> is
  its address and its length, and \<open>core::ptr::copy\<close> is \<open>mem_copy\<close>. A \<open>VmFrame\<close> is the word it stores, the frame
  index with the flag \<open>NEED_DEALLOC\<close> in bit 63; the reference count of its \<open>Arc\<close> is not part of the model, so the
  \<open>Drop\<close> implementations, which give the frames back to the allocator, are left out. Addresses are naturals:
  the frames of the machine lie below 127 TiB, the size of the direct mapping, so sums of addresses stay far
  below the range of \<open>usize\<close>; the sum of a caller's offset and length is checked.
\<close>

section \<open>Memory, readers and writers\<close>

datatype frame_error =
  InvalidArgs | NoMemory | PageFault | AccessDenied | IoError | NotEnoughResources | Overflow

type_synonym 'a fres = "(frame_error, 'a) pres"
type_synonym kmem = "nat \<Rightarrow> u8"
type_synonym slice_ref = "nat \<times> nat"

definition PHYS_MEM_BASE_VADDR :: nat where "PHYS_MEM_BASE_VADDR = 0xffff800000000000"

definition paddr_to_vaddr :: "nat \<Rightarrow> nat" where "paddr_to_vaddr pa = pa + PHYS_MEM_BASE_VADDR"

definition is_page_aligned :: "nat \<Rightarrow> bool" where "is_page_aligned p \<longleftrightarrow> p AND (PAGE_SIZE - 1) = 0"

definition mem_copy :: "nat \<Rightarrow> nat \<Rightarrow> nat \<Rightarrow> kmem \<Rightarrow> kmem" where
  "mem_copy src dst n m = (\<lambda>a. if dst \<le> a \<and> a < dst + n then m (src + (a - dst)) else m a)"

record vm_reader =
  vr_cursor :: nat
  vr_end :: nat

record vm_writer =
  vw_cursor :: nat
  vw_end :: nat

definition reader_from_raw_parts :: "nat \<Rightarrow> nat \<Rightarrow> vm_reader" where
  "reader_from_raw_parts ptr n = \<lparr>vr_cursor = ptr, vr_end = ptr + n\<rparr>"

definition vr_remain :: "vm_reader \<Rightarrow> nat" where "vr_remain r = vr_end r - vr_cursor r"

definition vr_has_remain :: "vm_reader \<Rightarrow> bool" where "vr_has_remain r \<longleftrightarrow> vr_remain r > 0"

definition vr_limit :: "nat \<Rightarrow> vm_reader \<Rightarrow> vm_reader" where
  "vr_limit max_remain r = (if max_remain < vr_remain r then r\<lparr>vr_end := vr_cursor r + max_remain\<rparr> else r)"

definition vr_skip :: "nat \<Rightarrow> vm_reader \<Rightarrow> vm_reader fres" where
  "vr_skip n r = (if n \<le> vr_remain r then Ok (r\<lparr>vr_cursor := vr_cursor r + n\<rparr>) else Inl Panics)"

definition writer_from_raw_parts :: "nat \<Rightarrow> nat \<Rightarrow> vm_writer" where
  "writer_from_raw_parts ptr n = \<lparr>vw_cursor = ptr, vw_end = ptr + n\<rparr>"

definition vw_avail :: "vm_writer \<Rightarrow> nat" where "vw_avail w = vw_end w - vw_cursor w"

definition vw_has_avail :: "vm_writer \<Rightarrow> bool" where "vw_has_avail w \<longleftrightarrow> vw_avail w > 0"

definition vw_limit :: "nat \<Rightarrow> vm_writer \<Rightarrow> vm_writer" where
  "vw_limit max_avail w = (if max_avail < vw_avail w then w\<lparr>vw_end := vw_cursor w + max_avail\<rparr> else w)"

definition vw_skip :: "nat \<Rightarrow> vm_writer \<Rightarrow> vm_writer fres" where
  "vw_skip n w = (if n \<le> vw_avail w then Ok (w\<lparr>vw_cursor := vw_cursor w + n\<rparr>) else Inl Panics)"

definition vr_read :: "vm_reader \<Rightarrow> vm_writer \<Rightarrow> kmem \<Rightarrow> nat \<times> vm_reader \<times> vm_writer \<times> kmem" where
  "vr_read r w m =
    (let copy_len = min (vr_remain r) (vw_avail w)
     in if copy_len = 0 then (0, r, w, m)
        else (copy_len, r\<lparr>vr_cursor := vr_cursor r + copy_len\<rparr>, w\<lparr>vw_cursor := vw_cursor w + copy_len\<rparr>,
              mem_copy (vr_cursor r) (vw_cursor w) copy_len m))"

definition vw_write :: "vm_writer \<Rightarrow> vm_reader \<Rightarrow> kmem \<Rightarrow> nat \<times> vm_writer \<times> vm_reader \<times> kmem" where
  "vw_write w r m =
    (let copy_len = min (vw_avail w) (vr_remain r)
     in if copy_len = 0 then (0, w, r, m)
        else (copy_len, w\<lparr>vw_cursor := vw_cursor w + copy_len\<rparr>, r\<lparr>vr_cursor := vr_cursor r + copy_len\<rparr>,
              mem_copy (vr_cursor r) (vw_cursor w) copy_len m))"

definition reader_of :: "slice_ref \<Rightarrow> vm_reader" where "reader_of s = reader_from_raw_parts (fst s) (snd s)"

definition writer_of :: "slice_ref \<Rightarrow> vm_writer" where "writer_of s = writer_from_raw_parts (fst s) (snd s)"

text \<open>\<open>fill\<close> writes the bytes \<open>v\<close> of a value again and again; they are in a temporary, so here the bytes
  themselves are the source. The two assertions make the value non-empty and its length a divisor of the
  space, so each turn of the loop makes progress.\<close>

definition mem_store :: "nat \<Rightarrow> u8 list \<Rightarrow> kmem \<Rightarrow> kmem" where
  "mem_store dst bs m = (\<lambda>a. if dst \<le> a \<and> a < dst + length bs then bs ! (a - dst) else m a)"

function vw_fill_loop :: "u8 list \<Rightarrow> vm_writer \<Rightarrow> kmem \<Rightarrow> kmem" where
  "vw_fill_loop v w m =
    (if vw_avail w > 0 \<and> v \<noteq> []
     then let n = min (vw_avail w) (length v)
          in vw_fill_loop v (w\<lparr>vw_cursor := vw_cursor w + n\<rparr>) (mem_store (vw_cursor w) (take n v) m)
     else m)"
  by pat_completeness auto

termination
  by (relation "measure (\<lambda>(v, w, m). vw_avail w)")
    (simp_all add: vw_avail_def min_def flip: length_greater_0_conv, arith)

definition vw_fill :: "u8 list \<Rightarrow> vm_writer \<Rightarrow> kmem \<Rightarrow> kmem fres" where
  "vw_fill v w m =
    (if v = [] \<or> \<not> vw_avail w div length v > 0 \<or> vw_avail w mod length v \<noteq> 0 then Inl Panics
     else Ok (vw_fill_loop v w m))"

section \<open>Frames\<close>

type_synonym vm_frame = u64

definition NEED_DEALLOC :: u64 where "NEED_DEALLOC = 2 ^ 63"

definition vm_frame_new :: "nat \<Rightarrow> u64 \<Rightarrow> vm_frame fres" where
  "vm_frame_new paddr flags =
    (if paddr mod PAGE_SIZE = 0 then Ok (of_nat (paddr div PAGE_SIZE) OR flags) else Inl Panics)"

definition frame_index :: "vm_frame \<Rightarrow> u64" where "frame_index f = f AND NOT NEED_DEALLOC"

definition need_dealloc :: "vm_frame \<Rightarrow> bool" where "need_dealloc f \<longleftrightarrow> f AND NEED_DEALLOC \<noteq> 0"

definition start_paddr :: "vm_frame \<Rightarrow> nat" where "start_paddr f = unat (frame_index f) * PAGE_SIZE"

definition end_paddr :: "vm_frame \<Rightarrow> nat" where "end_paddr f = (unat (frame_index f) + 1) * PAGE_SIZE"

definition frame_ptr :: "vm_frame \<Rightarrow> nat" where "frame_ptr f = paddr_to_vaddr (start_paddr f)"

definition copy_from_frame :: "vm_frame \<Rightarrow> vm_frame \<Rightarrow> kmem \<Rightarrow> kmem" where
  "copy_from_frame self src m = (if self = src then m else mem_copy (frame_ptr src) (frame_ptr self) PAGE_SIZE m)"

definition frame_reader :: "vm_frame \<Rightarrow> vm_reader" where "frame_reader f = reader_from_raw_parts (frame_ptr f) PAGE_SIZE"

definition frame_writer :: "vm_frame \<Rightarrow> vm_writer" where "frame_writer f = writer_from_raw_parts (frame_ptr f) PAGE_SIZE"

definition frame_read_bytes :: "nat \<Rightarrow> slice_ref \<Rightarrow> vm_frame \<Rightarrow> kmem \<Rightarrow> kmem fres" where
  "frame_read_bytes offset buf f m =
    bind_res (puadd (snd buf) offset) (\<lambda>e.
    if e > PAGE_SIZE then Inl (Throws InvalidArgs)
    else bind_res (vr_skip offset (frame_reader f)) (\<lambda>r.
      let (n, _, _, m') = vr_read r (writer_of buf) m in if n = snd buf then Ok m' else Inl Panics))"

definition frame_write_bytes :: "nat \<Rightarrow> slice_ref \<Rightarrow> vm_frame \<Rightarrow> kmem \<Rightarrow> kmem fres" where
  "frame_write_bytes offset buf f m =
    bind_res (puadd (snd buf) offset) (\<lambda>e.
    if e > PAGE_SIZE then Inl (Throws InvalidArgs)
    else bind_res (vw_skip offset (frame_writer f)) (\<lambda>w.
      let (n, _, _, m') = vw_write w (reader_of buf) m in if n = snd buf then Ok m' else Inl Panics))"

section \<open>Collections of frames\<close>

type_synonym vm_frame_vec = "vm_frame list"

definition fv_get :: "nat \<Rightarrow> vm_frame_vec \<Rightarrow> vm_frame option" where
  "fv_get index fs = (if index < length fs then Some (fs ! index) else None)"

definition fv_push :: "vm_frame \<Rightarrow> vm_frame_vec \<Rightarrow> vm_frame_vec" where "fv_push f fs = fs @ [f]"

definition fv_pop :: "vm_frame_vec \<Rightarrow> vm_frame option \<times> vm_frame_vec" where
  "fv_pop fs = (if fs = [] then (None, fs) else (Some (last fs), butlast fs))"

definition fv_remove :: "nat \<Rightarrow> vm_frame_vec \<Rightarrow> (vm_frame \<times> vm_frame_vec) fres" where
  "fv_remove at fs = (if at < length fs then Ok (fs ! at, take at fs @ drop (at + 1) fs) else Inl Panics)"

definition fv_append :: "vm_frame_vec \<Rightarrow> vm_frame_vec \<Rightarrow> vm_frame_vec \<times> vm_frame_vec" where
  "fv_append other fs = ([], fs @ other)"

definition fv_truncate :: "nat \<Rightarrow> vm_frame_vec \<Rightarrow> vm_frame_vec" where
  "fv_truncate new_len fs = (if new_len \<ge> length fs then fs else take new_len fs)"

definition fv_nbytes :: "vm_frame_vec \<Rightarrow> nat" where "fv_nbytes fs = length fs * PAGE_SIZE"

definition from_one_frame :: "vm_frame \<Rightarrow> vm_frame_vec" where "from_one_frame f = [f]"

fun fv_read_loop :: "vm_frame_vec \<Rightarrow> nat \<Rightarrow> vm_writer \<Rightarrow> kmem \<Rightarrow> kmem fres" where
  "fv_read_loop [] start w m = Ok m"
| "fv_read_loop (f # fs) start w m =
    bind_res (vr_skip start (frame_reader f)) (\<lambda>r.
    let (read_len, _, w', m') = vr_read r w m
    in if read_len = 0 then Ok m' else fv_read_loop fs 0 w' m')"

definition fv_read_bytes :: "nat \<Rightarrow> slice_ref \<Rightarrow> vm_frame_vec \<Rightarrow> kmem \<Rightarrow> kmem fres" where
  "fv_read_bytes offset buf fs m =
    bind_res (puadd (snd buf) offset) (\<lambda>e.
    if e > fv_nbytes fs then Inl (Throws InvalidArgs)
    else fv_read_loop (drop (offset div PAGE_SIZE) fs) (offset mod PAGE_SIZE) (writer_of buf) m)"

fun fv_write_loop :: "vm_frame_vec \<Rightarrow> nat \<Rightarrow> vm_reader \<Rightarrow> kmem \<Rightarrow> kmem fres" where
  "fv_write_loop [] start r m = Ok m"
| "fv_write_loop (f # fs) start r m =
    bind_res (vw_skip start (frame_writer f)) (\<lambda>w.
    let (write_len, _, r', m') = vw_write w r m
    in if write_len = 0 then Ok m' else fv_write_loop fs 0 r' m')"

definition fv_write_bytes :: "nat \<Rightarrow> slice_ref \<Rightarrow> vm_frame_vec \<Rightarrow> kmem \<Rightarrow> kmem fres" where
  "fv_write_bytes offset buf fs m =
    bind_res (puadd (snd buf) offset) (\<lambda>e.
    if e > fv_nbytes fs then Inl (Throws InvalidArgs)
    else fv_write_loop (drop (offset div PAGE_SIZE) fs) (offset mod PAGE_SIZE) (reader_of buf) m)"

text \<open>\<open>VmFrameVecIter\<close>, an iterator of its own beside that of \<open>Vec\<close>.\<close>

record frame_vec_iter =
  fvi_frames :: vm_frame_vec
  fvi_current :: nat

definition fvi_new :: "vm_frame_vec \<Rightarrow> frame_vec_iter" where
  "fvi_new fs = \<lparr>fvi_frames = fs, fvi_current = 0\<rparr>"

definition fvi_next :: "frame_vec_iter \<Rightarrow> vm_frame option \<times> frame_vec_iter" where
  "fvi_next it =
    (if fvi_current it \<ge> length (fvi_frames it) then (None, it) else (Some (fvi_frames it ! fvi_current it), it))"

section \<open>Segments\<close>

record vm_segment =
  seg_start_frame_index :: u64
  seg_inner_nframes :: nat
  seg_range_start :: nat
  seg_range_end :: nat

definition segment_new :: "nat \<Rightarrow> nat \<Rightarrow> u64 \<Rightarrow> vm_segment fres" where
  "segment_new paddr nframes flags =
    (if paddr mod PAGE_SIZE = 0
     then Ok \<lparr>seg_start_frame_index = of_nat (paddr div PAGE_SIZE) OR flags, seg_inner_nframes = nframes,
              seg_range_start = 0, seg_range_end = nframes\<rparr>
     else Inl Panics)"

definition seg_range :: "nat \<Rightarrow> nat \<Rightarrow> vm_segment \<Rightarrow> vm_segment fres" where
  "seg_range s e seg =
    (let adj_start = s + seg_range_start seg; adj_end = e + seg_range_start seg
     in if adj_start < adj_end \<and> adj_end \<le> seg_range_end seg
        then Ok (seg\<lparr>seg_range_start := adj_start, seg_range_end := adj_end\<rparr>) else Inl Panics)"

definition seg_first_index :: "vm_segment \<Rightarrow> nat" where
  "seg_first_index seg = unat (seg_start_frame_index seg AND NOT NEED_DEALLOC) + seg_range_start seg"

definition seg_nframes :: "vm_segment \<Rightarrow> nat" where "seg_nframes seg = seg_range_end seg - seg_range_start seg"

definition seg_start_paddr :: "vm_segment \<Rightarrow> nat" where "seg_start_paddr seg = seg_first_index seg * PAGE_SIZE"

definition seg_end_paddr :: "vm_segment \<Rightarrow> nat" where
  "seg_end_paddr seg = (seg_first_index seg + seg_nframes seg) * PAGE_SIZE"

definition seg_nbytes :: "vm_segment \<Rightarrow> nat" where "seg_nbytes seg = seg_nframes seg * PAGE_SIZE"

definition seg_ptr :: "vm_segment \<Rightarrow> nat" where "seg_ptr seg = paddr_to_vaddr (seg_start_paddr seg)"

definition seg_read_bytes :: "nat \<Rightarrow> slice_ref \<Rightarrow> vm_segment \<Rightarrow> kmem \<Rightarrow> kmem fres" where
  "seg_read_bytes offset buf seg m =
    bind_res (puadd (snd buf) offset) (\<lambda>e.
    if e > seg_nbytes seg then Inl (Throws InvalidArgs)
    else bind_res (vr_skip offset (reader_from_raw_parts (seg_ptr seg) (seg_nbytes seg))) (\<lambda>r.
      let (n, _, _, m') = vr_read r (writer_of buf) m in if n = snd buf then Ok m' else Inl Panics))"

definition seg_write_bytes :: "nat \<Rightarrow> slice_ref \<Rightarrow> vm_segment \<Rightarrow> kmem \<Rightarrow> kmem fres" where
  "seg_write_bytes offset buf seg m =
    bind_res (puadd (snd buf) offset) (\<lambda>e.
    if e > seg_nbytes seg then Inl (Throws InvalidArgs)
    else bind_res (vw_skip offset (writer_from_raw_parts (seg_ptr seg) (seg_nbytes seg))) (\<lambda>w.
      let (n, _, _, m') = vw_write w (reader_of buf) m in if n = snd buf then Ok m' else Inl Panics))"

section \<open>Allocation\<close>

text \<open>\<open>frame_allocator.rs\<close> and \<open>options.rs\<close>. The buddy allocator is a crate: its state is \<open>'a\<close> and its operation
  \<open>alloc\<close> the parameter \<open>fa\<close>, which takes a number of frames and answers with the index of the first of them. A
  \<open>world\<close> is the kernel's memory and the allocator.\<close>

record 'a world =
  w_mem :: kmem
  w_alloc :: 'a

type_synonym 'a frame_alloc = "nat \<Rightarrow> 'a \<Rightarrow> nat option \<times> 'a"

definition fa_alloc_single :: "'a frame_alloc \<Rightarrow> u64 \<Rightarrow> 'a world \<Rightarrow> vm_frame option fres \<times> 'a world" where
  "fa_alloc_single fa flags w =
    (case fa 1 (w_alloc w) of
       (None, al) \<Rightarrow> (Ok None, w\<lparr>w_alloc := al\<rparr>)
     | (Some idx, al) \<Rightarrow>
         (bind_res (vm_frame_new (idx * PAGE_SIZE) (flags OR NEED_DEALLOC)) (\<lambda>f. Ok (Some f)), w\<lparr>w_alloc := al\<rparr>))"

definition fa_alloc_many :: "'a frame_alloc \<Rightarrow> nat \<Rightarrow> u64 \<Rightarrow> 'a world \<Rightarrow> vm_frame_vec option fres \<times> 'a world" where
  "fa_alloc_many fa nframes flags w =
    (case fa nframes (w_alloc w) of
       (None, al) \<Rightarrow> (Ok None, w\<lparr>w_alloc := al\<rparr>)
     | (Some start, al) \<Rightarrow>
         (bind_res (fold_res (\<lambda>i v. bind_res (vm_frame_new ((start + i) * PAGE_SIZE) (flags OR NEED_DEALLOC))
                                            (\<lambda>f. Ok (v @ [f]))) [0..<nframes] []) (\<lambda>v. Ok (Some v)),
          w\<lparr>w_alloc := al\<rparr>))"

definition fa_alloc_contiguous :: "'a frame_alloc \<Rightarrow> nat \<Rightarrow> u64 \<Rightarrow> 'a world \<Rightarrow> vm_segment option fres \<times> 'a world" where
  "fa_alloc_contiguous fa nframes flags w =
    (case fa nframes (w_alloc w) of
       (None, al) \<Rightarrow> (Ok None, w\<lparr>w_alloc := al\<rparr>)
     | (Some start, al) \<Rightarrow>
         (bind_res (segment_new (start * PAGE_SIZE) nframes (flags OR NEED_DEALLOC)) (\<lambda>s. Ok (Some s)), w\<lparr>w_alloc := al\<rparr>))"

record alloc_options =
  ao_nframes :: nat
  ao_is_contiguous :: bool
  ao_uninit :: bool
  ao_need_dealloc :: bool

definition alloc_options_new :: "nat \<Rightarrow> alloc_options" where
  "alloc_options_new nframes =
    \<lparr>ao_nframes = nframes, ao_is_contiguous = False, ao_uninit = False, ao_need_dealloc = True\<rparr>"

definition ao_flags :: "alloc_options \<Rightarrow> u64" where
  "ao_flags opts = (if ao_need_dealloc opts then NEED_DEALLOC else 0)"

text \<open>The literal \<open>0\<close> of \<open>fill(0)\<close> is an \<open>i32\<close>.\<close>

definition zero_i32 :: "u8 list" where "zero_i32 = [0, 0, 0, 0]"

definition alloc_single :: "'a frame_alloc \<Rightarrow> alloc_options \<Rightarrow> 'a world \<Rightarrow> vm_frame fres \<times> 'a world" where
  "alloc_single fa opts w =
    (if ao_nframes opts \<noteq> 1 then (Inl (Throws InvalidArgs), w)
     else case fa_alloc_single fa (ao_flags opts) w of
       (Inl e, w1) \<Rightarrow> (Inl e, w1)
     | (Inr None, w1) \<Rightarrow> (Inl (Throws NoMemory), w1)
     | (Inr (Some f), w1) \<Rightarrow>
         if ao_uninit opts then (Ok f, w1)
         else case vw_fill zero_i32 (frame_writer f) (w_mem w1) of
                Inl e \<Rightarrow> (Inl e, w1) | Inr m \<Rightarrow> (Ok f, w1\<lparr>w_mem := m\<rparr>))"

definition alloc_contiguous :: "'a frame_alloc \<Rightarrow> alloc_options \<Rightarrow> 'a world \<Rightarrow> vm_segment fres \<times> 'a world" where
  "alloc_contiguous fa opts w =
    (if \<not> ao_is_contiguous opts \<or> ao_nframes opts = 0 then (Inl (Throws InvalidArgs), w)
     else case fa_alloc_contiguous fa (ao_nframes opts) (ao_flags opts) w of
       (Inl e, w1) \<Rightarrow> (Inl e, w1)
     | (Inr None, w1) \<Rightarrow> (Inl (Throws NoMemory), w1)
     | (Inr (Some s), w1) \<Rightarrow>
         if ao_uninit opts then (Ok s, w1)
         else case vw_fill zero_i32 (writer_from_raw_parts (seg_ptr s) (seg_nbytes s)) (w_mem w1) of
                Inl e \<Rightarrow> (Inl e, w1) | Inr m \<Rightarrow> (Ok s, w1\<lparr>w_mem := m\<rparr>))"

fun alloc_frames_loop :: "'a frame_alloc \<Rightarrow> u64 \<Rightarrow> nat \<Rightarrow> vm_frame_vec \<Rightarrow> 'a world \<Rightarrow> vm_frame_vec fres \<times> 'a world" where
  "alloc_frames_loop fa flags 0 v w = (Ok v, w)"
| "alloc_frames_loop fa flags (Suc n) v w =
    (case fa_alloc_single fa flags w of
       (Inl e, w1) \<Rightarrow> (Inl e, w1)
     | (Inr None, w1) \<Rightarrow> (Inl (Throws NoMemory), w1)
     | (Inr (Some f), w1) \<Rightarrow> alloc_frames_loop fa flags n (v @ [f]) w1)"

definition alloc_frames :: "'a frame_alloc \<Rightarrow> alloc_options \<Rightarrow> 'a world \<Rightarrow> vm_frame_vec fres \<times> 'a world" where
  "alloc_frames fa opts w =
    (case (if ao_is_contiguous opts
           then case fa_alloc_many fa (ao_nframes opts) (ao_flags opts) w of
                  (Inl e, w1) \<Rightarrow> (Inl e, w1) | (Inr None, w1) \<Rightarrow> (Inl (Throws NoMemory), w1)
                | (Inr (Some v), w1) \<Rightarrow> (Ok v, w1)
           else alloc_frames_loop fa (ao_flags opts) (ao_nframes opts) [] w) of
       (Inl e, w1) \<Rightarrow> (Inl e, w1)
     | (Inr v, w1) \<Rightarrow>
         if ao_uninit opts then (Ok v, w1)
         else case fold_res (\<lambda>f m. vw_fill zero_i32 (frame_writer f) m) v (w_mem w1) of
                Inl e \<Rightarrow> (Inl e, w1) | Inr m \<Rightarrow> (Ok v, w1\<lparr>w_mem := m\<rparr>))"

section \<open>Specification\<close>

text \<open>The bytes of a range, the addresses of a frame and of a slice, and the contents of a collection of frames
  as one sequence.\<close>

definition bytes_at :: "kmem \<Rightarrow> nat \<Rightarrow> nat \<Rightarrow> u8 list" where "bytes_at m a n = map m [a..<a + n]"

definition slice_span :: "slice_ref \<Rightarrow> nat set" where "slice_span s = {fst s..<fst s + snd s}"

definition frame_span :: "vm_frame \<Rightarrow> nat set" where "frame_span f = {frame_ptr f..<frame_ptr f + PAGE_SIZE}"

definition fv_span :: "vm_frame_vec \<Rightarrow> nat set" where "fv_span fs = (\<Union>f \<in> set fs. frame_span f)"

definition fv_contents :: "kmem \<Rightarrow> vm_frame_vec \<Rightarrow> u8 list" where
  "fv_contents m fs = concat (map (\<lambda>f. bytes_at m (frame_ptr f) PAGE_SIZE) fs)"

definition fv_separate :: "vm_frame_vec \<Rightarrow> bool" where "fv_separate fs \<longleftrightarrow> distinct (map start_paddr fs)"

definition overwrite :: "nat \<Rightarrow> u8 list \<Rightarrow> u8 list \<Rightarrow> u8 list" where
  "overwrite p d c = take p c @ take (length c - p) d @ drop (p + length d) c"

definition seg_frames :: "vm_segment \<Rightarrow> vm_frame_vec" where
  "seg_frames seg = map (\<lambda>i. of_nat (seg_first_index seg + i)) [0..<seg_nframes seg]"

section \<open>Lemmas on memory\<close>

declare vw_fill_loop.simps [simp del]

lemma is_page_aligned_iff: "is_page_aligned p \<longleftrightarrow> p mod PAGE_SIZE = 0"
proof -
  have "p AND mask 12 = p mod 2 ^ 12" by (simp only: take_bit_eq_mask [symmetric] take_bit_eq_mod)
  then show ?thesis by (simp add: is_page_aligned_def mask_eq_exp_minus_1)
qed

lemma length_bytes_at [simp]: "length (bytes_at m a n) = n"
  by (simp add: bytes_at_def)

lemma nth_bytes_at [simp]: "i < n \<Longrightarrow> bytes_at m a n ! i = m (a + i)"
  by (simp add: bytes_at_def)

lemma bytes_at_0 [simp]: "bytes_at m a 0 = []"
  by (simp add: bytes_at_def)

lemma bytes_at_append: "bytes_at m a (n + k) = bytes_at m a n @ bytes_at m (a + n) k"
  by (rule nth_equalityI) (auto simp: nth_append)

lemma take_bytes_at: "take k (bytes_at m a n) = bytes_at m a (min k n)"
  by (rule nth_equalityI) auto

lemma drop_bytes_at: "drop k (bytes_at m a n) = bytes_at m (a + k) (n - k)"
  by (rule nth_equalityI) (auto simp: add.assoc)

lemma bytes_at_cong: "(\<And>x. a \<le> x \<Longrightarrow> x < a + n \<Longrightarrow> m x = m' x) \<Longrightarrow> bytes_at m a n = bytes_at m' a n"
  by (rule nth_equalityI) auto

lemma mem_copy_store: "mem_copy src dst n m = mem_store dst (bytes_at m src n) m"
  by (rule ext) (auto simp: mem_copy_def mem_store_def)

lemma mem_store_Nil [simp]: "mem_store a [] m = m"
  by (rule ext) (auto simp: mem_store_def)

lemma mem_store_append: "mem_store (c + length xs) ys (mem_store c xs m) = mem_store c (xs @ ys) m"
  by (rule ext) (auto simp: mem_store_def nth_append)

lemma mem_store_out: "a < dst \<or> dst + length bs \<le> a \<Longrightarrow> mem_store dst bs m a = m a"
  by (auto simp: mem_store_def)

lemma bytes_at_store [simp]: "bytes_at (mem_store a bs m) a (length bs) = bs"
  by (rule nth_equalityI) (auto simp: mem_store_def)

lemma bytes_at_store_out:
  assumes "{a..<a + n} \<inter> {dst..<dst + length bs} = {}"
  shows "bytes_at (mem_store dst bs m) a n = bytes_at m a n"
proof (rule bytes_at_cong)
  fix x
  assume "a \<le> x" "x < a + n"
  then have "x \<notin> {dst..<dst + length bs}" using assms by fastforce
  then show "mem_store dst bs m x = m x" by (auto simp: mem_store_def)
qed

lemma bytes_at_store_part:
  assumes "length bs + k \<le> n"
  shows "bytes_at (mem_store (a + k) bs m) a n = overwrite k bs (bytes_at m a n)"
  using assms by (intro nth_equalityI) (auto simp: overwrite_def mem_store_def nth_append min_def)

lemma length_overwrite [simp]: "p \<le> length c \<Longrightarrow> length (overwrite p d c) = length c"
  by (auto simp: overwrite_def)

lemma overwrite_Nil [simp]: "overwrite p [] c = c"
  by (simp add: overwrite_def)

lemma overwrite_skip: "overwrite (length a + p) d (a @ b) = a @ overwrite p d b"
  by (simp add: overwrite_def)

lemma overwrite_append:
  assumes "p \<le> length a"
  shows "overwrite p d (a @ b) =
    overwrite p (take (min (length a - p) (length d)) d) a @ overwrite 0 (drop (min (length a - p) (length d)) d) b"
proof -
  have "take (length a + length b - p) d = take (length a - p) d @ take (length b) (drop (length a - p) d)"
    using assms take_add [of "length a - p" "length b" d] by simp
  with assms show ?thesis by (auto simp: overwrite_def min_def add.commute)
qed

text \<open>\<open>fill\<close> repeats the value; with a value of zeroes it clears the range.\<close>

lemma vw_fill_loop_zero:
  assumes "set v \<subseteq> {0}" "v \<noteq> []" "vw_cursor w \<le> vw_end w"
  shows "vw_fill_loop v w m = (\<lambda>a. if vw_cursor w \<le> a \<and> a < vw_end w then 0 else m a)"
  using assms
proof (induction v w m rule: vw_fill_loop.induct)
  case (1 v w m)
  define n where "n = min (vw_avail w) (length v)"
  show ?case
  proof (cases "vw_avail w > 0")
    case True
    have n: "0 < n" "n \<le> length v" "n \<le> vw_avail w" using True \<open>v \<noteq> []\<close> by (auto simp: n_def)
    have z: "take n v ! i = 0" if "i < n" for i
    proof -
      have "v ! i \<in> set v" using that n by (intro nth_mem) simp
      then show ?thesis using "1.prems"(1) that by auto
    qed
    have "vw_fill_loop v w m = vw_fill_loop v (w\<lparr>vw_cursor := vw_cursor w + n\<rparr>) (mem_store (vw_cursor w) (take n v) m)"
      using True \<open>v \<noteq> []\<close> by (subst vw_fill_loop.simps) (simp add: n_def Let_def)
    also have "\<dots> = (\<lambda>a. if vw_cursor w + n \<le> a \<and> a < vw_end w then 0 else mem_store (vw_cursor w) (take n v) m a)"
      using "1.IH" [OF _ n_def] True n "1.prems" by (simp add: vw_avail_def)
    also have "\<dots> = (\<lambda>a. if vw_cursor w \<le> a \<and> a < vw_end w then 0 else m a)"
      using n z by (intro ext) (auto simp: mem_store_def vw_avail_def min_def)
    finally show ?thesis .
  next
    case False
    then show ?thesis by (subst vw_fill_loop.simps) (auto simp: vw_avail_def intro!: ext)
  qed
qed

section \<open>Lemmas on frames\<close>

lemma frame_span_disjoint:
  assumes "start_paddr f \<noteq> start_paddr g"
  shows "frame_span f \<inter> frame_span g = {}"
proof -
  from assms have "unat (frame_index f) < unat (frame_index g) \<or> unat (frame_index g) < unat (frame_index f)"
    by (auto simp: start_paddr_def)
  then have "frame_ptr f + PAGE_SIZE \<le> frame_ptr g \<or> frame_ptr g + PAGE_SIZE \<le> frame_ptr f"
    by (auto simp: frame_ptr_def paddr_to_vaddr_def start_paddr_def)
  then show ?thesis by (auto simp: frame_span_def)
qed

lemma fv_separate_Cons:
  "fv_separate (f # fs) \<longleftrightarrow> (\<forall>g \<in> set fs. start_paddr f \<noteq> start_paddr g) \<and> fv_separate fs"
  by (auto simp: fv_separate_def)

lemma fv_separate_Cons_span: "fv_separate (f # fs) \<Longrightarrow> frame_span f \<inter> fv_span fs = {}"
  using frame_span_disjoint by (fastforce simp: fv_separate_Cons fv_span_def)

lemma fv_span_simps [simp]:
  "fv_span [] = {}" "fv_span (f # fs) = frame_span f \<union> fv_span fs" "fv_span (fs @ gs) = fv_span fs \<union> fv_span gs"
  by (auto simp: fv_span_def)

lemma fv_contents_simps [simp]:
  "fv_contents m [] = []" "fv_contents m (f # fs) = bytes_at m (frame_ptr f) PAGE_SIZE @ fv_contents m fs"
  "fv_contents m (fs @ gs) = fv_contents m fs @ fv_contents m gs"
  by (auto simp: fv_contents_def)

lemma length_fv_contents [simp]: "length (fv_contents m fs) = fv_nbytes fs"
  by (induction fs) (simp_all add: fv_nbytes_def)

lemma fv_nbytes_simps [simp]:
  "fv_nbytes [] = 0" "fv_nbytes (f # fs) = PAGE_SIZE + fv_nbytes fs"
  by (simp_all add: fv_nbytes_def)

lemma frame_bytes_cong:
  assumes "\<And>a. a \<in> frame_span f \<Longrightarrow> m a = m' a"
  shows "bytes_at m (frame_ptr f) PAGE_SIZE = bytes_at m' (frame_ptr f) PAGE_SIZE"
  using assms by (intro bytes_at_cong) (auto simp: frame_span_def)

lemma fv_contents_cong:
  "(\<And>a. a \<in> fv_span fs \<Longrightarrow> m a = m' a) \<Longrightarrow> fv_contents m fs = fv_contents m' fs"
proof (induction fs)
  case (Cons f fs)
  have "bytes_at m (frame_ptr f) PAGE_SIZE = bytes_at m' (frame_ptr f) PAGE_SIZE"
    using Cons.prems by (intro frame_bytes_cong) simp
  then show ?case using Cons by simp
qed simp

lemma fv_contents_eqD:
  assumes "fv_contents m fs = fv_contents m' fs" "a \<in> fv_span fs"
  shows "m a = m' a"
  using assms
proof (induction fs)
  case (Cons f fs)
  from Cons.prems(1) have eq: "bytes_at m (frame_ptr f) PAGE_SIZE = bytes_at m' (frame_ptr f) PAGE_SIZE"
    "fv_contents m fs = fv_contents m' fs" by (simp_all add: append_eq_append_conv)
  show ?case
  proof (cases "a \<in> frame_span f")
    case True
    then have "a - frame_ptr f < PAGE_SIZE" "frame_ptr f + (a - frame_ptr f) = a" by (auto simp: frame_span_def)
    then show ?thesis using arg_cong [OF eq(1), of "\<lambda>xs. xs ! (a - frame_ptr f)"] by simp
  qed (use Cons eq in simp)
qed simp

lemma frame_reader_skip:
  "start \<le> PAGE_SIZE \<Longrightarrow> vr_skip start (frame_reader f) =
     Ok \<lparr>vr_cursor = frame_ptr f + start, vr_end = frame_ptr f + PAGE_SIZE\<rparr>"
  by (simp add: vr_skip_def frame_reader_def reader_from_raw_parts_def vr_remain_def)

lemma frame_writer_skip:
  "start \<le> PAGE_SIZE \<Longrightarrow> vw_skip start (frame_writer f) =
     Ok \<lparr>vw_cursor = frame_ptr f + start, vw_end = frame_ptr f + PAGE_SIZE\<rparr>"
  by (simp add: vw_skip_def frame_writer_def writer_from_raw_parts_def vw_avail_def)

text \<open>One step of the two loops: as many bytes as fit are copied.\<close>

lemma vr_read_eq:
  "vr_read \<lparr>vr_cursor = p, vr_end = q\<rparr> \<lparr>vw_cursor = c, vw_end = e\<rparr> m =
    (let n = min (q - p) (e - c) in
      (n, \<lparr>vr_cursor = p + n, vr_end = q\<rparr>, \<lparr>vw_cursor = c + n, vw_end = e\<rparr>, mem_store c (bytes_at m p n) m))"
  by (simp add: vr_read_def vr_remain_def vw_avail_def mem_copy_store Let_def)

lemma vw_write_eq:
  "vw_write \<lparr>vw_cursor = c, vw_end = e\<rparr> \<lparr>vr_cursor = p, vr_end = q\<rparr> m =
    (let n = min (e - c) (q - p) in
      (n, \<lparr>vw_cursor = c + n, vw_end = e\<rparr>, \<lparr>vr_cursor = p + n, vr_end = q\<rparr>, mem_store c (bytes_at m p n) m))"
  by (simp add: vw_write_def vr_remain_def vw_avail_def mem_copy_store Let_def)

section \<open>The loops over the frames of a collection\<close>

lemma fv_read_loop_spec:
  assumes "start < PAGE_SIZE" "{c..<e} \<inter> fv_span fs = {}" "c \<le> e"
  shows "fv_read_loop fs start \<lparr>vw_cursor = c, vw_end = e\<rparr> m
    = Ok (mem_store c (take (e - c) (drop start (fv_contents m fs))) m)"
  using assms
proof (induction fs arbitrary: start c m)
  case Nil
  then show ?case by simp
next
  case (Cons f fs)
  let ?A = "bytes_at m (frame_ptr f) PAGE_SIZE" and ?B = "fv_contents m fs"
  define n where "n = min (PAGE_SIZE - start) (e - c)"
  define m1 where "m1 = mem_store c (bytes_at m (frame_ptr f + start) n) m"
  have n: "c + n \<le> e" using Cons.prems(3) by (auto simp: n_def)
  have unf: "fv_read_loop (f # fs) start \<lparr>vw_cursor = c, vw_end = e\<rparr> m
    = (if n = 0 then Ok m1 else fv_read_loop fs 0 \<lparr>vw_cursor = c + n, vw_end = e\<rparr> m1)"
    using Cons.prems(1) by (simp add: frame_reader_skip vr_read_eq Let_def flip: n_def m1_def)
  show ?case
  proof (cases "n = 0")
    case True
    then have "e = c" using Cons.prems by (auto simp: n_def min_def split: if_splits)
    then show ?thesis unfolding unf using True by (simp add: m1_def)
  next
    case False
    have "fv_contents m1 fs = ?B"
    proof (rule fv_contents_cong)
      fix a
      assume "a \<in> fv_span fs"
      then have "a \<notin> {c..<e}" using Cons.prems(2) by auto
      then show "m1 a = m a" using n by (auto simp: m1_def mem_store_def)
    qed
    moreover have "{c + n..<e} \<inter> fv_span fs = {}" using Cons.prems(2) by (auto simp: disjoint_iff)
    ultimately have "fv_read_loop fs 0 \<lparr>vw_cursor = c + n, vw_end = e\<rparr> m1 =
        Ok (mem_store (c + n) (take (e - (c + n)) ?B) m1)"
      using Cons.IH [of 0 "c + n" m1] n by simp
    also have "mem_store (c + n) (take (e - (c + n)) ?B) m1
        = mem_store c (bytes_at m (frame_ptr f + start) n @ take (e - (c + n)) ?B) m"
      using mem_store_append [of c "bytes_at m (frame_ptr f + start) n"] by (simp add: m1_def)
    also have "bytes_at m (frame_ptr f + start) n @ take (e - (c + n)) ?B = take (e - c) (drop start (?A @ ?B))"
      using Cons.prems(1) by (auto simp: n_def min_def drop_bytes_at take_bytes_at)
    finally show ?thesis unfolding unf using False by simp
  qed
qed

lemma fv_write_loop_spec:
  assumes "start < PAGE_SIZE" "{c..<e} \<inter> fv_span fs = {}" "c \<le> e" "fv_separate fs"
  shows "\<exists>m'. fv_write_loop fs start \<lparr>vr_cursor = c, vr_end = e\<rparr> m = Ok m'
    \<and> fv_contents m' fs = overwrite start (bytes_at m c (e - c)) (fv_contents m fs)
    \<and> (\<forall>a. a \<notin> fv_span fs \<longrightarrow> m' a = m a)"
  using assms
proof (induction fs arbitrary: start c m)
  case Nil
  then show ?case by (simp add: overwrite_def)
next
  case (Cons f fs)
  let ?A = "bytes_at m (frame_ptr f) PAGE_SIZE" and ?B = "fv_contents m fs"
  define n where "n = min (PAGE_SIZE - start) (e - c)"
  define m1 where "m1 = mem_store (frame_ptr f + start) (bytes_at m c n) m"
  have n: "c + n \<le> e" "start + n \<le> PAGE_SIZE" using Cons.prems(1,3) by (auto simp: n_def)
  have unf: "fv_write_loop (f # fs) start \<lparr>vr_cursor = c, vr_end = e\<rparr> m
    = (if n = 0 then Ok m1 else fv_write_loop fs 0 \<lparr>vr_cursor = c + n, vr_end = e\<rparr> m1)"
    using Cons.prems(1) by (simp add: frame_writer_skip vw_write_eq Let_def flip: n_def m1_def)
  have m1_out: "m1 a = m a" if "a \<notin> frame_span f" for a
    using that n by (auto simp: m1_def mem_store_def frame_span_def)
  show ?case
  proof (cases "n = 0")
    case True
    then have "e = c" using Cons.prems by (auto simp: n_def min_def split: if_splits)
    then show ?thesis unfolding unf using True by (simp add: m1_def)
  next
    case False
    note sep = fv_separate_Cons_span [OF Cons.prems(4)]
    have B: "fv_contents m1 fs = ?B" using sep m1_out by (intro fv_contents_cong) blast
    have D: "bytes_at m1 (c + n) (e - (c + n)) = bytes_at m (c + n) (e - (c + n))"
    proof (rule bytes_at_cong)
      fix x
      assume "c + n \<le> x" "x < c + n + (e - (c + n))"
      then have "x \<in> {c..<e}" by auto
      then show "m1 x = m x" using Cons.prems(2) m1_out by fastforce
    qed
    have "{c + n..<e} \<inter> fv_span fs = {}" using Cons.prems(2) by (auto simp: disjoint_iff)
    then obtain m' where m': "fv_write_loop fs 0 \<lparr>vr_cursor = c + n, vr_end = e\<rparr> m1 = Ok m'"
      "fv_contents m' fs = overwrite 0 (bytes_at m (c + n) (e - (c + n))) ?B"
      "\<forall>a. a \<notin> fv_span fs \<longrightarrow> m' a = m1 a"
      using Cons.IH [of 0 "c + n" m1] Cons.prems(4) n B D by (auto simp: fv_separate_Cons)
    have "bytes_at m' (frame_ptr f) PAGE_SIZE = bytes_at m1 (frame_ptr f) PAGE_SIZE"
      using sep m'(3) by (intro frame_bytes_cong) blast
    also have "\<dots> = overwrite start (bytes_at m c n) ?A"
      using n by (simp add: m1_def bytes_at_store_part)
    finally have "fv_contents m' (f # fs) = overwrite start (bytes_at m c (e - c)) (?A @ ?B)"
      using overwrite_append [of start ?A "bytes_at m c (e - c)" ?B] n Cons.prems(1)
      by (simp add: m'(2) take_bytes_at drop_bytes_at n_def [symmetric] min_absorb1)
    then show ?thesis unfolding unf using False m' m1_out by simp
  qed
qed

section \<open>Byte access to a collection\<close>

lemma fv_nbytes_drop: "fv_nbytes (drop k fs) = fv_nbytes fs - k * PAGE_SIZE"
  by (simp add: fv_nbytes_def diff_mult_distrib)

lemma fv_span_drop: "fv_span (drop k fs) \<subseteq> fv_span fs"
  by (auto simp: fv_span_def dest: in_set_dropD)

lemma fv_separate_drop: "fv_separate fs \<Longrightarrow> fv_separate (drop k fs)"
  by (simp add: fv_separate_def flip: drop_map)

lemma drop_fv_contents: "drop (k * PAGE_SIZE) (fv_contents m fs) = fv_contents m (drop k fs)"
proof (cases "k \<le> length fs")
  case True
  have "fv_contents m fs = fv_contents m (take k fs) @ fv_contents m (drop k fs)"
    by (simp flip: fv_contents_simps(3))
  moreover have "length (fv_contents m (take k fs)) = k * PAGE_SIZE"
    using True by (simp add: fv_nbytes_def min_absorb2)
  ultimately show ?thesis by simp
qed (simp add: fv_nbytes_def)

lemma fv_read_bytes_ok:
  assumes "snd buf + offset \<le> fv_nbytes fs" "snd buf + offset < USIZE_RANGE" "slice_span buf \<inter> fv_span fs = {}"
  shows "fv_read_bytes offset buf fs m = Ok (mem_store (fst buf) (take (snd buf) (drop offset (fv_contents m fs))) m)"
proof -
  have "{fst buf..<fst buf + snd buf} \<inter> fv_span (drop (offset div PAGE_SIZE) fs) = {}"
    using assms(3) fv_span_drop [of "offset div PAGE_SIZE" fs] by (auto simp: slice_span_def disjoint_iff)
  from fv_read_loop_spec [OF _ this, of "offset mod PAGE_SIZE" m] show ?thesis
    using assms(1,2) by (simp add: fv_read_bytes_def puadd_ok writer_of_def writer_from_raw_parts_def
        flip: drop_fv_contents)
qed

lemma fv_write_bytes_ok:
  assumes "snd buf + offset \<le> fv_nbytes fs" "snd buf + offset < USIZE_RANGE" "slice_span buf \<inter> fv_span fs = {}"
    and "fv_separate fs"
  shows "\<exists>m'. fv_write_bytes offset buf fs m = Ok m'
    \<and> fv_contents m' fs = overwrite offset (bytes_at m (fst buf) (snd buf)) (fv_contents m fs)
    \<and> (\<forall>a. a \<notin> fv_span fs \<longrightarrow> m' a = m a)"
proof -
  define k where "k = offset div PAGE_SIZE"
  let ?d = "bytes_at m (fst buf) (snd buf)" and ?T = "take k fs" and ?D = "drop k fs"
  have fs: "fs = ?T @ ?D" by simp
  have k: "k * PAGE_SIZE \<le> fv_nbytes fs" 
    using assms(1) div_times_less_eq_dividend [of offset PAGE_SIZE] unfolding k_def by linarith
  then have len: "length (fv_contents m ?T) = k * PAGE_SIZE" by (simp add: fv_nbytes_def min_absorb2)
  have off: "offset = k * PAGE_SIZE + offset mod PAGE_SIZE" by (simp add: k_def)
  have "{fst buf..<fst buf + snd buf} \<inter> fv_span ?D = {}"
    using assms(3) fv_span_drop [of k fs] by (auto simp: slice_span_def disjoint_iff)
  from fv_write_loop_spec [OF _ this, of "offset mod PAGE_SIZE" m] fv_separate_drop [OF assms(4)]
  obtain m' where m': "fv_write_loop ?D (offset mod PAGE_SIZE) (reader_of buf) m = Ok m'"
    "fv_contents m' ?D = overwrite (offset mod PAGE_SIZE) ?d (fv_contents m ?D)"
    "\<forall>a. a \<notin> fv_span ?D \<longrightarrow> m' a = m a"
    by (auto simp: reader_of_def reader_from_raw_parts_def)
  have sep: "fv_span ?T \<inter> fv_span ?D = {}"
  proof -
    have "start_paddr f \<noteq> start_paddr g" if "f \<in> set ?T" "g \<in> set ?D" for f g
      using assms(4) that unfolding fv_separate_def
      by (subst (asm) fs) (auto simp: disjoint_iff simp del: append_take_drop_id)
    then show ?thesis using frame_span_disjoint by (fastforce simp: fv_span_def)
  qed
  have "fv_contents m' ?T = fv_contents m ?T" using sep m'(3) by (intro fv_contents_cong) blast
  moreover have "fv_contents m' fs = fv_contents m' ?T @ fv_contents m' ?D" "fv_contents m fs = fv_contents m ?T @ fv_contents m ?D"
    by (simp_all flip: fv_contents_simps(3))
  moreover have "overwrite offset ?d (fv_contents m ?T @ fv_contents m ?D)
      = fv_contents m ?T @ overwrite (offset mod PAGE_SIZE) ?d (fv_contents m ?D)"
    using overwrite_skip [of "fv_contents m ?T" "offset mod PAGE_SIZE" ?d "fv_contents m ?D"] len off by simp
  ultimately have "fv_contents m' fs = overwrite offset ?d (fv_contents m fs)" using m'(2) by simp
  moreover have "m' a = m a" if "a \<notin> fv_span fs" for a using that m'(3) fv_span_drop [of k fs] by blast
  ultimately show ?thesis using m'(1) assms(1,2) by (simp add: fv_write_bytes_def puadd_ok k_def)
qed

lemma fv_bytes_refused:
  assumes "fv_nbytes fs < snd buf + offset" "snd buf + offset < USIZE_RANGE"
  shows "fv_read_bytes offset buf fs m = Inl (Throws InvalidArgs)" "fv_write_bytes offset buf fs m = Inl (Throws InvalidArgs)"
  using assms by (simp_all add: fv_read_bytes_def fv_write_bytes_def puadd_ok)

section \<open>Segments as collections\<close>

lemma bit_NEED_DEALLOC: "bit NEED_DEALLOC k \<longleftrightarrow> k = 63"
  unfolding NEED_DEALLOC_def bit_exp_iff by auto

lemma unat_index:
  assumes "i < 2 ^ 51"
  shows "unat (frame_index (of_nat i)) = i"
proof -
  have "(of_nat i :: u64) AND NOT NEED_DEALLOC = of_nat i"
  proof (rule bit_word_eqI)
    fix k
    assume "k < LENGTH(64)"
    have "\<not> bit i 63" using assms by (simp add: bit_iff_odd)
    then have "\<not> bit (of_nat i :: u64) 63" by (simp add: bit_simps)
    then show "bit ((of_nat i :: u64) AND NOT NEED_DEALLOC) k = bit (of_nat i :: u64) k"
      by (auto simp: bit_NEED_DEALLOC bit_simps)
  qed
  then show ?thesis using assms by (simp add: frame_index_def unat_of_nat)
qed

lemma seg_frames_facts:
  assumes "seg_first_index seg + seg_nframes seg \<le> 2 ^ 51"
  shows "fv_nbytes (seg_frames seg) = seg_nbytes seg" "fv_separate (seg_frames seg)"
    "fv_contents m (seg_frames seg) = bytes_at m (seg_ptr seg) (seg_nbytes seg)"
    "fv_span (seg_frames seg) = {seg_ptr seg..<seg_ptr seg + seg_nbytes seg}"
proof -
  let ?f = "\<lambda>i. of_nat (seg_first_index seg + i) :: vm_frame"
  have start: "start_paddr (?f i) = (seg_first_index seg + i) * PAGE_SIZE" if "i < seg_nframes seg" for i
    using that assms unat_index [of "seg_first_index seg + i"] by (simp add: start_paddr_def del: of_nat_add)
  then have ptr: "frame_ptr (?f i) = seg_ptr seg + i * PAGE_SIZE" if "i < seg_nframes seg" for i
    using that by (simp add: frame_ptr_def seg_ptr_def paddr_to_vaddr_def seg_start_paddr_def algebra_simps)
  show "fv_nbytes (seg_frames seg) = seg_nbytes seg" by (simp add: fv_nbytes_def seg_frames_def seg_nbytes_def)
  show "fv_separate (seg_frames seg)"
    by (auto simp: fv_separate_def seg_frames_def distinct_map inj_on_def start simp del: of_nat_add)
  have "fv_contents m (map ?f [0..<n]) = bytes_at m (seg_ptr seg) (n * PAGE_SIZE)
      \<and> fv_span (map ?f [0..<n]) = {seg_ptr seg..<seg_ptr seg + n * PAGE_SIZE}"
    if "n \<le> seg_nframes seg" for n
    using that
  proof (induction n)
    case (Suc n)
    have "bytes_at m (seg_ptr seg) (Suc n * PAGE_SIZE)
        = bytes_at m (seg_ptr seg) (n * PAGE_SIZE) @ bytes_at m (seg_ptr seg + n * PAGE_SIZE) PAGE_SIZE"
      using bytes_at_append [of m "seg_ptr seg" "n * PAGE_SIZE" PAGE_SIZE] by (simp only: mult_Suc add.commute)
    moreover have "{seg_ptr seg..<seg_ptr seg + Suc n * PAGE_SIZE}
        = {seg_ptr seg..<seg_ptr seg + n * PAGE_SIZE} \<union> {seg_ptr seg + n * PAGE_SIZE..<seg_ptr seg + n * PAGE_SIZE + PAGE_SIZE}"
      by auto
    ultimately show ?case using Suc ptr [of n] by (simp add: frame_span_def del: of_nat_add mult_Suc)
  qed simp
  then show "fv_contents m (seg_frames seg) = bytes_at m (seg_ptr seg) (seg_nbytes seg)"
    "fv_span (seg_frames seg) = {seg_ptr seg..<seg_ptr seg + seg_nbytes seg}"
    by (simp_all add: seg_frames_def seg_nbytes_def)
qed

lemma seg_read_bytes_ok:
  assumes "snd buf + offset \<le> seg_nbytes seg" "snd buf + offset < USIZE_RANGE"
  shows "seg_read_bytes offset buf seg m
    = Ok (mem_store (fst buf) (bytes_at m (seg_ptr seg + offset) (snd buf)) m)"
  using assms by (simp add: seg_read_bytes_def puadd_ok vr_skip_def reader_from_raw_parts_def vr_remain_def
      writer_of_def writer_from_raw_parts_def vr_read_eq Let_def min_absorb2)

lemma seg_write_bytes_ok:
  assumes "snd buf + offset \<le> seg_nbytes seg" "snd buf + offset < USIZE_RANGE"
  shows "seg_write_bytes offset buf seg m
    = Ok (mem_store (seg_ptr seg + offset) (bytes_at m (fst buf) (snd buf)) m)"
  using assms by (simp add: seg_write_bytes_def puadd_ok vw_skip_def writer_from_raw_parts_def vw_avail_def
      reader_of_def reader_from_raw_parts_def vw_write_eq Let_def min_absorb2)

section \<open>The contract of \<open>VmIo\<close>\<close>

text \<open>\<open>vm/io.rs\<close>: what a \<open>VmIo\<close> object promises, for an object whose bytes are \<open>contents\<close>, stored at the addresses
  \<open>span\<close>. A buffer outside the object is filled or stored completely, or the call is refused with \<open>InvalidArgs\<close>.\<close>

locale vm_io =
  fixes rd :: "nat \<Rightarrow> slice_ref \<Rightarrow> kmem \<Rightarrow> kmem fres"
    and wr :: "nat \<Rightarrow> slice_ref \<Rightarrow> kmem \<Rightarrow> kmem fres"
    and contents :: "kmem \<Rightarrow> u8 list"
    and span :: "nat set"
    and nbytes :: nat
    and valid :: bool
  assumes length_contents: "length (contents m) = nbytes"
    and rd_ok: "valid \<Longrightarrow> snd buf + off \<le> nbytes \<Longrightarrow> snd buf + off < USIZE_RANGE \<Longrightarrow> slice_span buf \<inter> span = {}
      \<Longrightarrow> rd off buf m = Ok (mem_store (fst buf) (take (snd buf) (drop off (contents m))) m)"
    and wr_ok: "valid \<Longrightarrow> snd buf + off \<le> nbytes \<Longrightarrow> snd buf + off < USIZE_RANGE \<Longrightarrow> slice_span buf \<inter> span = {}
      \<Longrightarrow> \<exists>m'. wr off buf m = Ok m' \<and> contents m' = overwrite off (bytes_at m (fst buf) (snd buf)) (contents m)
            \<and> (\<forall>a. a \<notin> span \<longrightarrow> m' a = m a)"
    and refused: "valid \<Longrightarrow> nbytes < snd buf + off \<Longrightarrow> snd buf + off < USIZE_RANGE
      \<Longrightarrow> rd off buf m = Inl (Throws InvalidArgs) \<and> wr off buf m = Inl (Throws InvalidArgs)"
begin

lemma io_spec:
  assumes v: "valid" and out: "slice_span buf \<inter> span = {}" "slice_span buf2 \<inter> span = {}"
    and len: "snd buf2 = snd buf" "snd buf + off < USIZE_RANGE"
  shows "if snd buf + off \<le> nbytes
    then \<exists>m1 m2 m3. wr off buf m = Ok m1
      \<and> contents m1 = take off (contents m) @ bytes_at m (fst buf) (snd buf) @ drop (off + snd buf) (contents m)
      \<and> (\<forall>a. a \<notin> span \<longrightarrow> m1 a = m a)
      \<and> rd off buf2 m1 = Ok m2 \<and> bytes_at m2 (fst buf2) (snd buf2) = bytes_at m (fst buf) (snd buf)
      \<and> rd off buf m = Ok m3 \<and> bytes_at m3 (fst buf) (snd buf) = take (snd buf) (drop off (contents m))
      \<and> (\<forall>a. a \<notin> slice_span buf \<longrightarrow> m3 a = m a)
    else wr off buf m = Inl (Throws InvalidArgs) \<and> rd off buf m = Inl (Throws InvalidArgs)"
proof (cases "snd buf + off \<le> nbytes")
  case True
  let ?d = "bytes_at m (fst buf) (snd buf)" and ?r = "take (snd buf) (drop off (contents m))"
  from wr_ok [OF v True len(2) out(1), of m] obtain m1 where
    m1: "wr off buf m = Ok m1" "contents m1 = overwrite off ?d (contents m)" "\<forall>a. a \<notin> span \<longrightarrow> m1 a = m a" by blast
  have ow: "overwrite off ?d (contents m) = take off (contents m) @ ?d @ drop (off + snd buf) (contents m)"
    using True by (simp add: overwrite_def length_contents)
  have "take (snd buf) (drop off (contents m1)) = ?d" using True by (simp add: m1(2) ow length_contents min_def)
  then have "rd off buf2 m1 = Ok (mem_store (fst buf2) ?d m1)" using rd_ok [OF v _ _ out(2), of off m1] True len by simp
  moreover have "bytes_at (mem_store (fst buf2) ?d m1) (fst buf2) (snd buf2) = ?d"
    using bytes_at_store [of "fst buf2" ?d m1] len(1) by simp
  moreover have "bytes_at (mem_store (fst buf) ?r m) (fst buf) (snd buf) = ?r"
    using bytes_at_store [of "fst buf" ?r m] True by (simp add: length_contents min_absorb1 min_absorb2)
  moreover have "mem_store (fst buf) ?r m a = m a" if "a \<notin> slice_span buf" for a
    using that by (auto simp: mem_store_def slice_span_def)
  ultimately show ?thesis using True m1 ow rd_ok [OF v True len(2) out(1), of m] by auto
next
  case False
  then show ?thesis using refused [OF v, of buf off m] len(2) by simp
qed

end

lemma frame_bytes_eqs:
  assumes "snd buf + off \<le> PAGE_SIZE"
  shows "frame_read_bytes off buf f m = Ok (mem_store (fst buf) (bytes_at m (frame_ptr f + off) (snd buf)) m)"
    "frame_write_bytes off buf f m = Ok (mem_store (frame_ptr f + off) (bytes_at m (fst buf) (snd buf)) m)"
  using assms by (simp_all add: frame_read_bytes_def frame_write_bytes_def puadd_ok frame_reader_skip frame_writer_skip
      writer_of_def writer_from_raw_parts_def reader_of_def reader_from_raw_parts_def vr_read_eq vw_write_eq Let_def min_absorb2)

interpretation frame_io: vm_io "\<lambda>off buf. frame_read_bytes off buf f" "\<lambda>off buf. frame_write_bytes off buf f"
  "\<lambda>m. bytes_at m (frame_ptr f) PAGE_SIZE" "frame_span f" PAGE_SIZE True for f
proof
  fix buf :: slice_ref and off m
  assume fit: "snd buf + off \<le> PAGE_SIZE"
  show "frame_read_bytes off buf f m = Ok (mem_store (fst buf) (take (snd buf) (drop off (bytes_at m (frame_ptr f) PAGE_SIZE))) m)"
    using fit by (simp add: frame_bytes_eqs drop_bytes_at take_bytes_at min_absorb1)
  show "\<exists>m'. frame_write_bytes off buf f m = Ok m'
      \<and> bytes_at m' (frame_ptr f) PAGE_SIZE = overwrite off (bytes_at m (fst buf) (snd buf)) (bytes_at m (frame_ptr f) PAGE_SIZE)
      \<and> (\<forall>a. a \<notin> frame_span f \<longrightarrow> m' a = m a)"
    using fit by (auto simp: frame_bytes_eqs bytes_at_store_part frame_span_def intro!: mem_store_out)
next
  fix buf :: slice_ref and off m
  assume "PAGE_SIZE < snd buf + off" "snd buf + off < USIZE_RANGE"
  then show "frame_read_bytes off buf f m = Inl (Throws InvalidArgs) \<and> frame_write_bytes off buf f m = Inl (Throws InvalidArgs)"
    by (simp add: frame_read_bytes_def frame_write_bytes_def puadd_ok)
qed simp

interpretation frame_vec_io: vm_io "\<lambda>off buf. fv_read_bytes off buf fs" "\<lambda>off buf. fv_write_bytes off buf fs"
  "\<lambda>m. fv_contents m fs" "fv_span fs" "fv_nbytes fs" "fv_separate fs" for fs
  by unfold_locales (simp_all add: fv_read_bytes_ok fv_write_bytes_ok fv_bytes_refused)

interpretation segment_io: vm_io "\<lambda>off buf. seg_read_bytes off buf seg" "\<lambda>off buf. seg_write_bytes off buf seg"
  "\<lambda>m. bytes_at m (seg_ptr seg) (seg_nbytes seg)" "{seg_ptr seg..<seg_ptr seg + seg_nbytes seg}" "seg_nbytes seg" True for seg
proof
  fix buf :: slice_ref and off m
  assume fit: "snd buf + off \<le> seg_nbytes seg" and small: "snd buf + off < USIZE_RANGE"
  show "seg_read_bytes off buf seg m
      = Ok (mem_store (fst buf) (take (snd buf) (drop off (bytes_at m (seg_ptr seg) (seg_nbytes seg)))) m)"
    using fit small by (simp add: seg_read_bytes_ok drop_bytes_at take_bytes_at min_absorb1)
  show "\<exists>m'. seg_write_bytes off buf seg m = Ok m'
      \<and> bytes_at m' (seg_ptr seg) (seg_nbytes seg)
        = overwrite off (bytes_at m (fst buf) (snd buf)) (bytes_at m (seg_ptr seg) (seg_nbytes seg))
      \<and> (\<forall>a. a \<notin> {seg_ptr seg..<seg_ptr seg + seg_nbytes seg} \<longrightarrow> m' a = m a)"
    using fit small by (auto simp: seg_write_bytes_ok bytes_at_store_part intro!: mem_store_out)
next
  fix buf :: slice_ref and off m
  assume "seg_nbytes seg < snd buf + off" "snd buf + off < USIZE_RANGE"
  then show "seg_read_bytes off buf seg m = Inl (Throws InvalidArgs) \<and> seg_write_bytes off buf seg m = Inl (Throws InvalidArgs)"
    by (simp add: seg_read_bytes_def seg_write_bytes_def puadd_ok)
qed simp

section \<open>Properties\<close>

text \<open>(C15) Byte access to a \<open>VmFrameVec\<close>, page by page, is access to one sequence of bytes. For frames that do not
  alias and a buffer outside them, \<open>write_bytes\<close> stores the buffer at the offset and changes nothing else, frames
  and other memory alike, \<open>read_bytes\<close> fills the buffer with the bytes at the offset and changes nothing else, and
  reading back into another buffer gives what was written. A range that leaves the frames is refused with
  \<open>InvalidArgs\<close> by both.\<close>

theorem frame_vec_io_correct:
  assumes "fv_separate fs" and "slice_span buf \<inter> fv_span fs = {}" and "slice_span buf2 \<inter> fv_span fs = {}"
    and "snd buf2 = snd buf" and "snd buf + offset < USIZE_RANGE"
  shows "if snd buf + offset \<le> fv_nbytes fs
    then \<exists>m1 m2 m3. fv_write_bytes offset buf fs m = Ok m1
      \<and> fv_contents m1 fs = take offset (fv_contents m fs) @ bytes_at m (fst buf) (snd buf)
                            @ drop (offset + snd buf) (fv_contents m fs)
      \<and> (\<forall>a. a \<notin> fv_span fs \<longrightarrow> m1 a = m a)
      \<and> fv_read_bytes offset buf2 fs m1 = Ok m2
      \<and> bytes_at m2 (fst buf2) (snd buf2) = bytes_at m (fst buf) (snd buf)
      \<and> fv_read_bytes offset buf fs m = Ok m3
      \<and> bytes_at m3 (fst buf) (snd buf) = take (snd buf) (drop offset (fv_contents m fs))
      \<and> (\<forall>a. a \<notin> slice_span buf \<longrightarrow> m3 a = m a)
    else fv_write_bytes offset buf fs m = Inl (Throws InvalidArgs) \<and> fv_read_bytes offset buf fs m = Inl (Throws InvalidArgs)"
  using frame_vec_io.io_spec [OF assms(1-5)] .

text \<open>Two frames that do not touch, and a write across their boundary.\<close>

lemma frame_facts [simp]: "start_paddr 3 = 12288" "start_paddr 7 = 28672"
  "frame_ptr 3 = 18446603336221208576" "frame_ptr 7 = 18446603336221224960"
  by (simp_all add: start_paddr_def frame_index_def NEED_DEALLOC_def frame_ptr_def paddr_to_vaddr_def PHYS_MEM_BASE_VADDR_def)

theorem frame_vec_io_correct_witness:
  "fv_separate [7, 3] \<and> slice_span (64, 8) \<inter> fv_span [7, 3] = {}
    \<and> (\<exists>m1 m2. fv_write_bytes 4092 (64, 8) [7, 3] of_nat = Ok m1 \<and> fv_read_bytes 4092 (128, 8) [7, 3] m1 = Ok m2
         \<and> bytes_at m2 128 8 = bytes_at of_nat 64 8)"
proof -
  have a: "fv_separate [7, 3]" by (simp add: fv_separate_def)
  have b: "slice_span (64, 8) \<inter> fv_span [7, 3] = {}" "slice_span (128, 8) \<inter> fv_span [7, 3] = {}"
    by (auto simp: slice_span_def frame_span_def)
  from frame_vec_io_correct [OF a b, of 4092 of_nat] have "\<exists>m1 m2. fv_write_bytes 4092 (64, 8) [7, 3] of_nat = Ok m1
      \<and> fv_read_bytes 4092 (128, 8) [7, 3] m1 = Ok m2 \<and> bytes_at m2 128 8 = bytes_at of_nat 64 8"
    by auto
  with a b show ?thesis by simp
qed

text \<open>(C16) A contiguous \<open>VmSegment\<close>, which moves the bytes with a single copy, and the collection of its frames,
  which moves them page by page, are the same device: for every offset and every buffer outside of them,
  \<open>read_bytes\<close> and \<open>write_bytes\<close> of the two give the same result and the same memory, errors included.\<close>

theorem segment_io_equivalent:
  assumes "seg_first_index seg + seg_nframes seg \<le> 2 ^ 51"
    and "slice_span buf \<inter> {seg_ptr seg..<seg_ptr seg + seg_nbytes seg} = {}"
  shows "seg_read_bytes offset buf seg m = fv_read_bytes offset buf (seg_frames seg) m
    \<and> seg_write_bytes offset buf seg m = fv_write_bytes offset buf (seg_frames seg) m"
proof -
  note facts = seg_frames_facts [OF assms(1)]
  consider (wrap) "USIZE_RANGE \<le> snd buf + offset"
    | (long) "snd buf + offset < USIZE_RANGE" "seg_nbytes seg < snd buf + offset"
    | (ok) "snd buf + offset < USIZE_RANGE" "snd buf + offset \<le> seg_nbytes seg"
    by linarith
  then show ?thesis
  proof cases
    case wrap
    then show ?thesis
      by (simp add: seg_read_bytes_def seg_write_bytes_def fv_read_bytes_def fv_write_bytes_def puadd_def)
  next
    case long
    then show ?thesis using fv_bytes_refused [of "seg_frames seg" buf offset m] facts(1)
      by (simp add: seg_read_bytes_def seg_write_bytes_def puadd_ok)
  next
    case ok
    let ?d = "bytes_at m (fst buf) (snd buf)"
    have fit: "snd buf + offset \<le> fv_nbytes (seg_frames seg)" and out: "slice_span buf \<inter> fv_span (seg_frames seg) = {}"
      using ok assms(2) facts(1,4) by simp_all
    have r: "seg_read_bytes offset buf seg m = fv_read_bytes offset buf (seg_frames seg) m"
      using ok fv_read_bytes_ok [OF fit ok(1) out, of m]
      by (simp add: seg_read_bytes_ok facts(3) drop_bytes_at take_bytes_at min_absorb1)
    from fv_write_bytes_ok [OF fit ok(1) out facts(2), of m] obtain m' where
      m': "fv_write_bytes offset buf (seg_frames seg) m = Ok m'"
        "fv_contents m' (seg_frames seg) = overwrite offset ?d (fv_contents m (seg_frames seg))"
        "\<forall>a. a \<notin> fv_span (seg_frames seg) \<longrightarrow> m' a = m a" by blast
    let ?m = "mem_store (seg_ptr seg + offset) ?d m"
    have "fv_contents ?m (seg_frames seg) = overwrite offset ?d (fv_contents m (seg_frames seg))"
      using ok by (simp add: facts(3) bytes_at_store_part)
    with m'(2) have eq: "fv_contents m' (seg_frames seg) = fv_contents ?m (seg_frames seg)" by simp
    have "m' a = ?m a" for a
    proof (cases "a \<in> fv_span (seg_frames seg)")
      case True
      with eq show ?thesis by (rule fv_contents_eqD)
    next
      case False
      with m'(3) ok facts(4) show ?thesis by (auto simp: mem_store_def)
    qed
    then have "m' = ?m" by (rule ext)
    with r m'(1) ok show ?thesis by (simp add: seg_write_bytes_ok)
  qed
qed

theorem segment_io_equivalent_witness:
  "\<exists>seg. segment_new (3 * PAGE_SIZE) 2 NEED_DEALLOC = Ok seg \<and> seg_nbytes seg = 8192
    \<and> seg_write_bytes 4092 (64, 8) seg of_nat = fv_write_bytes 4092 (64, 8) (seg_frames seg) of_nat"
proof -
  let ?seg = "\<lparr>seg_start_frame_index = 3 OR NEED_DEALLOC, seg_inner_nframes = 2, seg_range_start = 0, seg_range_end = 2\<rparr>"
  have new: "segment_new (3 * PAGE_SIZE) 2 NEED_DEALLOC = Ok ?seg" by (simp add: segment_new_def)
  have first: "seg_first_index ?seg = 3" by (simp add: seg_first_index_def NEED_DEALLOC_def)
  have n: "seg_nframes ?seg = 2" "seg_nbytes ?seg = 8192" by (simp_all add: seg_nframes_def seg_nbytes_def)
  have a: "seg_first_index ?seg + seg_nframes ?seg \<le> 2 ^ 51" unfolding first n by simp
  have b: "slice_span (64, 8) \<inter> {seg_ptr ?seg..<seg_ptr ?seg + seg_nbytes ?seg} = {}"
    unfolding seg_ptr_def seg_start_paddr_def first n
    by (auto simp: slice_span_def paddr_to_vaddr_def PHYS_MEM_BASE_VADDR_def)
  from segment_io_equivalent [OF a b, of 4092 of_nat] new n(2) show ?thesis by blast
qed

text \<open>\<open>VmFrameVecIter\<close> never advances: it yields its first frame forever.\<close>

theorem frame_iter_stuck:
  "fvi_next (fvi_new (f # fs)) = (Some f, fvi_new (f # fs))"
  by (simp add: fvi_next_def fvi_new_def)

text \<open>The option \<open>need_dealloc(false)\<close> has no effect: the frame allocator sets the flag in every frame it hands
  out, so the frames are given back when their handles are dropped whatever the option says.\<close>

lemma word_or_and_absorb: "(x OR y) AND y = (y :: u64)"
  by (rule bit_word_eqI) (auto simp: bit_simps)

theorem need_dealloc_ignored:
  assumes "alloc_contiguous fa opts w = (Ok seg, w')"
  shows "seg_start_frame_index seg AND NEED_DEALLOC \<noteq> 0"
proof -
  have "seg_start_frame_index seg AND NEED_DEALLOC = NEED_DEALLOC"
    using assms by (auto simp: alloc_contiguous_def fa_alloc_contiguous_def segment_new_def word_or_and_absorb
        or.assoc [symmetric] split: if_splits prod.splits option.splits sum.splits)
  then show ?thesis by (simp add: NEED_DEALLOC_def)
qed

end
