(* ===== verification/Page_Table.thy ===== *)
theory Page_Table
  imports Frames
begin

text \<open>
  \<open>framework/aster-frame/src/vm/page_table.rs\<close> and the entries of \<open>arch/x86/mm/mod.rs\<close>: multi-level page tables in
  the kernel's memory. An entry is a 64-bit word of eight bytes, lowest first; a table is a frame of 512 entries,
  reached through the direct mapping. The walk that creates missing tables takes frames from the allocator of
  \<open>Frames\<close>, whose buddy algorithm is the parameter \<open>fa\<close>. Flushing the TLB has no effect on memory but panics on
  an address the \<open>x86_64\<close> crate refuses; which addresses it accepts is the parameter \<open>canon\<close>.

  \<open>layout_ok\<close> is the invariant: an assignment of a level and an address prefix to each table such that the
  present entries of a table lead to a table of the next lower level and the right prefix.
\<close>

section \<open>Words in memory\<close>

definition u64_of_bytes :: "u8 list \<Rightarrow> u64" where
  "u64_of_bytes bs = foldr (\<lambda>b w. push_bit 8 w OR ucast b) bs 0"

definition u64_bytes :: "u64 \<Rightarrow> u8 list" where
  "u64_bytes w = map (\<lambda>i. ucast (drop_bit (8 * i) w)) [0..<8]"

definition read_u64 :: "kmem \<Rightarrow> nat \<Rightarrow> u64" where "read_u64 m a = u64_of_bytes (map m [a..<a + 8])"

definition write_u64 :: "nat \<Rightarrow> u64 \<Rightarrow> kmem \<Rightarrow> kmem" where "write_u64 a w m = mem_store a (u64_bytes w) m"

section \<open>Entries\<close>

definition PRESENT :: u64 where "PRESENT = 2 ^ 0"
definition WRITABLE :: u64 where "WRITABLE = 2 ^ 1"
definition USER :: u64 where "USER = 2 ^ 2"
definition WRITE_THROUGH :: u64 where "WRITE_THROUGH = 2 ^ 3"
definition NO_CACHE :: u64 where "NO_CACHE = 2 ^ 4"
definition ACCESSED :: u64 where "ACCESSED = 2 ^ 5"
definition DIRTY :: u64 where "DIRTY = 2 ^ 6"
definition HUGE :: u64 where "HUGE = 2 ^ 7"
definition GLOBAL :: u64 where "GLOBAL = 2 ^ 8"
definition NO_EXECUTE :: u64 where "NO_EXECUTE = 2 ^ 63"

definition pt_flags_all :: u64 where
  "pt_flags_all = PRESENT OR WRITABLE OR USER OR WRITE_THROUGH OR NO_CACHE OR ACCESSED OR DIRTY OR HUGE OR GLOBAL OR NO_EXECUTE"

definition flags_contains :: "u64 \<Rightarrow> u64 \<Rightarrow> bool" where "flags_contains fl f \<longleftrightarrow> fl AND f = f"

definition flags_set :: "u64 \<Rightarrow> bool \<Rightarrow> u64 \<Rightarrow> u64" where
  "flags_set f value fl = (if value then fl OR f else fl AND NOT f)"

definition PHYS_ADDR_MASK :: u64 where "PHYS_ADDR_MASK = 0xFFFFFFFFFF000"

definition pte_new :: "nat \<Rightarrow> u64 \<Rightarrow> u64" where "pte_new paddr flags = (of_nat paddr AND PHYS_ADDR_MASK) OR flags"

definition pte_paddr :: "u64 \<Rightarrow> nat" where "pte_paddr e = unat (e AND PHYS_ADDR_MASK)"

definition pte_flags :: "u64 \<Rightarrow> u64" where "pte_flags e = e AND pt_flags_all"

definition pte_is_used :: "u64 \<Rightarrow> bool" where "pte_is_used e \<longleftrightarrow> e \<noteq> 0"

definition pte_is_present :: "u64 \<Rightarrow> bool" where "pte_is_present e \<longleftrightarrow> flags_contains (pte_flags e) PRESENT"

definition pte_is_huge :: "u64 \<Rightarrow> bool" where "pte_is_huge e \<longleftrightarrow> flags_contains (pte_flags e) HUGE"

definition page_index :: "nat \<Rightarrow> nat \<Rightarrow> nat" where
  "page_index va level = (va div 2 ^ (12 + 9 * (level - 1))) mod 512"

definition is_user_vaddr :: "nat \<Rightarrow> bool" where "is_user_vaddr va \<longleftrightarrow> va div 2 ^ 47 = 0"

definition is_kernel_vaddr :: "nat \<Rightarrow> bool" where "is_kernel_vaddr va \<longleftrightarrow> (va div 2 ^ 47) mod 2 = 1"

text \<open>Default flags of a table: present, accessible by the user, readable (no bit), writable.\<close>

definition table_flags :: u64 where
  "table_flags = flags_set WRITABLE True (flags_set USER True (flags_set PRESENT True 0))"

section \<open>Page tables\<close>

datatype page_table_error = InvalidModification | InvalidVaddr

type_synonym 'a ptres = "(page_table_error, 'a) pres"

record page_table =
  root_paddr :: nat
  pt_tables :: vm_frame_vec
  address_width :: nat

definition calculate_pte_vaddr :: "nat \<Rightarrow> nat \<Rightarrow> nat \<Rightarrow> nat" where
  "calculate_pte_vaddr root_pa target_va level = paddr_to_vaddr (root_pa + 8 * page_index target_va level)"

fun page_walk :: "kmem \<Rightarrow> nat \<Rightarrow> nat \<Rightarrow> nat \<Rightarrow> nat option" where
  "page_walk m va (Suc (Suc l)) current =
    (if \<not> pte_is_present (read_u64 m current) then None
     else if pte_is_huge (read_u64 m current) then Some current
     else page_walk m va (Suc l) (calculate_pte_vaddr (pte_paddr (read_u64 m current)) va (Suc l)))"
| "page_walk m va l current = Some current"

definition do_page_walk :: "kmem \<Rightarrow> nat \<Rightarrow> page_table \<Rightarrow> nat option" where
  "do_page_walk m va pt =
    page_walk m va (address_width pt) (calculate_pte_vaddr (root_paddr pt) va (address_width pt))"

text \<open>One turn of the walk that may create a table: the entry is present, or a frame is taken for the next table.\<close>

definition ensure_table ::
  "'a frame_alloc \<Rightarrow> bool \<Rightarrow> nat \<Rightarrow> vm_frame_vec \<Rightarrow> 'a world \<Rightarrow> bool ptres \<times> vm_frame_vec \<times> 'a world" where
  "ensure_table fa create current ts w =
    (if \<not> pte_is_present (read_u64 (w_mem w) current)
     then if \<not> create then (Ok False, ts, w)
          else case alloc_single fa (alloc_options_new 1) w of
                 (Inl e, w1) \<Rightarrow> (Inl Panics, ts, w1)
               | (Inr f, w1) \<Rightarrow>
                   (Ok True, ts @ [f], w1\<lparr>w_mem := write_u64 current (pte_new (start_paddr f) table_flags) (w_mem w1)\<rparr>)
     else (Ok True, ts, w))"

fun page_walk_mut ::
  "'a frame_alloc \<Rightarrow> bool \<Rightarrow> nat \<Rightarrow> nat \<Rightarrow> nat \<Rightarrow> vm_frame_vec \<Rightarrow> 'a world
     \<Rightarrow> nat option ptres \<times> vm_frame_vec \<times> 'a world" where
  "page_walk_mut fa create va (Suc (Suc l)) current ts w =
    (case ensure_table fa create current ts w of
       (Inl e, ts1, w1) \<Rightarrow> (Inl e, ts1, w1)
     | (Inr False, ts1, w1) \<Rightarrow> (Ok None, ts1, w1)
     | (Inr True, ts1, w1) \<Rightarrow>
         (let e = read_u64 (w_mem w1) current
          in if pte_is_huge e then (Ok (Some current), ts1, w1)
             else page_walk_mut fa create va (Suc l) (calculate_pte_vaddr (pte_paddr e) va (Suc l)) ts1 w1))"
| "page_walk_mut fa create va l current ts w = (Ok (Some current), ts, w)"

definition do_page_walk_mut ::
  "'a frame_alloc \<Rightarrow> bool \<Rightarrow> nat \<Rightarrow> page_table \<Rightarrow> 'a world \<Rightarrow> nat option ptres \<times> page_table \<times> 'a world" where
  "do_page_walk_mut fa create va pt w =
    (let (r, ts, w') = page_walk_mut fa create va (address_width pt)
                         (calculate_pte_vaddr (root_paddr pt) va (address_width pt)) (pt_tables pt) w
     in (r, pt\<lparr>pt_tables := ts\<rparr>, w'))"

definition tlb_flush :: "(nat \<Rightarrow> bool) \<Rightarrow> nat \<Rightarrow> unit ptres" where
  "tlb_flush canon va = (if canon va then Ok () else Inl Panics)"

definition do_map ::
  "'a frame_alloc \<Rightarrow> (nat \<Rightarrow> bool) \<Rightarrow> nat \<Rightarrow> nat \<Rightarrow> u64 \<Rightarrow> page_table \<Rightarrow> 'a world
     \<Rightarrow> unit ptres \<times> page_table \<times> 'a world" where
  "do_map fa canon va paddr flags pt w =
    (case do_page_walk_mut fa True va pt w of
       (Inl e, pt1, w1) \<Rightarrow> (Inl e, pt1, w1)
     | (Inr None, pt1, w1) \<Rightarrow> (Inl Panics, pt1, w1)
     | (Inr (Some c), pt1, w1) \<Rightarrow>
         (let e = read_u64 (w_mem w1) c
          in if pte_is_used e \<and> pte_is_present e then (Inl (Throws InvalidModification), pt1, w1)
             else (tlb_flush canon va, pt1, w1\<lparr>w_mem := write_u64 c (pte_new paddr flags) (w_mem w1)\<rparr>)))"

definition do_unmap ::
  "'a frame_alloc \<Rightarrow> (nat \<Rightarrow> bool) \<Rightarrow> nat \<Rightarrow> page_table \<Rightarrow> 'a world \<Rightarrow> unit ptres \<times> page_table \<times> 'a world" where
  "do_unmap fa canon va pt w =
    (case do_page_walk_mut fa False va pt w of
       (Inl e, pt1, w1) \<Rightarrow> (Inl e, pt1, w1)
     | (Inr None, pt1, w1) \<Rightarrow> (Inl (Throws InvalidModification), pt1, w1)
     | (Inr (Some c), pt1, w1) \<Rightarrow>
         (let e = read_u64 (w_mem w1) c
          in if \<not> pte_is_used e \<or> \<not> pte_is_present e then (Inl (Throws InvalidModification), pt1, w1)
             else (tlb_flush canon va, pt1, w1\<lparr>w_mem := write_u64 c 0 (w_mem w1)\<rparr>)))"

definition do_protect ::
  "'a frame_alloc \<Rightarrow> (nat \<Rightarrow> bool) \<Rightarrow> nat \<Rightarrow> u64 \<Rightarrow> page_table \<Rightarrow> 'a world \<Rightarrow> u64 ptres \<times> page_table \<times> 'a world" where
  "do_protect fa canon va new_flags pt w =
    (case do_page_walk_mut fa False va pt w of
       (Inl e, pt1, w1) \<Rightarrow> (Inl e, pt1, w1)
     | (Inr None, pt1, w1) \<Rightarrow> (Inl (Throws InvalidModification), pt1, w1)
     | (Inr (Some c), pt1, w1) \<Rightarrow>
         (let e = read_u64 (w_mem w1) c; old_flags = pte_flags e
          in if \<not> pte_is_used e \<or> \<not> flags_contains old_flags PRESENT then (Inl (Throws InvalidModification), pt1, w1)
             else (bind_res (tlb_flush canon va) (\<lambda>_. Ok old_flags), pt1,
                   w1\<lparr>w_mem := write_u64 c (pte_new (pte_paddr e) new_flags) (w_mem w1)\<rparr>)))"

text \<open>The operations of a user page table.\<close>

definition pt_new :: "'a frame_alloc \<Rightarrow> nat \<Rightarrow> 'a world \<Rightarrow> page_table ptres \<times> 'a world" where
  "pt_new fa width w =
    (case alloc_single fa (alloc_options_new 1) w of
       (Inl e, w1) \<Rightarrow> (Inl Panics, w1)
     | (Inr f, w1) \<Rightarrow> (Ok \<lparr>root_paddr = start_paddr f, pt_tables = [f], address_width = width\<rparr>, w1))"

definition pt_map ::
  "'a frame_alloc \<Rightarrow> (nat \<Rightarrow> bool) \<Rightarrow> nat \<Rightarrow> vm_frame \<Rightarrow> u64 \<Rightarrow> page_table \<Rightarrow> 'a world
     \<Rightarrow> unit ptres \<times> page_table \<times> 'a world" where
  "pt_map fa canon va f flags pt w =
    (if is_kernel_vaddr va then (Inl (Throws InvalidVaddr), pt, w) else do_map fa canon va (start_paddr f) flags pt w)"

definition pt_unmap ::
  "'a frame_alloc \<Rightarrow> (nat \<Rightarrow> bool) \<Rightarrow> nat \<Rightarrow> page_table \<Rightarrow> 'a world \<Rightarrow> unit ptres \<times> page_table \<times> 'a world" where
  "pt_unmap fa canon va pt w =
    (if is_kernel_vaddr va then (Inl (Throws InvalidVaddr), pt, w) else do_unmap fa canon va pt w)"

definition pt_protect ::
  "'a frame_alloc \<Rightarrow> (nat \<Rightarrow> bool) \<Rightarrow> nat \<Rightarrow> u64 \<Rightarrow> page_table \<Rightarrow> 'a world \<Rightarrow> u64 ptres \<times> page_table \<times> 'a world" where
  "pt_protect fa canon va flags pt w =
    (if is_kernel_vaddr va then (Inl (Throws InvalidVaddr), pt, w) else do_protect fa canon va flags pt w)"

definition table_of :: "nat \<Rightarrow> nat option" where
  "table_of pa = (if pa = 0 then None else Some (paddr_to_vaddr pa))"

definition add_root_mapping :: "nat \<Rightarrow> u64 \<Rightarrow> page_table \<Rightarrow> 'a world \<Rightarrow> 'a world ptres" where
  "add_root_mapping index pte pt w =
    (case table_of (root_paddr pt) of
       None \<Rightarrow> Inl Panics
     | Some p \<Rightarrow> if index < 512 then Ok (w\<lparr>w_mem := write_u64 (p + 8 * index) pte (w_mem w)\<rparr>) else Inl Panics)"

text \<open>Kernel page tables refuse user addresses instead; device page tables refuse nothing.\<close>

definition kernel_map ::
  "'a frame_alloc \<Rightarrow> (nat \<Rightarrow> bool) \<Rightarrow> nat \<Rightarrow> nat \<Rightarrow> u64 \<Rightarrow> page_table \<Rightarrow> 'a world
     \<Rightarrow> unit ptres \<times> page_table \<times> 'a world" where
  "kernel_map fa canon va paddr flags pt w =
    (if is_user_vaddr va then (Inl (Throws InvalidVaddr), pt, w) else do_map fa canon va paddr flags pt w)"

definition kernel_unmap ::
  "'a frame_alloc \<Rightarrow> (nat \<Rightarrow> bool) \<Rightarrow> nat \<Rightarrow> page_table \<Rightarrow> 'a world \<Rightarrow> unit ptres \<times> page_table \<times> 'a world" where
  "kernel_unmap fa canon va pt w =
    (if is_user_vaddr va then (Inl (Throws InvalidVaddr), pt, w) else do_unmap fa canon va pt w)"

definition kernel_protect ::
  "'a frame_alloc \<Rightarrow> (nat \<Rightarrow> bool) \<Rightarrow> nat \<Rightarrow> u64 \<Rightarrow> page_table \<Rightarrow> 'a world \<Rightarrow> u64 ptres \<times> page_table \<times> 'a world" where
  "kernel_protect fa canon va flags pt w =
    (if is_user_vaddr va then (Inl (Throws InvalidVaddr), pt, w) else do_protect fa canon va flags pt w)"

definition map_with_paddr ::
  "'a frame_alloc \<Rightarrow> (nat \<Rightarrow> bool) \<Rightarrow> nat \<Rightarrow> nat \<Rightarrow> u64 \<Rightarrow> page_table \<Rightarrow> 'a world
     \<Rightarrow> unit ptres \<times> page_table \<times> 'a world" where
  "map_with_paddr fa canon va paddr flags pt w = do_map fa canon va paddr flags pt w"

definition pt_flags_of :: "kmem \<Rightarrow> nat \<Rightarrow> page_table \<Rightarrow> u64 option" where
  "pt_flags_of m va pt = map_option (\<lambda>c. pte_flags (read_u64 m c)) (do_page_walk m va pt)"

definition pt_is_mapped :: "kmem \<Rightarrow> nat \<Rightarrow> page_table \<Rightarrow> bool" where
  "pt_is_mapped m va pt =
    (case do_page_walk m va pt of None \<Rightarrow> False
     | Some c \<Rightarrow> pte_is_used (read_u64 m c) \<and> pte_is_present (read_u64 m c))"

definition vaddr_to_paddr_walk :: "kmem \<Rightarrow> nat \<Rightarrow> page_table \<Rightarrow> nat option" where
  "vaddr_to_paddr_walk m va pt =
    map_option (\<lambda>c. pte_paddr (read_u64 m c) + va mod PAGE_SIZE) (do_page_walk m va pt)"

section \<open>Specification\<close>

text \<open>The entry in force for an address, if the page is mapped.\<close>

definition pt_view :: "kmem \<Rightarrow> page_table \<Rightarrow> nat \<Rightarrow> u64 option" where
  "pt_view m pt va =
    (case do_page_walk m va pt of None \<Rightarrow> None
     | Some c \<Rightarrow> if pte_is_used (read_u64 m c) \<and> pte_is_present (read_u64 m c) then Some (read_u64 m c) else None)"

definition slot :: "nat \<Rightarrow> nat \<Rightarrow> nat" where "slot t i = paddr_to_vaddr (t + 8 * i)"

definition entry_at :: "kmem \<Rightarrow> nat \<Rightarrow> nat \<Rightarrow> u64" where "entry_at m t i = read_u64 m (slot t i)"

text \<open>A layout gives the tables their level and the address prefix they serve. The root of a user page table has
  level 4; its upper half holds the kernel's entries and is not described.\<close>

type_synonym layout = "nat \<rightharpoonup> nat \<times> nat"

definition layout_ok :: "layout \<Rightarrow> kmem \<Rightarrow> bool" where
  "layout_ok lay m \<longleftrightarrow>
    (\<forall>t L P. lay t = Some (L, P) \<longrightarrow> t mod PAGE_SIZE = 0 \<and> t < 2 ^ 47 \<and> 1 \<le> L \<and> L \<le> 4)
    \<and> (\<forall>t L P i. lay t = Some (Suc L, P) \<longrightarrow> 1 \<le> L \<longrightarrow> i < 512 \<longrightarrow> (L = 3 \<longrightarrow> i < 256)
         \<longrightarrow> pte_is_present (entry_at m t i)
         \<longrightarrow> \<not> pte_is_huge (entry_at m t i) \<and> lay (pte_paddr (entry_at m t i)) = Some (L, P * 512 + i))"

text \<open>What the code relies on of the frame allocator: it hands out frames that are not in use, and only frames of
  the physical memory; \<open>used\<close> are the indices of the frames that are allocated.\<close>

definition frame_alloc_ok :: "'a frame_alloc \<Rightarrow> ('a \<Rightarrow> nat set) \<Rightarrow> bool" where
  "frame_alloc_ok fa used \<longleftrightarrow>
    (\<forall>n s. case fa n s of
       (None, s') \<Rightarrow> used s' = used s
     | (Some i, s') \<Rightarrow> {i..<i + n} \<inter> used s = {} \<and> used s' = used s \<union> {i..<i + n} \<and> i + n \<le> 2 ^ 35)"

fun can_alloc :: "'a frame_alloc \<Rightarrow> nat \<Rightarrow> 'a \<Rightarrow> bool" where
  "can_alloc fa 0 s = True"
| "can_alloc fa (Suc n) s = (fst (fa 1 s) \<noteq> None \<and> can_alloc fa n (snd (fa 1 s)))"

definition table_span :: "layout \<Rightarrow> nat set" where
  "table_span lay = (\<Union>t \<in> dom lay. {paddr_to_vaddr t..<paddr_to_vaddr t + PAGE_SIZE})"

text \<open>The invariant of a user page table: the layout describes its tables, which are frames in use, and the root.\<close>

definition tables_ok :: "('a \<Rightarrow> nat set) \<Rightarrow> layout \<Rightarrow> vm_frame_vec \<Rightarrow> 'a world \<Rightarrow> bool" where
  "tables_ok used lay ts w \<longleftrightarrow>
    layout_ok lay (w_mem w) \<and> dom lay = start_paddr ` set ts \<and> (\<forall>t \<in> dom lay. t div PAGE_SIZE \<in> used (w_alloc w))"

definition pt_inv :: "('a \<Rightarrow> nat set) \<Rightarrow> layout \<Rightarrow> page_table \<Rightarrow> 'a world \<Rightarrow> bool" where
  "pt_inv used lay pt w \<longleftrightarrow>
    tables_ok used lay (pt_tables pt) w \<and> address_width pt = 4 \<and> lay (root_paddr pt) = Some (4, 0)"

text \<open>What a walk sees from a table, and the changes a walk may make: more tables, taken from frames not in use,
  but no change of what any address sees, of the kernel's half of the root or of other memory.\<close>

definition view_from :: "kmem \<Rightarrow> nat \<Rightarrow> nat \<Rightarrow> nat \<Rightarrow> u64 option" where
  "view_from m va l t =
    (case page_walk m va l (slot t (page_index va l)) of None \<Rightarrow> None
     | Some c \<Rightarrow> if pte_is_used (read_u64 m c) \<and> pte_is_present (read_u64 m c) then Some (read_u64 m c) else None)"

definition grown :: "('a \<Rightarrow> nat set) \<Rightarrow> layout \<Rightarrow> 'a world \<Rightarrow> layout \<Rightarrow> 'a world \<Rightarrow> bool" where
  "grown used lay w lay' w' \<longleftrightarrow>
    lay \<subseteq>\<^sub>m lay' \<and> used (w_alloc w) \<subseteq> used (w_alloc w')
    \<and> (\<forall>t \<in> dom lay' - dom lay. t div PAGE_SIZE \<notin> used (w_alloc w))
    \<and> (\<forall>a. a \<notin> table_span lay' \<longrightarrow> w_mem w' a = w_mem w a)
    \<and> (\<forall>t l va. lay t = Some (Suc l, va div 2 ^ (12 + 9 * Suc l)) \<longrightarrow> va < 2 ^ 47
         \<longrightarrow> view_from (w_mem w') va (Suc l) t = view_from (w_mem w) va (Suc l) t)
    \<and> (\<forall>t P i. lay t = Some (4, P) \<longrightarrow> 256 \<le> i \<longrightarrow> i < 512 \<longrightarrow> entry_at (w_mem w') t i = entry_at (w_mem w) t i)
    \<and> (\<forall>t L P i. lay t = Some (L, P) \<longrightarrow> i < 512 \<longrightarrow> L = 1 \<or> pte_is_present (entry_at (w_mem w) t i)
         \<longrightarrow> entry_at (w_mem w') t i = entry_at (w_mem w) t i)"

text \<open>An operation of a user page table: the invariant holds again, \<open>view'\<close> is what the user's addresses see now, and
  neither the kernel's half of the root nor memory outside the tables, old and newly taken, has changed.\<close>

definition pt_effect ::
  "('a \<Rightarrow> nat set) \<Rightarrow> layout \<Rightarrow> page_table \<Rightarrow> 'a world \<Rightarrow> layout \<Rightarrow> page_table \<Rightarrow> 'a world \<Rightarrow> (nat \<Rightarrow> u64 option) \<Rightarrow> bool" where
  "pt_effect used lay pt w lay' pt' w' view' \<longleftrightarrow>
    pt_inv used lay' pt' w' \<and> root_paddr pt' = root_paddr pt \<and> used (w_alloc w) \<subseteq> used (w_alloc w')
    \<and> dom lay \<subseteq> dom lay' \<and> (\<forall>t \<in> dom lay' - dom lay. t div PAGE_SIZE \<notin> used (w_alloc w))
    \<and> (\<forall>a. a \<notin> table_span lay' \<longrightarrow> w_mem w' a = w_mem w a)
    \<and> (\<forall>i. 256 \<le> i \<longrightarrow> i < 512 \<longrightarrow> entry_at (w_mem w') (root_paddr pt) i = entry_at (w_mem w) (root_paddr pt) i)
    \<and> (\<forall>v. v < 2 ^ 47 \<longrightarrow> pt_view (w_mem w') pt' v = view' v)"

section \<open>Words and entries\<close>

lemma bit_u64_of_bytes:
  "bit (u64_of_bytes bs) k \<longleftrightarrow> k < 64 \<and> k < 8 * length bs \<and> bit (bs ! (k div 8)) (k mod 8)"
proof (induction bs arbitrary: k)
  case Nil
  then show ?case by (simp add: u64_of_bytes_def)
next
  case (Cons b bs)
  have step: "u64_of_bytes (b # bs) = push_bit 8 (u64_of_bytes bs) OR ucast b" by (simp add: u64_of_bytes_def)
  show ?case
  proof (cases "k < 8")
    case True
    then show ?thesis by (auto simp: step bit_simps)
  next
    case False
    then obtain j where j: "k = j + 8" by (metis le_add_diff_inverse2 not_less)
    have "\<not> bit (ucast b :: u64) (j + 8)" by (auto simp: bit_simps dest: bit_imp_le_length)
    moreover have "(j + 8) div 8 = Suc (j div 8)" by simp
    ultimately show ?thesis using Cons.IH [of j] by (auto simp: step j bit_simps simp del: div_add_self2)
  qed
qed

lemma length_u64_bytes [simp]: "length (u64_bytes w) = 8"
  by (simp add: u64_bytes_def)

lemma u64_of_bytes_bytes [simp]: "u64_of_bytes (u64_bytes w) = w"
proof (rule bit_word_eqI)
  fix k
  assume k: "k < LENGTH(64)"
  then have "k div 8 < 8" by simp
  then have "u64_bytes w ! (k div 8) = ucast (drop_bit (8 * (k div 8)) w)" by (simp add: u64_bytes_def)
  then have "bit (u64_bytes w ! (k div 8)) (k mod 8) = bit w (8 * (k div 8) + k mod 8)" by (simp add: bit_simps)
  with k show "bit (u64_of_bytes (u64_bytes w)) k = bit w k" by (simp add: bit_u64_of_bytes)
qed

lemma read_u64_write_same [simp]: "read_u64 (write_u64 a w m) a = w"
  using bytes_at_store [of a "u64_bytes w" m] by (simp add: read_u64_def write_u64_def bytes_at_def)

lemma read_u64_cong: "(\<And>x. a \<le> x \<Longrightarrow> x < a + 8 \<Longrightarrow> m x = m' x) \<Longrightarrow> read_u64 m a = read_u64 m' a"
  by (auto simp: read_u64_def intro!: arg_cong [where f = u64_of_bytes])

lemma write_u64_out: "x < a \<or> a + 8 \<le> x \<Longrightarrow> write_u64 a w m x = m x"
  by (simp add: write_u64_def mem_store_out)

lemma slot_inj:
  assumes "t mod PAGE_SIZE = 0" "t' mod PAGE_SIZE = 0" "i < 512" "j < 512" "\<not> (t = t' \<and> i = j)"
  shows "slot t i + 8 \<le> slot t' j \<or> slot t' j + 8 \<le> slot t i"
proof -
  from assms(1,2) obtain a b where ab: "t = PAGE_SIZE * a" "t' = PAGE_SIZE * b" by (metis dvd_def mod_0_imp_dvd)
  show ?thesis
  proof (cases "a = b")
    case True
    with assms ab have "i < j \<or> j < i" by auto
    with ab True show ?thesis by (auto simp: slot_def paddr_to_vaddr_def)
  next
    case False
    then have "a + 1 \<le> b \<or> b + 1 \<le> a" by auto
    with ab assms(3,4) show ?thesis by (auto simp: slot_def paddr_to_vaddr_def)
  qed
qed

lemma entry_at_write:
  assumes "t mod PAGE_SIZE = 0" "t' mod PAGE_SIZE = 0" "i < 512" "j < 512"
  shows "entry_at (write_u64 (slot t i) e m) t' j = (if t = t' \<and> i = j then e else entry_at m t' j)"
proof (cases "t = t' \<and> i = j")
  case False
  with slot_inj [OF assms] have "read_u64 (write_u64 (slot t i) e m) (slot t' j) = read_u64 m (slot t' j)"
    by (intro read_u64_cong write_u64_out) auto
  with False show ?thesis by (auto simp: entry_at_def)
qed (simp add: entry_at_def)

lemma slot_in_span: "i < 512 \<Longrightarrow> slot t i + 8 \<le> paddr_to_vaddr t + PAGE_SIZE \<and> paddr_to_vaddr t \<le> slot t i"
  by (simp add: slot_def paddr_to_vaddr_def)

lemma calculate_pte_slot: "calculate_pte_vaddr t va level = slot t (page_index va level)"
  by (simp add: calculate_pte_vaddr_def slot_def)

lemma page_index_less [simp]: "page_index va level < 512"
  by (simp add: page_index_def)

lemma page_index_prefix:
  "va div 2 ^ (12 + 9 * l) = (va div 2 ^ (12 + 9 * Suc l)) * 512 + page_index va (Suc l)"
proof -
  have "va div 2 ^ (12 + 9 * Suc l) = va div 2 ^ (12 + 9 * l) div 512" by (simp add: power_add flip: div_mult2_eq)
  then show ?thesis by (simp add: page_index_def)
qed

lemma page_index_top: "va < 2 ^ 47 \<Longrightarrow> page_index va 4 < 256"
  by (simp add: page_index_def)

lemmas flag_defs = PRESENT_def WRITABLE_def USER_def WRITE_THROUGH_def NO_CACHE_def ACCESSED_def DIRTY_def HUGE_def
  GLOBAL_def NO_EXECUTE_def pt_flags_all_def flags_contains_def flags_set_def

lemma PHYS_ADDR_MASK_eq: "PHYS_ADDR_MASK = push_bit 12 (mask 40)"
  by (simp add: PHYS_ADDR_MASK_def mask_eq_exp_minus_1 push_bit_eq_mult)

lemma mask_of_paddr:
  assumes "p mod PAGE_SIZE = 0" "p < 2 ^ 52"
  shows "(of_nat p :: u64) AND PHYS_ADDR_MASK = of_nat p"
proof (rule bit_word_eqI)
  fix k
  assume "k < LENGTH(64)"
  have "12 \<le> k \<and> k < 52" if "bit p k"
  proof (rule conjI; rule ccontr)
    assume "\<not> 12 \<le> k"
    then have "bit (take_bit 12 p) k" using that by (simp add: bit_take_bit_iff)
    then show False using assms(1) by (simp add: take_bit_eq_mod)
  next
    assume "\<not> k < 52"
    then have "(2 :: nat) ^ 52 \<le> 2 ^ k" by (intro power_increasing) auto
    with assms(2) that show False by (simp add: bit_iff_odd)
  qed
  then show "bit ((of_nat p :: u64) AND PHYS_ADDR_MASK) k = bit (of_nat p :: u64) k"
    by (auto simp: PHYS_ADDR_MASK_eq bit_simps)
qed

lemma flags_mask_disjoint:
  assumes "fl AND NOT pt_flags_all = 0"
  shows "fl AND PHYS_ADDR_MASK = 0"
proof -
  have "PHYS_ADDR_MASK AND NOT pt_flags_all = PHYS_ADDR_MASK" by (simp add: PHYS_ADDR_MASK_def flag_defs)
  then have "fl AND PHYS_ADDR_MASK = fl AND (PHYS_ADDR_MASK AND NOT pt_flags_all)" by simp
  also have "\<dots> = (fl AND NOT pt_flags_all) AND PHYS_ADDR_MASK" by (simp only: ac_simps)
  finally show ?thesis using assms by simp
qed

lemma pte_paddr_new:
  assumes "p mod PAGE_SIZE = 0" "p < 2 ^ 52" "fl AND NOT pt_flags_all = 0"
  shows "pte_paddr (pte_new p fl) = p"
proof -
  have "pte_new p fl AND PHYS_ADDR_MASK = of_nat p"
    using mask_of_paddr [OF assms(1,2)] flags_mask_disjoint [OF assms(3)]
    by (simp add: pte_new_def bit.conj_disj_distrib2)
  with assms(2) show ?thesis by (simp add: pte_paddr_def unat_of_nat)
qed

lemma pte_flags_new:
  assumes "fl AND NOT pt_flags_all = 0"
  shows "pte_flags (pte_new p fl) = fl"
proof -
  have "PHYS_ADDR_MASK AND pt_flags_all = 0" by (simp add: PHYS_ADDR_MASK_def flag_defs)
  then have "(of_nat p AND PHYS_ADDR_MASK) AND pt_flags_all = 0" by (simp add: and.assoc)
  moreover have "fl AND pt_flags_all = fl"
  proof (rule bit_word_eqI)
    fix k
    assume "k < LENGTH(64)"
    then show "bit (fl AND pt_flags_all) k = bit fl k"
      using arg_cong [OF assms, of "\<lambda>x. bit x k"] by (auto simp: bit_simps)
  qed
  ultimately show ?thesis by (simp add: pte_flags_def pte_new_def bit.conj_disj_distrib2)
qed

lemma pte_zero [simp]: "\<not> pte_is_present 0" "\<not> pte_is_used 0"
  by (simp_all add: pte_is_present_def pte_is_used_def pte_flags_def flag_defs)

lemma pte_present_used: "pte_is_present e \<Longrightarrow> pte_is_used e"
  by (cases "e = 0") (simp_all add: pte_is_used_def)

lemma pte_present_new:
  "fl AND NOT pt_flags_all = 0 \<Longrightarrow> flags_contains fl PRESENT \<Longrightarrow> pte_is_present (pte_new p fl)"
  by (simp add: pte_is_present_def pte_flags_new)

lemma table_flags_facts: "table_flags AND NOT pt_flags_all = 0" "flags_contains table_flags PRESENT"
  "\<not> flags_contains table_flags HUGE"
  by (simp_all add: table_flags_def flag_defs)

lemma table_entry:
  assumes "p mod PAGE_SIZE = 0" "p < 2 ^ 47"
  shows "pte_is_present (pte_new p table_flags)" "\<not> pte_is_huge (pte_new p table_flags)"
    "pte_paddr (pte_new p table_flags) = p"
  using assms table_flags_facts
  by (simp_all add: pte_present_new pte_is_huge_def pte_flags_new pte_paddr_new)

section \<open>The allocator\<close>

lemma alloc_single_new:
  assumes fa: "frame_alloc_ok fa used" and avail: "fst (fa 1 (w_alloc w)) \<noteq> None"
  obtains f i where "alloc_single fa (alloc_options_new 1) w
      = (Ok f, \<lparr>w_mem = (\<lambda>a. if frame_ptr f \<le> a \<and> a < frame_ptr f + PAGE_SIZE then 0 else w_mem w a),
                w_alloc = snd (fa 1 (w_alloc w))\<rparr>)"
    and "start_paddr f = i * PAGE_SIZE" and "i < 2 ^ 35" and "i \<notin> used (w_alloc w)"
    and "used (snd (fa 1 (w_alloc w))) = insert i (used (w_alloc w))"
proof -
  from avail obtain i s' where f1: "fa 1 (w_alloc w) = (Some i, s')" by (metis option.exhaust prod.collapse)
  with fa have i: "i \<notin> used (w_alloc w)" "used s' = insert i (used (w_alloc w))" "i < 2 ^ 35"
    unfolding frame_alloc_ok_def by (auto dest!: spec [of _ 1] spec [of _ "w_alloc w"])
  define f where "f = ((of_nat i :: u64) OR NEED_DEALLOC)"
  have "f AND NOT NEED_DEALLOC = of_nat i AND NOT NEED_DEALLOC"
    by (rule bit_word_eqI) (auto simp: f_def bit_simps)
  then have "unat (frame_index f) = i" using unat_index [of i] i(3) by (simp add: frame_index_def)
  then have sp: "start_paddr f = i * PAGE_SIZE" by (simp add: start_paddr_def)
  have fill: "vw_fill zero_i32 (frame_writer f) m = Ok (\<lambda>a. if frame_ptr f \<le> a \<and> a < frame_ptr f + PAGE_SIZE then 0 else m a)" for m
    by (simp add: vw_fill_def zero_i32_def frame_writer_def writer_from_raw_parts_def vw_avail_def vw_fill_loop_zero)
  have new: "vm_frame_new (i * PAGE_SIZE) (NEED_DEALLOC OR NEED_DEALLOC) = Ok f"
    by (simp add: vm_frame_new_def f_def)
  have "alloc_single fa (alloc_options_new 1) w
      = (Ok f, \<lparr>w_mem = (\<lambda>a. if frame_ptr f \<le> a \<and> a < frame_ptr f + PAGE_SIZE then 0 else w_mem w a),
                w_alloc = snd (fa 1 (w_alloc w))\<rparr>)"
    unfolding alloc_single_def fa_alloc_single_def alloc_options_new_def ao_flags_def
    by (simp add: f1 new [simplified] fill del: One_nat_def, cases w, simp cong: if_cong)
  with that [of f i] sp i f1 show ?thesis by simp
qed

section \<open>Walks\<close>

lemma layoutD:
  assumes "layout_ok lay m" "lay t = Some (L, P)"
  shows "t mod PAGE_SIZE = 0" "t < 2 ^ 47" "1 \<le> L" "L \<le> 4"
  using assms by (auto simp: layout_ok_def)

lemma layout_child:
  assumes "layout_ok lay m" "lay t = Some (Suc (Suc l), P)" "i < 512" "l = 2 \<longrightarrow> i < 256"
    and "pte_is_present (entry_at m t i)"
  shows "\<not> pte_is_huge (entry_at m t i)" "lay (pte_paddr (entry_at m t i)) = Some (Suc l, P * 512 + i)"
  using assms unfolding layout_ok_def by auto

lemma user_index:
  assumes "va < 2 ^ 47"
  shows "l = 2 \<longrightarrow> page_index va (Suc (Suc l)) < 256"
proof
  assume "l = 2"
  then have "Suc (Suc l) = 4" by simp
  with page_index_top [OF assms] show "page_index va (Suc (Suc l)) < 256" by (simp only:)
qed

lemma page_walk_step:
  "page_walk m va (Suc (Suc l)) (slot t i) =
    (if \<not> pte_is_present (entry_at m t i) then None
     else if pte_is_huge (entry_at m t i) then Some (slot t i)
     else page_walk m va (Suc l) (slot (pte_paddr (entry_at m t i)) (page_index va (Suc l))))"
  by (simp add: entry_at_def calculate_pte_slot)

declare page_walk.simps(1) [simp del] page_walk_mut.simps(1) [simp del]

text \<open>The child table on the way of an address.\<close>

lemma walk_child:
  assumes ok: "layout_ok lay m" and t: "lay t = Some (Suc (Suc l), va div 2 ^ (12 + 9 * Suc (Suc l)))" and va: "va < 2 ^ 47"
    and pres: "pte_is_present (entry_at m t (page_index va (Suc (Suc l))))"
  shows "lay (pte_paddr (entry_at m t (page_index va (Suc (Suc l))))) = Some (Suc l, va div 2 ^ (12 + 9 * Suc l))"
    "page_walk m va (Suc (Suc l)) (slot t (page_index va (Suc (Suc l))))
       = page_walk m va (Suc l) (slot (pte_paddr (entry_at m t (page_index va (Suc (Suc l))))) (page_index va (Suc l)))"
  using layout_child [OF ok t page_index_less user_index [OF va] pres] page_index_prefix [of va "Suc l"] pres
  by (simp_all only: page_walk_step if_False not_True_eq_False)

lemma page_walk_leaf:
  assumes "layout_ok lay m" "va < 2 ^ 47" "lay t = Some (Suc l, va div 2 ^ (12 + 9 * Suc l))"
    and "page_walk m va (Suc l) (slot t (page_index va (Suc l))) = Some c"
  shows "\<exists>t'. lay t' = Some (1, va div 2 ^ 21) \<and> c = slot t' (page_index va 1)"
  using assms(3,4)
proof (induction l arbitrary: t)
  case 0
  then show ?case by auto
next
  case (Suc l)
  have pres: "pte_is_present (entry_at m t (page_index va (Suc (Suc l))))"
    using Suc.prems(2) by (auto simp: page_walk_step split: if_splits)
  from Suc.IH [OF walk_child(1) [OF assms(1) Suc.prems(1) assms(2) pres]] Suc.prems(2)
    walk_child(2) [OF assms(1) Suc.prems(1) assms(2) pres] show ?case by simp
qed

text \<open>A walk reads entries of tables above the lowest level only.\<close>

lemma page_walk_cong:
  assumes "layout_ok lay m" "va < 2 ^ 47" "lay t = Some (Suc l, va div 2 ^ (12 + 9 * Suc l))"
    and same: "\<And>t L P i. lay t = Some (Suc (Suc L), P) \<Longrightarrow> i < 512 \<Longrightarrow> L = 2 \<longrightarrow> i < 256 \<Longrightarrow> entry_at m' t i = entry_at m t i"
  shows "page_walk m' va (Suc l) (slot t (page_index va (Suc l))) = page_walk m va (Suc l) (slot t (page_index va (Suc l)))"
  using assms(3)
proof (induction l arbitrary: t)
  case 0
  then show ?case by simp
next
  case (Suc l)
  let ?i = "page_index va (Suc (Suc l))"
  have eq: "entry_at m' t ?i = entry_at m t ?i" by (rule same [OF Suc.prems page_index_less user_index [OF assms(2)]])
  show ?case
  proof (cases "pte_is_present (entry_at m t ?i)")
    case True
    from Suc.IH [OF walk_child(1) [OF assms(1) Suc.prems assms(2) True]] show ?thesis
      by (simp only: page_walk_step eq)
  qed (simp add: page_walk_step eq)
qed

lemma layout_ok_cong:
  assumes "layout_ok lay m"
    and "\<And>t L P i. lay t = Some (Suc (Suc L), P) \<Longrightarrow> i < 512 \<Longrightarrow> L = 2 \<longrightarrow> i < 256 \<Longrightarrow> entry_at m' t i = entry_at m t i"
  shows "layout_ok lay m'"
proof -
  have eq: "entry_at m' t i = entry_at m t i" if "lay t = Some (Suc L, P)" "1 \<le> L" "i < 512" "L = 3 \<longrightarrow> i < 256" for t L P i
    using that assms(2) [of t "L - 1" P i] by auto
  show ?thesis
    using assms(1) unfolding layout_ok_def by (auto simp: eq)
qed

lemma view_from_step:
  assumes ok: "layout_ok lay m" and t: "lay t = Some (Suc (Suc l), va div 2 ^ (12 + 9 * Suc (Suc l)))" and va: "va < 2 ^ 47"
  shows "view_from m va (Suc (Suc l)) t =
    (let e = entry_at m t (page_index va (Suc (Suc l))) in if pte_is_present e then view_from m va (Suc l) (pte_paddr e) else None)"
proof (cases "pte_is_present (entry_at m t (page_index va (Suc (Suc l))))")
  case True
  from walk_child(2) [OF ok t va True] True show ?thesis by (simp add: view_from_def)
qed (simp add: view_from_def page_walk_step)

lemma view_from_1:
  "view_from m va (Suc 0) t =
    (let e = entry_at m t (page_index va 1) in if pte_is_used e \<and> pte_is_present e then Some e else None)"
  by (simp add: view_from_def entry_at_def Let_def)

lemma view_from_empty:
  assumes "\<And>i. i < 512 \<Longrightarrow> entry_at m t i = 0"
  shows "view_from m va (Suc l) t = None"
proof (cases l)
  case 0
  then show ?thesis using assms [of "page_index va 1"] by (simp add: view_from_1)
next
  case (Suc k)
  then show ?thesis using assms by (simp add: view_from_def page_walk_step)
qed

lemma table_spanI: "t \<in> dom lay \<Longrightarrow> paddr_to_vaddr t \<le> a \<Longrightarrow> a < paddr_to_vaddr t + PAGE_SIZE \<Longrightarrow> a \<in> table_span lay"
  by (auto simp: table_span_def)

lemma table_span_mono: "lay \<subseteq>\<^sub>m lay' \<Longrightarrow> table_span lay \<subseteq> table_span lay'"
  unfolding table_span_def by (intro UN_mono map_le_implies_dom_le) auto

lemma write_slot_out:
  assumes "t \<in> dom lay" "i < 512" "a \<notin> table_span lay"
  shows "write_u64 (slot t i) e m a = m a"
proof (rule write_u64_out, rule ccontr)
  assume "\<not> (a < slot t i \<or> slot t i + 8 \<le> a)"
  with slot_in_span [OF assms(2), of t] table_spanI [OF assms(1), of a] assms(3) show False by linarith
qed

lemma grown_refl: "grown used lay w lay w"
  by (simp add: grown_def)

lemma grownD:
  assumes "grown used lay w lay' w'"
  shows "lay \<subseteq>\<^sub>m lay'" "used (w_alloc w) \<subseteq> used (w_alloc w')"
    "t \<in> dom lay' \<Longrightarrow> t \<notin> dom lay \<Longrightarrow> t div PAGE_SIZE \<notin> used (w_alloc w)"
    "a \<notin> table_span lay' \<Longrightarrow> w_mem w' a = w_mem w a"
    "lay t = Some (Suc l, va div 2 ^ (12 + 9 * Suc l)) \<Longrightarrow> va < 2 ^ 47
       \<Longrightarrow> view_from (w_mem w') va (Suc l) t = view_from (w_mem w) va (Suc l) t"
    "lay t = Some (4, P) \<Longrightarrow> 256 \<le> i \<Longrightarrow> i < 512 \<Longrightarrow> entry_at (w_mem w') t i = entry_at (w_mem w) t i"
    "lay t = Some (L, P) \<Longrightarrow> i < 512 \<Longrightarrow> L = 1 \<or> pte_is_present (entry_at (w_mem w) t i)
       \<Longrightarrow> entry_at (w_mem w') t i = entry_at (w_mem w) t i"
    "lay t = Some x \<Longrightarrow> lay' t = Some x"
proof -
  note g = assms [unfolded grown_def]
  from g show "lay \<subseteq>\<^sub>m lay'" by (elim conjE)
  then show "lay t = Some x \<Longrightarrow> lay' t = Some x" unfolding map_le_def by (metis domI)
  from g show "used (w_alloc w) \<subseteq> used (w_alloc w')" by (elim conjE)
  from g have "\<forall>t L P i. lay t = Some (L, P) \<longrightarrow> i < 512 \<longrightarrow> L = 1 \<or> pte_is_present (entry_at (w_mem w) t i)
       \<longrightarrow> entry_at (w_mem w') t i = entry_at (w_mem w) t i" by (elim conjE)
  then show "lay t = Some (L, P) \<Longrightarrow> i < 512 \<Longrightarrow> L = 1 \<or> pte_is_present (entry_at (w_mem w) t i)
       \<Longrightarrow> entry_at (w_mem w') t i = entry_at (w_mem w) t i" by blast
qed (use assms in \<open>simp_all add: grown_def\<close>)

lemma grown_trans:
  assumes g1: "grown used lay w lay1 w1" and g2: "grown used lay1 w1 lay2 w2"
  shows "grown used lay w lay2 w2"
  unfolding grown_def
proof (intro conjI allI ballI impI)
  show "lay \<subseteq>\<^sub>m lay2" using grownD(1) [OF g1] grownD(1) [OF g2] by (rule map_le_trans)
  show "used (w_alloc w) \<subseteq> used (w_alloc w2)" using grownD(2) [OF g1] grownD(2) [OF g2] by blast
  show "t div PAGE_SIZE \<notin> used (w_alloc w)" if "t \<in> dom lay2 - dom lay" for t
    using that grownD(2,3) [OF g1] grownD(3) [OF g2, of t] by (cases "t \<in> dom lay1") auto
  show "w_mem w2 a = w_mem w a" if "a \<notin> table_span lay2" for a
    using that grownD(4) [OF g1, of a] grownD(4) [OF g2] table_span_mono [OF grownD(1) [OF g2]] by auto
  show "view_from (w_mem w2) va (Suc l) t = view_from (w_mem w) va (Suc l) t"
    if "lay t = Some (Suc l, va div 2 ^ (12 + 9 * Suc l))" "va < 2 ^ 47" for t l va
    using grownD(5) [OF g1 that] grownD(5) [OF g2 grownD(8) [OF g1 that(1)] that(2)] by simp
  show "entry_at (w_mem w2) t i = entry_at (w_mem w) t i" if "lay t = Some (4, P)" "256 \<le> i" "i < 512" for t P i
    using grownD(6) [OF g1 that] grownD(6) [OF g2 grownD(8) [OF g1 that(1)] that(2,3)] by simp
  show "entry_at (w_mem w2) t i = entry_at (w_mem w) t i"
    if "lay t = Some (L, P)" "i < 512" "L = 1 \<or> pte_is_present (entry_at (w_mem w) t i)" for t L P i
    using grownD(7) [OF g1 that] grownD(7) [OF g2 grownD(8) [OF g1 that(1)] that(2)] that(3) by simp
qed

section \<open>Creating a table\<close>

lemma frame_table_disjoint:
  assumes "t mod PAGE_SIZE = 0" "p mod PAGE_SIZE = 0" "t \<noteq> p"
  shows "paddr_to_vaddr t + PAGE_SIZE \<le> paddr_to_vaddr p \<or> paddr_to_vaddr p + PAGE_SIZE \<le> paddr_to_vaddr t"
proof -
  from assms(1,2) obtain a b where "t = PAGE_SIZE * a" "p = PAGE_SIZE * b" by (metis dvd_def mod_0_imp_dvd)
  with assms(3) have "t = PAGE_SIZE * a" "p = PAGE_SIZE * b" "a + 1 \<le> b \<or> b + 1 \<le> a" by auto
  then show ?thesis by (auto simp: paddr_to_vaddr_def)
qed

text \<open>The memory after a table was created at \<open>p\<close> and entered in slot \<open>(t0, i0)\<close>.\<close>

definition with_table :: "nat \<Rightarrow> nat \<Rightarrow> nat \<Rightarrow> kmem \<Rightarrow> kmem" where
  "with_table p t0 i0 m = write_u64 (slot t0 i0) (pte_new p table_flags)
     (\<lambda>a. if paddr_to_vaddr p \<le> a \<and> a < paddr_to_vaddr p + PAGE_SIZE then 0 else m a)"

lemma read_u64_zero: "(\<And>x. a \<le> x \<Longrightarrow> x < a + 8 \<Longrightarrow> m x = 0) \<Longrightarrow> read_u64 m a = 0"
  by (rule bit_word_eqI) (simp add: read_u64_def bit_u64_of_bytes)

lemma with_table_entry:
  assumes "t0 mod PAGE_SIZE = 0" "p mod PAGE_SIZE = 0" "t0 \<noteq> p" "i0 < 512" "t mod PAGE_SIZE = 0" "i < 512"
  shows "entry_at (with_table p t0 i0 m) t i =
    (if t = p then 0 else if t = t0 \<and> i = i0 then pte_new p table_flags else entry_at m t i)"
proof -
  let ?z = "\<lambda>a. if paddr_to_vaddr p \<le> a \<and> a < paddr_to_vaddr p + PAGE_SIZE then 0 else m a"
  have "entry_at ?z p i = 0"
    unfolding entry_at_def using slot_in_span [OF assms(6), of p] by (intro read_u64_zero) auto
  moreover have "entry_at ?z t i = entry_at m t i" if "t \<noteq> p"
    unfolding entry_at_def
    using slot_in_span [OF assms(6), of t] frame_table_disjoint [OF assms(5,2) that] by (intro read_u64_cong) auto
  ultimately show ?thesis
    using assms by (auto simp: with_table_def entry_at_write)
qed

definition creates :: "layout \<Rightarrow> kmem \<Rightarrow> nat \<Rightarrow> nat \<Rightarrow> nat \<Rightarrow> nat \<Rightarrow> nat \<Rightarrow> bool" where
  "creates lay m t0 i0 L P p \<longleftrightarrow>
    layout_ok lay m \<and> lay t0 = Some (Suc (Suc L), P) \<and> i0 < 512 \<and> (L = 2 \<longrightarrow> i0 < 256)
    \<and> \<not> pte_is_present (entry_at m t0 i0) \<and> p mod PAGE_SIZE = 0 \<and> p < 2 ^ 47 \<and> lay p = None"

lemma createsD:
  assumes "creates lay m t0 i0 L P p"
  shows "layout_ok lay m" "lay t0 = Some (Suc (Suc L), P)" "i0 < 512" "L = 2 \<longrightarrow> i0 < 256"
    "\<not> pte_is_present (entry_at m t0 i0)" "p mod PAGE_SIZE = 0" "p < 2 ^ 47" "lay p = None"
    "t0 mod PAGE_SIZE = 0" "t0 \<noteq> p" "Suc (Suc L) \<le> 4"
  using assms layoutD [of lay m t0 "Suc (Suc L)" P] unfolding creates_def by auto

lemma wt_entry:
  assumes c: "creates lay m t0 i0 L P p" and t: "lay t \<noteq> None" "i < 512"
  shows "entry_at (with_table p t0 i0 m) t i = (if t = t0 \<and> i = i0 then pte_new p table_flags else entry_at m t i)"
proof -
  have "t mod PAGE_SIZE = 0" "t \<noteq> p" using t(1) layoutD(1) [OF createsD(1) [OF c]] createsD(8) [OF c] by auto
  then show ?thesis using with_table_entry [OF createsD(9,6,10,3) [OF c], of t i m] t(2) by simp
qed

lemma wt_new_entry:
  assumes c: "creates lay m t0 i0 L P p" and "i < 512"
  shows "entry_at (with_table p t0 i0 m) p i = 0"
  using with_table_entry [OF createsD(9,6,10,3) [OF c] createsD(6) [OF c] assms(2), of m] by simp

lemma wt_layout:
  assumes c: "creates lay m t0 i0 L P p"
  shows "layout_ok (lay(p \<mapsto> (Suc L, P * 512 + i0))) (with_table p t0 i0 m)"
  unfolding layout_ok_def
proof (intro conjI allI impI; (elim conjE)?)
  let ?lay = "lay(p \<mapsto> (Suc L, P * 512 + i0))"
  fix t l Q
  assume "?lay t = Some (l, Q)"
  then show "t mod PAGE_SIZE = 0" "t < 2 ^ 47" "1 \<le> l" "l \<le> 4"
    using createsD(6,7,11) [OF c] layoutD [OF createsD(1) [OF c]] by (auto split: if_splits)
next
  let ?lay = "lay(p \<mapsto> (Suc L, P * 512 + i0))" and ?m = "with_table p t0 i0 m"
  fix t l Q i
  assume a: "?lay t = Some (Suc l, Q)" "1 \<le> l" "i < 512" "l = 3 \<longrightarrow> i < 256" "pte_is_present (entry_at ?m t i)"
  have tp: "t \<noteq> p" using a(5) wt_new_entry [OF c a(3)] by auto
  then have t: "lay t = Some (Suc l, Q)" using a(1) by simp
  have "\<not> pte_is_huge (entry_at ?m t i) \<and> ?lay (pte_paddr (entry_at ?m t i)) = Some (l, Q * 512 + i)"
  proof (cases "t = t0 \<and> i = i0")
    case True
    with t createsD(2) [OF c] have "l = Suc L" "Q = P" by auto
    with True show ?thesis using wt_entry [OF c, of t i] t a(3) table_entry [OF createsD(6,7) [OF c]] by simp
  next
    case False
    with wt_entry [OF c, of t i] t a(3) have e: "entry_at ?m t i = entry_at m t i" by auto
    obtain k where k: "l = Suc k" using a(2) by (cases l) auto
    with a(4) have "k = 2 \<longrightarrow> i < 256" by auto
    from layout_child [OF createsD(1) [OF c] t [unfolded k] a(3) this] a(5) createsD(8) [OF c] show ?thesis by (auto simp: e k)
  qed
  then show "\<not> pte_is_huge (entry_at ?m t i)" "?lay (pte_paddr (entry_at ?m t i)) = Some (l, Q * 512 + i)" by blast+
qed

lemma wt_view:
  assumes c: "creates lay m t0 i0 L P p" and va: "va < 2 ^ 47" and t: "lay t = Some (Suc l, va div 2 ^ (12 + 9 * Suc l))"
  shows "view_from (with_table p t0 i0 m) va (Suc l) t = view_from m va (Suc l) t"
  using t
proof (induction l arbitrary: t)
  case 0
  with createsD(2) [OF c] have "t \<noteq> t0" by auto
  with 0 show ?case by (simp add: view_from_1 wt_entry [OF c])
next
  case (Suc l)
  let ?i = "page_index va (Suc (Suc l))" and ?m = "with_table p t0 i0 m"
  have "t \<noteq> p" using Suc.prems createsD(8) [OF c] by auto
  then have 1: "view_from ?m va (Suc (Suc l)) t =
      (let e = entry_at ?m t ?i in if pte_is_present e then view_from ?m va (Suc l) (pte_paddr e) else None)"
    using Suc.prems by (intro view_from_step [OF wt_layout [OF c] _ va]) simp
  have 2: "view_from m va (Suc (Suc l)) t =
      (let e = entry_at m t ?i in if pte_is_present e then view_from m va (Suc l) (pte_paddr e) else None)"
    by (rule view_from_step [OF createsD(1) [OF c] Suc.prems va])
  have 3: "view_from ?m va (Suc l) p = None" by (rule view_from_empty [OF wt_new_entry [OF c]])
  have e: "entry_at ?m t ?i = (if t = t0 \<and> ?i = i0 then pte_new p table_flags else entry_at m t ?i)"
    using Suc.prems by (intro wt_entry [OF c]) simp_all
  show ?case
  proof (cases "t = t0 \<and> ?i = i0")
    case True
    with e have "entry_at ?m t ?i = pte_new p table_flags" by simp
    moreover have "\<not> pte_is_present (entry_at m t ?i)" using createsD(5) [OF c] True by auto
    ultimately show ?thesis using 1 2 3 table_entry(3) [OF createsD(6,7) [OF c]] by (simp add: Let_def)
  next
    case False
    with e have "entry_at ?m t ?i = entry_at m t ?i" by auto
    with 1 2 Suc.IH [OF walk_child(1) [OF createsD(1) [OF c] Suc.prems va]] show ?thesis by (simp add: Let_def)
  qed
qed

lemma wt_out:
  assumes c: "creates lay m t0 i0 L P p" and a: "a \<notin> table_span (lay(p \<mapsto> x))"
  shows "with_table p t0 i0 m a = m a"
proof -
  have "write_u64 (slot t0 i0) e m' a = m' a" for e m'
    using a createsD(2,3,10) [OF c] by (intro write_slot_out [of t0 "lay(p \<mapsto> x)"]) auto
  then show ?thesis using a table_spanI [of p "lay(p \<mapsto> x)" a] by (auto simp: with_table_def)
qed

text \<open>Taking a frame for a table keeps the invariant and what every address sees.\<close>

lemma grown_with_table:
  assumes c: "creates lay (w_mem w) t0 i0 L P p" and fresh: "p div PAGE_SIZE \<notin> used (w_alloc w)"
    and used: "used (w_alloc w) \<subseteq> used s'"
  shows "grown used lay w (lay(p \<mapsto> (Suc L, P * 512 + i0))) \<lparr>w_mem = with_table p t0 i0 (w_mem w), w_alloc = s'\<rparr>"
  unfolding grown_def
proof (intro conjI allI ballI impI)
  let ?lay = "lay(p \<mapsto> (Suc L, P * 512 + i0))" and ?w = "\<lparr>w_mem = with_table p t0 i0 (w_mem w), w_alloc = s'\<rparr>"
  show "lay \<subseteq>\<^sub>m ?lay" using createsD(8) [OF c] by (auto simp: map_le_def)
  show "used (w_alloc w) \<subseteq> used (w_alloc ?w)" using used by simp
  show "t div PAGE_SIZE \<notin> used (w_alloc w)" if "t \<in> dom ?lay - dom lay" for t using that fresh by (auto split: if_splits)
  show "w_mem ?w a = w_mem w a" if "a \<notin> table_span ?lay" for a using wt_out [OF c that] by simp
  show "view_from (w_mem ?w) va (Suc l) t = view_from (w_mem w) va (Suc l) t"
    if "lay t = Some (Suc l, va div 2 ^ (12 + 9 * Suc l))" "va < 2 ^ 47" for t l va
    using wt_view [OF c that(2,1)] by simp
  show "entry_at (w_mem ?w) t i = entry_at (w_mem w) t i" if "lay t = Some (4, Q)" "256 \<le> i" "i < 512" for t Q i
    using that wt_entry [OF c, of t i] createsD(2,4) [OF c] by auto
  show "entry_at (w_mem ?w) t i = entry_at (w_mem w) t i"
    if "lay t = Some (l, Q)" "i < 512" "l = 1 \<or> pte_is_present (entry_at (w_mem w) t i)" for t l Q i
    using that wt_entry [OF c, of t i] createsD(2,5) [OF c] by auto
qed

lemma ensure_table_create:
  assumes fa: "frame_alloc_ok fa used" and ok: "tables_ok used lay ts w"
    and t0: "lay t0 = Some (Suc (Suc L), P)" "i0 < 512" "L = 2 \<longrightarrow> i0 < 256"
    and absent: "\<not> pte_is_present (entry_at (w_mem w) t0 i0)" and avail: "fst (fa 1 (w_alloc w)) \<noteq> None"
  shows "\<exists>ts1 w1 lay1. ensure_table fa True (slot t0 i0) ts w = (Ok True, ts1, w1) \<and> tables_ok used lay1 ts1 w1
    \<and> grown used lay w lay1 w1 \<and> w_alloc w1 = snd (fa 1 (w_alloc w)) \<and> pte_is_present (entry_at (w_mem w1) t0 i0)"
proof -
  let ?s = "snd (fa 1 (w_alloc w))"
  obtain f i where f: "alloc_single fa (alloc_options_new 1) w
      = (Ok f, \<lparr>w_mem = (\<lambda>a. if frame_ptr f \<le> a \<and> a < frame_ptr f + PAGE_SIZE then 0 else w_mem w a), w_alloc = ?s\<rparr>)"
    "start_paddr f = i * PAGE_SIZE" "i < 2 ^ 35" "i \<notin> used (w_alloc w)" "used ?s = insert i (used (w_alloc w))"
    by (rule alloc_single_new [OF fa avail])
  define p where "p = i * PAGE_SIZE"
  define lay1 where "lay1 = lay(p \<mapsto> (Suc L, P * 512 + i0))"
  let ?w1 = "\<lparr>w_mem = with_table p t0 i0 (w_mem w), w_alloc = ?s\<rparr>"
  have "p \<in> dom lay \<Longrightarrow> p div PAGE_SIZE \<in> used (w_alloc w)" using ok unfolding tables_ok_def by blast
  with f(4) have "lay p = None" by (auto simp: p_def)
  then have c: "creates lay (w_mem w) t0 i0 L P p"
    using ok t0 absent f(3) by (simp add: creates_def tables_ok_def p_def)
  have e: "ensure_table fa True (slot t0 i0) ts w = (Ok True, ts @ [f], ?w1)"
    using absent f(1,2) by (simp add: ensure_table_def with_table_def p_def frame_ptr_def flip: entry_at_def)
  have g: "grown used lay w lay1 ?w1"
    unfolding lay1_def using f by (intro grown_with_table [OF c]) (auto simp: p_def)
  have "tables_ok used lay1 (ts @ [f]) ?w1"
    using ok f wt_layout [OF c] by (auto simp: tables_ok_def lay1_def p_def)
  moreover have "pte_is_present (entry_at (w_mem ?w1) t0 i0)"
    using wt_entry [OF c, of t0 i0] t0 table_entry(1) [OF createsD(6,7) [OF c]] by simp
  ultimately show ?thesis using e g by (intro exI [of _ "ts @ [f]"] exI [of _ ?w1] exI [of _ lay1]) simp
qed

lemma can_alloc_mono: "can_alloc fa (Suc n) s \<Longrightarrow> can_alloc fa n s"
  by (induction n arbitrary: s) auto

lemma page_walk_mut_slot:
  "page_walk_mut fa create va (Suc (Suc l)) (slot t i) ts w =
    (case ensure_table fa create (slot t i) ts w of
       (Inl e, ts1, w1) \<Rightarrow> (Inl e, ts1, w1)
     | (Inr False, ts1, w1) \<Rightarrow> (Ok None, ts1, w1)
     | (Inr True, ts1, w1) \<Rightarrow>
         (if pte_is_huge (entry_at (w_mem w1) t i) then (Ok (Some (slot t i)), ts1, w1)
          else page_walk_mut fa create va (Suc l) (slot (pte_paddr (entry_at (w_mem w1) t i)) (page_index va (Suc l))) ts1 w1))"
  unfolding page_walk_mut.simps(1) Let_def calculate_pte_slot entry_at_def by (rule refl)

lemma page_walk_mut_create:
  assumes fa: "frame_alloc_ok fa used" and va: "va < 2 ^ 47" and ok: "tables_ok used lay ts w"
    and t: "lay t = Some (Suc l, va div 2 ^ (12 + 9 * Suc l))" and avail: "can_alloc fa (l + n) (w_alloc w)"
  shows "\<exists>c ts' w' lay'. page_walk_mut fa True va (Suc l) (slot t (page_index va (Suc l))) ts w = (Ok (Some c), ts', w')
    \<and> tables_ok used lay' ts' w' \<and> grown used lay w lay' w'
    \<and> page_walk (w_mem w') va (Suc l) (slot t (page_index va (Suc l))) = Some c \<and> can_alloc fa n (w_alloc w')"
  using ok t avail
proof (induction l arbitrary: t ts w lay)
  case 0
  then show ?case using grown_refl [of used lay w] by auto
next
  case (Suc l)
  let ?i = "page_index va (Suc (Suc l))"
  obtain ts1 w1 lay1 where 1: "ensure_table fa True (slot t ?i) ts w = (Ok True, ts1, w1)" "tables_ok used lay1 ts1 w1"
    "grown used lay w lay1 w1" "can_alloc fa (l + n) (w_alloc w1)" "pte_is_present (entry_at (w_mem w1) t ?i)"
  proof (cases "pte_is_present (entry_at (w_mem w) t ?i)")
    case True
    with Suc.prems can_alloc_mono [OF Suc.prems(3) [unfolded add_Suc]] grown_refl [of used lay w] show ?thesis
      by (intro that [of ts w lay]) (simp_all add: ensure_table_def entry_at_def)
  next
    case False
    from ensure_table_create [OF fa Suc.prems(1,2) page_index_less user_index [OF va] False] Suc.prems(3) that
    show ?thesis by auto
  qed
  have t1: "lay1 t = Some (Suc (Suc l), va div 2 ^ (12 + 9 * Suc (Suc l)))"
    by (rule grownD(8) [OF 1(3) Suc.prems(2)])
  have ok1: "layout_ok lay1 (w_mem w1)" using 1(2) by (simp add: tables_ok_def)
  let ?e = "entry_at (w_mem w1) t ?i"
  note child = walk_child(1) [OF ok1 t1 va 1(5)]
  have huge: "\<not> pte_is_huge ?e" by (rule layout_child(1) [OF ok1 t1 page_index_less user_index [OF va] 1(5)])
  from Suc.IH [OF 1(2) child 1(4)] obtain c ts' w' lay' where
    2: "page_walk_mut fa True va (Suc l) (slot (pte_paddr ?e) (page_index va (Suc l))) ts1 w1 = (Ok (Some c), ts', w')"
      "tables_ok used lay' ts' w'" "grown used lay1 w1 lay' w'"
      "page_walk (w_mem w') va (Suc l) (slot (pte_paddr ?e) (page_index va (Suc l))) = Some c"
      "can_alloc fa n (w_alloc w')" by blast
  have same: "entry_at (w_mem w') t ?i = ?e" using grownD(7) [OF 2(3) t1] 1(5) by simp
  have "page_walk (w_mem w') va (Suc (Suc l)) (slot t ?i) = Some c"
    using 1(5) huge 2(4) by (simp add: page_walk_step same)
  moreover have "page_walk_mut fa True va (Suc (Suc l)) (slot t ?i) ts w = (Ok (Some c), ts', w')"
    using 1(1) huge 2(1) by (simp add: page_walk_mut_slot)
  ultimately show ?case using 2(2,5) grown_trans [OF 1(3) 2(3)] by blast
qed

lemma page_walk_mut_read: "page_walk_mut fa False va l c ts w = (Ok (page_walk (w_mem w) va l c), ts, w)"
  by (induction fa "False" va l c ts w rule: page_walk_mut.induct)
    (auto simp: page_walk_mut.simps(1) page_walk.simps(1) ensure_table_def Let_def)

section \<open>Writing the entry of a page\<close>

lemma page_index_page:
  assumes "v div PAGE_SIZE = va div PAGE_SIZE"
  shows "page_index v l = page_index va l"
proof -
  have "x div 2 ^ (12 + 9 * k) = x div PAGE_SIZE div 2 ^ (9 * k)" for x k :: nat
    by (simp add: power_add flip: div_mult2_eq)
  with assms show ?thesis by (simp add: page_index_def)
qed

lemma page_walk_page:
  assumes "v div PAGE_SIZE = va div PAGE_SIZE"
  shows "page_walk m v l c = page_walk m va l c"
  using assms
proof (induction m v l c rule: page_walk.induct)
  case (1 m v l c)
  then show ?case using page_index_page [OF "1.prems"] by (simp add: page_walk.simps(1) calculate_pte_vaddr_def)
qed simp_all

lemma same_leaf_same_page:
  assumes "v div 2 ^ 21 = va div 2 ^ 21" "page_index v 1 = page_index va 1"
  shows "v div PAGE_SIZE = va div PAGE_SIZE"
  using page_index_prefix [of v 0] page_index_prefix [of va 0] assms by simp

lemma leaf_write_layout:
  assumes "layout_ok lay m" "lay t1 = Some (1, P1)" "i1 < 512"
  shows "layout_ok lay (write_u64 (slot t1 i1) e m)"
    "\<And>t L P i. lay t = Some (Suc (Suc L), P) \<Longrightarrow> i < 512 \<Longrightarrow> entry_at (write_u64 (slot t1 i1) e m) t i = entry_at m t i"
proof -
  show *: "entry_at (write_u64 (slot t1 i1) e m) t i = entry_at m t i"
    if "lay t = Some (Suc (Suc L), P)" "i < 512" for t L P i
    using that assms layoutD(1) [OF assms(1)] by (subst entry_at_write) auto
  show "layout_ok lay (write_u64 (slot t1 i1) e m)"
    by (rule layout_ok_cong [OF assms(1) *]) assumption+
qed

lemma leaf_write_view:
  assumes ok: "layout_ok lay m" and va: "va < 2 ^ 47" "v < 2 ^ 47"
    and t: "lay t = Some (Suc l, va div 2 ^ (12 + 9 * Suc l))" "lay t = Some (Suc l, v div 2 ^ (12 + 9 * Suc l))"
    and walk: "page_walk m va (Suc l) (slot t (page_index va (Suc l))) = Some c"
  shows "view_from (write_u64 c e m) v (Suc l) t =
    (if v div PAGE_SIZE = va div PAGE_SIZE then if pte_is_used e \<and> pte_is_present e then Some e else None
     else view_from m v (Suc l) t)"
proof -
  from page_walk_leaf [OF ok va(1) t(1) walk] obtain t1 where
    t1: "lay t1 = Some (1, va div 2 ^ 21)" "c = slot t1 (page_index va 1)" by blast
  let ?m = "write_u64 c e m"
  note other = leaf_write_layout(2) [OF ok t1(1) page_index_less [of va 1], where e = e, folded t1(2)]
  have w: "page_walk ?m v (Suc l) (slot t (page_index v (Suc l))) = page_walk m v (Suc l) (slot t (page_index v (Suc l)))"
    by (rule page_walk_cong [OF ok va(2) t(2) other]) assumption+
  show ?thesis
  proof (cases "v div PAGE_SIZE = va div PAGE_SIZE")
    case True
    then have "page_walk ?m v (Suc l) (slot t (page_index v (Suc l))) = Some c"
      using w walk page_walk_page [OF True] page_index_page [OF True] by simp
    with True show ?thesis by (simp add: view_from_def)
  next
    case False
    show ?thesis
    proof (cases "page_walk m v (Suc l) (slot t (page_index v (Suc l)))")
      case (Some c')
      from page_walk_leaf [OF ok va(2) t(2) Some] obtain t2 where
        t2: "lay t2 = Some (1, v div 2 ^ 21)" "c' = slot t2 (page_index v 1)" by blast
      have "\<not> (t1 = t2 \<and> page_index va 1 = page_index v 1)"
        using False same_leaf_same_page [of v va] t1(1) t2(1) by auto
      then have "entry_at ?m t2 (page_index v 1) = entry_at m t2 (page_index v 1)"
        using layoutD(1) [OF ok t1(1)] layoutD(1) [OF ok t2(1)] by (auto simp: t1(2) entry_at_write)
      with False Some w show ?thesis by (simp add: view_from_def t2(2) entry_at_def)
    qed (use False w in \<open>simp add: view_from_def\<close>)
  qed
qed

lemma pt_view_from: "address_width pt = 4 \<Longrightarrow> pt_view m pt va = view_from m va 4 (root_paddr pt)"
  by (simp add: pt_view_def view_from_def do_page_walk_def calculate_pte_slot)

lemma root_prefix: "va < 2 ^ 47 \<Longrightarrow> (va :: nat) div 2 ^ (12 + 9 * Suc 3) = 0"
  by simp

lemma pt_inv_root:
  assumes "pt_inv used lay pt w" "va < 2 ^ 47"
  shows "lay (root_paddr pt) = Some (Suc 3, va div 2 ^ (12 + 9 * Suc 3))"
  using assms root_prefix [OF assms(2)] by (simp add: pt_inv_def)

text \<open>What an address sees depends on the tables only, and of the root only on the user's half.\<close>

lemma view_from_cong:
  assumes ok: "layout_ok lay m" and va: "va < 2 ^ 47" and t: "lay t = Some (Suc l, va div 2 ^ (12 + 9 * Suc l))"
    and same: "\<And>t L P i. lay t = Some (L, P) \<Longrightarrow> i < 512 \<Longrightarrow> L = 4 \<longrightarrow> i < 256 \<Longrightarrow> entry_at m' t i = entry_at m t i"
  shows "view_from m' va (Suc l) t = view_from m va (Suc l) t"
proof -
  have w: "page_walk m' va (Suc l) (slot t (page_index va (Suc l))) = page_walk m va (Suc l) (slot t (page_index va (Suc l)))"
    by (rule page_walk_cong [OF ok va t]) (rule same, auto)
  show ?thesis
  proof (cases "page_walk m va (Suc l) (slot t (page_index va (Suc l)))")
    case (Some c)
    from page_walk_leaf [OF ok va t Some] obtain t1 where t1: "lay t1 = Some (1, va div 2 ^ 21)" "c = slot t1 (page_index va 1)"
      by blast
    then have "read_u64 m' c = read_u64 m c" using same [OF t1(1) page_index_less [of va 1]] by (simp add: entry_at_def)
    with Some w show ?thesis by (simp add: view_from_def)
  qed (use w in \<open>simp add: view_from_def\<close>)
qed

text \<open>A walk followed by the write of the entry it found.\<close>

lemma walk_then_write:
  assumes inv: "pt_inv used lay pt w" and g: "grown used lay w lay1 w1" and ok1: "tables_ok used lay1 ts1 w1"
    and va: "va < 2 ^ 47" and walk: "page_walk (w_mem w1) va 4 (slot (root_paddr pt) (page_index va 4)) = Some c"
  shows "read_u64 (w_mem w1) c = e0 \<Longrightarrow>
      pt_view (w_mem w) pt va = (if pte_is_used e0 \<and> pte_is_present e0 then Some e0 else None)"
    and "pt_effect used lay pt w lay1 (pt\<lparr>pt_tables := ts1\<rparr>) w1 (pt_view (w_mem w) pt)"
    and "pt_effect used lay pt w lay1 (pt\<lparr>pt_tables := ts1\<rparr>) (w1\<lparr>w_mem := write_u64 c e (w_mem w1)\<rparr>)
      (\<lambda>v. if v div PAGE_SIZE = va div PAGE_SIZE then if pte_is_used e \<and> pte_is_present e then Some e else None
           else pt_view (w_mem w) pt v)"
proof -
  let ?r = "root_paddr pt" and ?pt = "pt\<lparr>pt_tables := ts1\<rparr>" and ?m = "write_u64 c e (w_mem w1)"
  have width: "address_width pt = 4" and r0: "lay ?r = Some (4, 0)" using inv by (simp_all add: pt_inv_def)
  have ok: "layout_ok lay1 (w_mem w1)" using ok1 by (simp add: tables_ok_def)
  have r1: "lay1 ?r = Some (4, 0)" by (rule grownD(8) [OF g r0])
  have root1: "lay1 ?r = Some (Suc 3, v div 2 ^ (12 + 9 * Suc 3))" if "v < 2 ^ 47" for v
    using r1 root_prefix [OF that] by simp
  have old: "view_from (w_mem w1) v 4 ?r = view_from (w_mem w) v 4 ?r" if "v < 2 ^ 47" for v
    using grownD(5) [OF g pt_inv_root [OF inv that] that] by simp
  show "pt_view (w_mem w) pt va = (if pte_is_used e0 \<and> pte_is_present e0 then Some e0 else None)"
    if "read_u64 (w_mem w1) c = e0"
  proof -
    have "view_from (w_mem w1) va 4 ?r = (if pte_is_used e0 \<and> pte_is_present e0 then Some e0 else None)"
      using that walk by (auto simp: view_from_def)
    then show ?thesis using old [OF va] by (simp add: pt_view_from [OF width])
  qed
  have dom: "dom lay \<subseteq> dom lay1" by (rule map_le_implies_dom_le [OF grownD(1) [OF g]])
  show "pt_effect used lay pt w lay1 ?pt w1 (pt_view (w_mem w) pt)"
    using ok1 width r1 old grownD [OF g] r0 dom by (simp add: pt_effect_def pt_inv_def pt_view_from)
  from page_walk_leaf [OF ok va root1 [OF va]] walk obtain t1 where
    t1: "lay1 t1 = Some (1, va div 2 ^ 21)" "c = slot t1 (page_index va 1)" by auto
  have new: "view_from ?m v 4 ?r = (if v div PAGE_SIZE = va div PAGE_SIZE
      then if pte_is_used e \<and> pte_is_present e then Some e else None else view_from (w_mem w) v 4 ?r)" if "v < 2 ^ 47" for v
    using leaf_write_view [OF ok va that root1 [OF va] root1 [OF that], of c e] walk old [OF that] by simp
  have lay: "layout_ok lay1 ?m" using leaf_write_layout(1) [OF ok t1(1) page_index_less] by (simp add: t1(2))
  have out: "?m a = w_mem w a" if "a \<notin> table_span lay1" for a
    using write_slot_out [OF domI [of lay1, OF t1(1)] page_index_less that] grownD(4) [OF g that] by (simp add: t1(2))
  have kern: "entry_at ?m ?r i = entry_at (w_mem w) ?r i" if "256 \<le> i" "i < 512" for i
    using leaf_write_layout(2) [OF ok t1(1) page_index_less, where t = ?r and L = 2 and P = 0 and i = i] r1 that grownD(6) [OF g r0 that]
    by (simp add: t1(2))
  show "pt_effect used lay pt w lay1 ?pt (w1\<lparr>w_mem := ?m\<rparr>)
      (\<lambda>v. if v div PAGE_SIZE = va div PAGE_SIZE then if pte_is_used e \<and> pte_is_present e then Some e else None
           else pt_view (w_mem w) pt v)"
    using ok1 width r1 new lay out kern grownD(2,3) [OF g] dom
    by (simp add: pt_effect_def pt_inv_def pt_view_from tables_ok_def)
qed

section \<open>The operations\<close>

lemma user_not_kernel: "va < 2 ^ 47 \<Longrightarrow> \<not> is_kernel_vaddr va"
  by (simp add: is_kernel_vaddr_def)

lemma pt_map_spec:
  assumes fa: "frame_alloc_ok fa used" and inv: "pt_inv used lay pt w" and va: "va < 2 ^ 47" "canon va"
    and avail: "can_alloc fa (3 + n) (w_alloc w)" and fl: "fl AND NOT pt_flags_all = 0" "flags_contains fl PRESENT"
  shows "\<exists>lay' pt' w'. pt_map fa canon va f fl pt w =
      (if pt_view (w_mem w) pt va = None then Ok () else Inl (Throws InvalidModification), pt', w')
    \<and> can_alloc fa n (w_alloc w') \<and> pt_effect used lay pt w lay' pt' w'
        (if pt_view (w_mem w) pt va = None
         then \<lambda>v. if v div PAGE_SIZE = va div PAGE_SIZE then Some (pte_new (start_paddr f) fl) else pt_view (w_mem w) pt v
         else pt_view (w_mem w) pt)"
proof -
  let ?c = "slot (root_paddr pt) (page_index va 4)" and ?e = "pte_new (start_paddr f) fl"
  have ok: "tables_ok used lay (pt_tables pt) w" and width: "address_width pt = 4" using inv by (simp_all add: pt_inv_def)
  from page_walk_mut_create [OF fa va(1) ok pt_inv_root [OF inv va(1)] avail] obtain c ts1 w1 lay1 where
    1: "page_walk_mut fa True va 4 ?c (pt_tables pt) w = (Ok (Some c), ts1, w1)" "tables_ok used lay1 ts1 w1"
      "grown used lay w lay1 w1" "page_walk (w_mem w1) va 4 ?c = Some c" "can_alloc fa n (w_alloc w1)" by auto
  let ?pt = "pt\<lparr>pt_tables := ts1\<rparr>"
  have walk: "do_page_walk_mut fa True va pt w = (Ok (Some c), ?pt, w1)"
    using 1(1) by (simp add: do_page_walk_mut_def width calculate_pte_slot)
  note wtw = walk_then_write [OF inv 1(3,2) va(1) 1(4)]
  have new: "pte_is_present ?e" "pte_is_used ?e" using pte_present_new [OF fl] pte_present_used by blast+
  show ?thesis
  proof (cases "pt_view (w_mem w) pt va = None")
    case True
    then have "\<not> (pte_is_used (read_u64 (w_mem w1) c) \<and> pte_is_present (read_u64 (w_mem w1) c))"
      using wtw(1) [OF refl] by (simp split: if_splits)
    then have "pt_map fa canon va f fl pt w = (Ok (), ?pt, w1\<lparr>w_mem := write_u64 c ?e (w_mem w1)\<rparr>)"
      using walk va(2) user_not_kernel [OF va(1)] by (auto simp: pt_map_def do_map_def tlb_flush_def Let_def)
    with wtw(3) [of ?e] new True 1(5) show ?thesis
      by (intro exI [of _ lay1] exI conjI) (simp_all cong: if_cong)
  next
    case False
    then have "pte_is_used (read_u64 (w_mem w1) c) \<and> pte_is_present (read_u64 (w_mem w1) c)"
      using wtw(1) [OF refl] by (simp split: if_splits)
    then have "pt_map fa canon va f fl pt w = (Inl (Throws InvalidModification), ?pt, w1)"
      using walk user_not_kernel [OF va(1)] by (simp add: pt_map_def do_map_def Let_def)
    with wtw(2) False 1(5) show ?thesis by (intro exI [of _ lay1] exI conjI) auto
  qed
qed

lemma walk_read:
  assumes inv: "pt_inv used lay pt w"
  shows "do_page_walk_mut fa False va pt w = (Ok (page_walk (w_mem w) va 4 (slot (root_paddr pt) (page_index va 4))), pt, w)"
  using inv by (simp add: do_page_walk_mut_def page_walk_mut_read calculate_pte_slot pt_inv_def)

lemma pt_view_cases:
  assumes inv: "pt_inv used lay pt w"
  shows "pt_view (w_mem w) pt va =
    (case page_walk (w_mem w) va 4 (slot (root_paddr pt) (page_index va 4)) of None \<Rightarrow> None
     | Some c \<Rightarrow> if pte_is_used (read_u64 (w_mem w) c) \<and> pte_is_present (read_u64 (w_mem w) c) then Some (read_u64 (w_mem w) c) else None)"
  using inv by (simp add: pt_view_def do_page_walk_def calculate_pte_slot pt_inv_def)

lemma pt_unmap_spec:
  assumes inv: "pt_inv used lay pt w" and va: "va < 2 ^ 47" "canon va"
  shows "if pt_view (w_mem w) pt va = None then pt_unmap fa canon va pt w = (Inl (Throws InvalidModification), pt, w)
    else \<exists>w'. pt_unmap fa canon va pt w = (Ok (), pt, w') \<and> w_alloc w' = w_alloc w
      \<and> pt_effect used lay pt w lay pt w' (\<lambda>v. if v div PAGE_SIZE = va div PAGE_SIZE then None else pt_view (w_mem w) pt v)"
proof (cases "pt_view (w_mem w) pt va")
  case None
  then show ?thesis using user_not_kernel [OF va(1)]
    by (auto simp: pt_unmap_def do_unmap_def walk_read [OF inv] pt_view_cases [OF inv] Let_def split: option.splits if_splits)
next
  case (Some e)
  then obtain c where c: "page_walk (w_mem w) va 4 (slot (root_paddr pt) (page_index va 4)) = Some c"
    "pte_is_used (read_u64 (w_mem w) c)" "pte_is_present (read_u64 (w_mem w) c)"
    by (auto simp: pt_view_cases [OF inv] split: option.splits if_splits)
  let ?w = "w\<lparr>w_mem := write_u64 c 0 (w_mem w)\<rparr>"
  have "tables_ok used lay (pt_tables pt) w" using inv by (simp add: pt_inv_def)
  from walk_then_write(3) [OF inv grown_refl this va(1) c(1), of 0]
  have "pt_effect used lay pt w lay pt ?w (\<lambda>v. if v div PAGE_SIZE = va div PAGE_SIZE then None else pt_view (w_mem w) pt v)"
    by (simp cong: if_cong)
  moreover have "pt_unmap fa canon va pt w = (Ok (), pt, ?w)"
    using c va(2) user_not_kernel [OF va(1)] by (simp add: pt_unmap_def do_unmap_def walk_read [OF inv] tlb_flush_def Let_def)
  ultimately show ?thesis using Some by auto
qed

lemma pt_protect_spec:
  assumes inv: "pt_inv used lay pt w" and va: "va < 2 ^ 47" "canon va"
    and fl: "fl AND NOT pt_flags_all = 0" "flags_contains fl PRESENT"
  shows "case pt_view (w_mem w) pt va of
      None \<Rightarrow> pt_protect fa canon va fl pt w = (Inl (Throws InvalidModification), pt, w)
    | Some e \<Rightarrow> \<exists>w'. pt_protect fa canon va fl pt w = (Ok (pte_flags e), pt, w') \<and> w_alloc w' = w_alloc w
        \<and> pt_effect used lay pt w lay pt w'
            (\<lambda>v. if v div PAGE_SIZE = va div PAGE_SIZE then Some (pte_new (pte_paddr e) fl) else pt_view (w_mem w) pt v)"
proof (cases "pt_view (w_mem w) pt va")
  case None
  then show ?thesis using user_not_kernel [OF va(1)]
    by (auto simp: pt_protect_def do_protect_def walk_read [OF inv] pt_view_cases [OF inv] Let_def pte_is_present_def
        split: option.splits if_splits)
next
  case (Some e)
  then obtain c where c: "page_walk (w_mem w) va 4 (slot (root_paddr pt) (page_index va 4)) = Some c"
    "pte_is_used e" "pte_is_present e" "read_u64 (w_mem w) c = e"
    by (auto simp: pt_view_cases [OF inv] split: option.splits if_splits)
  let ?e = "pte_new (pte_paddr e) fl"
  let ?w = "w\<lparr>w_mem := write_u64 c ?e (w_mem w)\<rparr>"
  have new: "pte_is_present ?e" "pte_is_used ?e" using pte_present_new [OF fl] pte_present_used by blast+
  have "tables_ok used lay (pt_tables pt) w" using inv by (simp add: pt_inv_def)
  from walk_then_write(3) [OF inv grown_refl this va(1) c(1), of ?e] new
  have "pt_effect used lay pt w lay pt ?w
      (\<lambda>v. if v div PAGE_SIZE = va div PAGE_SIZE then Some ?e else pt_view (w_mem w) pt v)" by (simp cong: if_cong)
  moreover have "pt_protect fa canon va fl pt w = (Ok (pte_flags e), pt, ?w)"
    using c va(2) user_not_kernel [OF va(1)]
    by (simp add: pt_protect_def do_protect_def walk_read [OF inv] tlb_flush_def Let_def pte_is_present_def)
  ultimately show ?thesis using Some by auto
qed

lemma pt_is_mapped_view: "pt_is_mapped m va pt \<longleftrightarrow> pt_view m pt va \<noteq> None"
  by (auto simp: pt_is_mapped_def pt_view_def split: option.splits)

lemma pt_new_spec:
  assumes fa: "frame_alloc_ok fa used" and avail: "can_alloc fa (Suc n) (w_alloc w)"
  shows "\<exists>pt w' lay. pt_new fa 4 w = (Ok pt, w') \<and> pt_inv used lay pt w' \<and> (\<forall>v. pt_view (w_mem w') pt v = None)
    \<and> can_alloc fa n (w_alloc w') \<and> dom lay = {root_paddr pt} \<and> root_paddr pt div PAGE_SIZE \<notin> used (w_alloc w)
    \<and> used (w_alloc w) \<subseteq> used (w_alloc w') \<and> (\<forall>a. a \<notin> table_span lay \<longrightarrow> w_mem w' a = w_mem w a)"
proof -
  from avail have a1: "fst (fa 1 (w_alloc w)) \<noteq> None" by simp
  let ?s = "snd (fa 1 (w_alloc w))"
  obtain f i where f: "alloc_single fa (alloc_options_new 1) w
      = (Ok f, \<lparr>w_mem = (\<lambda>a. if frame_ptr f \<le> a \<and> a < frame_ptr f + PAGE_SIZE then 0 else w_mem w a), w_alloc = ?s\<rparr>)"
    "start_paddr f = i * PAGE_SIZE" "i < 2 ^ 35" "i \<notin> used (w_alloc w)" "used ?s = insert i (used (w_alloc w))"
    by (rule alloc_single_new [OF fa a1])
  let ?m = "\<lambda>a. if frame_ptr f \<le> a \<and> a < frame_ptr f + PAGE_SIZE then 0 else w_mem w a"
  let ?pt = "\<lparr>root_paddr = start_paddr f, pt_tables = [f], address_width = 4\<rparr>" and ?lay = "[start_paddr f \<mapsto> (4, 0)]"
  have zero: "entry_at ?m (start_paddr f) j = 0" if "j < 512" for j
    unfolding entry_at_def using slot_in_span [OF that, of "start_paddr f"]
    by (intro read_u64_zero) (auto simp: frame_ptr_def)
  have "layout_ok ?lay ?m" using zero f(2,3) by (auto simp: layout_ok_def split: if_splits)
  then have "pt_inv used ?lay ?pt \<lparr>w_mem = ?m, w_alloc = ?s\<rparr>" using f by (simp add: pt_inv_def tables_ok_def)
  moreover have "pt_view ?m ?pt v = None" for v
    using view_from_empty [OF zero, of v 3] by (simp add: pt_view_from)
  moreover have "?m a = w_mem w a" if "a \<notin> table_span ?lay" for a
    using that by (auto simp: table_span_def frame_ptr_def)
  ultimately show ?thesis using f avail
    by (intro exI [of _ ?pt] exI [of _ "\<lparr>w_mem = ?m, w_alloc = ?s\<rparr>"] exI [of _ ?lay]) (auto simp: pt_new_def)
qed

lemma pt_inv_cong:
  assumes inv: "pt_inv used lay pt w" and used: "used (w_alloc w) \<subseteq> used (w_alloc w')"
    and same: "\<And>t L P i. lay t = Some (L, P) \<Longrightarrow> i < 512 \<Longrightarrow> L = 4 \<longrightarrow> i < 256
      \<Longrightarrow> entry_at (w_mem w') t i = entry_at (w_mem w) t i"
  shows "pt_inv used lay pt w'" "v < 2 ^ 47 \<Longrightarrow> pt_view (w_mem w') pt v = pt_view (w_mem w) pt v"
proof -
  have ok: "layout_ok lay (w_mem w)" and width: "address_width pt = 4" using inv by (simp_all add: pt_inv_def tables_ok_def)
  have "layout_ok lay (w_mem w')" by (rule layout_ok_cong [OF ok]) (rule same, auto)
  then show "pt_inv used lay pt w'" using inv used by (auto simp: pt_inv_def tables_ok_def)
  assume v: "v < 2 ^ 47"
  have "view_from (w_mem w') v (Suc 3) (root_paddr pt) = view_from (w_mem w) v (Suc 3) (root_paddr pt)"
    by (rule view_from_cong [OF ok v pt_inv_root [OF inv v]]) (rule same)
  then show "pt_view (w_mem w') pt v = pt_view (w_mem w) pt v" by (simp add: pt_view_from [OF width])
qed

text \<open>Memory outside the tables does not matter, nor do the kernel's entries of the root.\<close>

lemma pt_inv_outside:
  assumes inv: "pt_inv used lay pt w" and used: "used (w_alloc w) \<subseteq> used (w_alloc w')"
    and same: "\<And>a. a \<in> table_span lay \<Longrightarrow> w_mem w' a = w_mem w a"
  shows "pt_inv used lay pt w'" "v < 2 ^ 47 \<Longrightarrow> pt_view (w_mem w') pt v = pt_view (w_mem w) pt v"
proof -
  have e: "entry_at (w_mem w') t i = entry_at (w_mem w) t i" if "lay t = Some (L, P)" "i < 512" for t L P i
    unfolding entry_at_def
  proof (rule read_u64_cong)
    fix x
    assume "slot t i \<le> x" "x < slot t i + 8"
    with slot_in_span [OF that(2), of t] have "paddr_to_vaddr t \<le> x" "x < paddr_to_vaddr t + PAGE_SIZE" by linarith+
    with that(1) show "w_mem w' x = w_mem w x" by (intro same table_spanI) auto
  qed
  show "pt_inv used lay pt w'" by (rule pt_inv_cong(1) [OF inv used e])
  show "v < 2 ^ 47 \<Longrightarrow> pt_view (w_mem w') pt v = pt_view (w_mem w) pt v" by (rule pt_inv_cong(2) [OF inv used e])
qed

lemma add_root_mapping_spec:
  assumes inv: "pt_inv used lay pt w" and i: "256 \<le> i" "i < 512" and r: "root_paddr pt \<noteq> 0"
  shows "\<exists>w'. add_root_mapping i pte pt w = Ok w' \<and> w_alloc w' = w_alloc w \<and> pt_inv used lay pt w'
    \<and> (\<forall>v. v < 2 ^ 47 \<longrightarrow> pt_view (w_mem w') pt v = pt_view (w_mem w) pt v)
    \<and> entry_at (w_mem w') (root_paddr pt) i = pte \<and> (\<forall>a. a \<notin> table_span lay \<longrightarrow> w_mem w' a = w_mem w a)"
proof -
  let ?r = "root_paddr pt"
  have lay: "lay ?r = Some (4, 0)" and ok: "layout_ok lay (w_mem w)" using inv by (simp_all add: pt_inv_def tables_ok_def)
  define w' where "w' = w\<lparr>w_mem := write_u64 (slot ?r i) pte (w_mem w)\<rparr>"
  have "entry_at (w_mem w') t j = entry_at (w_mem w) t j" if "lay t = Some (L, P)" "j < 512" "L = 4 \<longrightarrow> j < 256" for t L P j
    using that i lay layoutD(1) [OF ok lay] layoutD(1) [OF ok that(1)] by (auto simp: w'_def entry_at_write)
  note c = pt_inv_cong [OF inv, of w', OF _ this]
  have "add_root_mapping i pte pt w = Ok w'"
    using i r by (simp add: add_root_mapping_def table_of_def w'_def slot_def paddr_to_vaddr_def ac_simps)
  moreover have "w_mem w' a = w_mem w a" if "a \<notin> table_span lay" for a
    using write_slot_out [OF domI [of lay, OF lay] i(2) that] by (simp add: w'_def)
  ultimately show ?thesis using c by (intro exI [of _ w']) (simp add: w'_def entry_at_def)
qed

text \<open>A frame allocator that hands out the frames of a memory of 1000 frames in order, for examples.\<close>

definition bump :: "nat frame_alloc" where
  "bump n s = (if s + n \<le> 1000 then (Some s, s + n) else (None, s))"

lemma bump_ok: "frame_alloc_ok bump (\<lambda>s. {..<s})"
  by (auto simp: frame_alloc_ok_def bump_def)

section \<open>Properties\<close>

text \<open>(C3) A user page table implements a finite map from pages to entries. On a table that satisfies the invariant,
  with three frames left for new tables, and for an address of the user's half:
  \<^item> \<open>map\<close> of a page that is not mapped succeeds and maps exactly that page; of a mapped page it fails with
    \<open>InvalidModification\<close> and no address sees a change;
  \<^item> \<open>unmap\<close> of a mapped page succeeds and unmaps exactly that page, otherwise it fails with \<open>InvalidModification\<close>;
  \<^item> \<open>protect\<close> of a mapped page returns the old flags and changes exactly that page's flags, otherwise it fails with
    \<open>InvalidModification\<close>;
  \<^item> \<open>is_mapped\<close> and \<open>flags\<close> read the map.

  Every operation keeps the invariant, the kernel's half of the root table and all memory outside the tables; new
  tables are frames that were not in use. Kernel addresses are refused with \<open>InvalidVaddr\<close>.\<close>

theorem page_table_refines_map:
  assumes "frame_alloc_ok fa used" and "pt_inv used lay pt w" and "va < 2 ^ 47" and "canon va"
    and "can_alloc fa 3 (w_alloc w)" and "fl AND NOT pt_flags_all = 0" and "flags_contains fl PRESENT"
    and "is_kernel_vaddr kva"
  shows "(\<exists>lay' pt' w'. pt_map fa canon va f fl pt w =
        (if pt_view (w_mem w) pt va = None then Ok () else Inl (Throws InvalidModification), pt', w')
      \<and> pt_effect used lay pt w lay' pt' w'
          (if pt_view (w_mem w) pt va = None
           then \<lambda>v. if v div PAGE_SIZE = va div PAGE_SIZE then Some (pte_new (start_paddr f) fl) else pt_view (w_mem w) pt v
           else pt_view (w_mem w) pt))
    \<and> (if pt_view (w_mem w) pt va = None then pt_unmap fa canon va pt w = (Inl (Throws InvalidModification), pt, w)
       else \<exists>w'. pt_unmap fa canon va pt w = (Ok (), pt, w')
         \<and> pt_effect used lay pt w lay pt w' (\<lambda>v. if v div PAGE_SIZE = va div PAGE_SIZE then None else pt_view (w_mem w) pt v))
    \<and> (case pt_view (w_mem w) pt va of
         None \<Rightarrow> pt_protect fa canon va fl pt w = (Inl (Throws InvalidModification), pt, w)
       | Some e \<Rightarrow> \<exists>w'. pt_protect fa canon va fl pt w = (Ok (pte_flags e), pt, w')
           \<and> pt_effect used lay pt w lay pt w'
               (\<lambda>v. if v div PAGE_SIZE = va div PAGE_SIZE then Some (pte_new (pte_paddr e) fl) else pt_view (w_mem w) pt v))
    \<and> (pt_is_mapped (w_mem w) va pt \<longleftrightarrow> pt_view (w_mem w) pt va \<noteq> None)
    \<and> (case pt_view (w_mem w) pt va of None \<Rightarrow> True | Some e \<Rightarrow> pt_flags_of (w_mem w) va pt = Some (pte_flags e))
    \<and> pt_map fa canon kva f fl pt w = (Inl (Throws InvalidVaddr), pt, w)
    \<and> pt_unmap fa canon kva pt w = (Inl (Throws InvalidVaddr), pt, w)
    \<and> pt_protect fa canon kva fl pt w = (Inl (Throws InvalidVaddr), pt, w)"
proof (intro conjI)
  show "case pt_view (w_mem w) pt va of None \<Rightarrow> True | Some e \<Rightarrow> pt_flags_of (w_mem w) va pt = Some (pte_flags e)"
    by (auto simp: pt_view_def pt_flags_of_def split: option.splits)
  show "if pt_view (w_mem w) pt va = None then pt_unmap fa canon va pt w = (Inl (Throws InvalidModification), pt, w)
       else \<exists>w'. pt_unmap fa canon va pt w = (Ok (), pt, w')
         \<and> pt_effect used lay pt w lay pt w' (\<lambda>v. if v div PAGE_SIZE = va div PAGE_SIZE then None else pt_view (w_mem w) pt v)"
    using pt_unmap_spec [where canon = canon, OF assms(2-4), of fa] by (auto split: if_splits)
  show "case pt_view (w_mem w) pt va of
         None \<Rightarrow> pt_protect fa canon va fl pt w = (Inl (Throws InvalidModification), pt, w)
       | Some e \<Rightarrow> \<exists>w'. pt_protect fa canon va fl pt w = (Ok (pte_flags e), pt, w')
           \<and> pt_effect used lay pt w lay pt w'
               (\<lambda>v. if v div PAGE_SIZE = va div PAGE_SIZE then Some (pte_new (pte_paddr e) fl) else pt_view (w_mem w) pt v)"
    using pt_protect_spec [where canon = canon, OF assms(2-4,6,7), of fa] by (auto split: option.splits)
  show "pt_is_mapped (w_mem w) va pt \<longleftrightarrow> pt_view (w_mem w) pt va \<noteq> None" by (rule pt_is_mapped_view)
  show "\<exists>lay' pt' w'. pt_map fa canon va f fl pt w =
        (if pt_view (w_mem w) pt va = None then Ok () else Inl (Throws InvalidModification), pt', w')
      \<and> pt_effect used lay pt w lay' pt' w'
          (if pt_view (w_mem w) pt va = None
           then \<lambda>v. if v div PAGE_SIZE = va div PAGE_SIZE then Some (pte_new (start_paddr f) fl) else pt_view (w_mem w) pt v
           else pt_view (w_mem w) pt)"
    using pt_map_spec [where canon = canon and n = 0, OF assms(1-4) _ assms(6,7), of f] assms(5) by auto
qed (use assms(8) in \<open>simp_all add: pt_map_def pt_unmap_def pt_protect_def\<close>)

theorem page_table_refines_map_witness:
  "\<exists>pt w lay pt1 w1. pt_new bump 4 \<lparr>w_mem = (\<lambda>_. 0), w_alloc = 5\<rparr> = (Ok pt, w) \<and> pt_inv (\<lambda>s. {..<s}) lay pt w
    \<and> pt_map bump (\<lambda>_. True) 0x400000 7 (PRESENT OR USER) pt w = (Ok (), pt1, w1)
    \<and> pt_view (w_mem w1) pt1 0x400123 = Some (pte_new 28672 (PRESENT OR USER)) \<and> pt_view (w_mem w1) pt1 0x401000 = None"
proof -
  have avail: "can_alloc bump (Suc 3) (w_alloc \<lparr>w_mem = (\<lambda>_. 0), w_alloc = 5\<rparr>)"
    by (simp add: bump_def eval_nat_numeral)
  from pt_new_spec [OF bump_ok avail] obtain pt w lay where new: "pt_new bump 4 \<lparr>w_mem = (\<lambda>_. 0), w_alloc = 5\<rparr> = (Ok pt, w)"
    "pt_inv (\<lambda>s. {..<s}) lay pt w" "\<forall>v. pt_view (w_mem w) pt v = None" "can_alloc bump 3 (w_alloc w)" by blast
  have fl: "(PRESENT OR USER) AND NOT pt_flags_all = 0" "flags_contains (PRESENT OR USER) PRESENT"
    by (simp_all add: flag_defs)
  have "is_kernel_vaddr (2 ^ 47)" by (simp add: is_kernel_vaddr_def)
  from page_table_refines_map [where canon = "\<lambda>_. True", OF bump_ok new(2) _ _ new(4) fl this, of "0x400000" 7] new(3)
  obtain lay1 pt1 w1 where 1: "pt_map bump (\<lambda>_. True) 0x400000 7 (PRESENT OR USER) pt w = (Ok (), pt1, w1)"
    "pt_effect (\<lambda>s. {..<s}) lay pt w lay1 pt1 w1
       (\<lambda>v. if v div PAGE_SIZE = 0x400000 div PAGE_SIZE then Some (pte_new 28672 (PRESENT OR USER)) else None)"
    by (auto cong: if_cong)
  then have "pt_view (w_mem w1) pt1 0x400123 = Some (pte_new 28672 (PRESENT OR USER))" "pt_view (w_mem w1) pt1 0x401000 = None"
    by (simp_all add: pt_effect_def)
  with new(1,2) 1(1) show ?thesis by blast
qed

text \<open>The check for kernel addresses looks at bit 47 only. An address with bit 48 set passes it and walks to the
  same entries as the user address without that bit: its page is mapped, and only then the flush refuses the address.\<close>

lemma page_index_alias: "1 \<le> l \<Longrightarrow> l \<le> 4 \<Longrightarrow> page_index (va + 2 ^ 48) l = page_index va l"
proof -
  assume l: "1 \<le> l" "l \<le> 4"
  define k where "k = 12 + 9 * (l - 1)"
  have "(2 :: nat) ^ 48 = 2 ^ k * (2 ^ (39 - k) * 512)"
    using l by (simp add: k_def flip: power_add)
  then have "(va + 2 ^ 48) div 2 ^ k = (va + 2 ^ k * (2 ^ (39 - k) * 512)) div 2 ^ k" by (simp only:)
  also have "\<dots> = 2 ^ (39 - k) * 512 + va div 2 ^ k" by (rule div_mult_self2) simp
  finally have "(va + 2 ^ 48) div 2 ^ k = va div 2 ^ k + 2 ^ (39 - k) * 512" by (simp only: add.commute)
  then show ?thesis by (simp add: page_index_def k_def)
qed

lemma page_walk_mut_alias:
  assumes "l \<le> 4"
  shows "page_walk_mut fa create (va + 2 ^ 48) l c ts w = page_walk_mut fa create va l c ts w"
  using assms
proof (induction fa create va l c ts w rule: page_walk_mut.induct)
  case (1 fa create va l c ts w)
  have "page_index (va + 2 ^ 48) (Suc l) = page_index va (Suc l)" using "1.prems" by (intro page_index_alias) auto
  with 1 show ?case
    by (auto simp: page_walk_mut.simps(1) Let_def calculate_pte_vaddr_def simp del: power_numeral
        split: prod.splits sum.splits bool.splits)
qed simp_all

theorem noncanonical_alias:
  assumes "frame_alloc_ok fa used" and "pt_inv used lay pt w" and "va < 2 ^ 47" and "\<not> canon (va + 2 ^ 48)"
    and "can_alloc fa 3 (w_alloc w)" and "fl AND NOT pt_flags_all = 0" and "flags_contains fl PRESENT"
    and "pt_view (w_mem w) pt va = None"
  shows "\<exists>pt' w'. pt_map fa canon (va + 2 ^ 48) f fl pt w = (Inl Panics, pt', w')
    \<and> pt_view (w_mem w') pt' va = Some (pte_new (start_paddr f) fl)"
proof -
  from pt_map_spec [where canon = "\<lambda>_. True" and n = 0, OF assms(1-3) TrueI _ assms(6,7), of f] assms(5,8) obtain lay' pt' w' where
    1: "pt_map fa (\<lambda>_. True) va f fl pt w = (Ok (), pt', w')"
      "pt_effect used lay pt w lay' pt' w'
        (\<lambda>v. if v div PAGE_SIZE = va div PAGE_SIZE then Some (pte_new (start_paddr f) fl) else pt_view (w_mem w) pt v)"
    by auto
  have "(va + 2 ^ 48) div 2 ^ 47 = 2" using assms(3) by (intro div_nat_eqI) simp_all
  then have k: "\<not> is_kernel_vaddr (va + 2 ^ 48)" by (simp add: is_kernel_vaddr_def)
  have width: "address_width pt = 4" using assms(2) by (simp add: pt_inv_def)
  have "page_index (va + 2 ^ 48) 4 = page_index va 4" by (rule page_index_alias) simp_all
  then have "do_page_walk_mut fa True (va + 2 ^ 48) pt w = do_page_walk_mut fa True va pt w"
    by (simp add: do_page_walk_mut_def width page_walk_mut_alias calculate_pte_vaddr_def del: power_numeral)
  then have "do_map fa canon (va + 2 ^ 48) (start_paddr f) fl pt w = (Inl Panics, pt', w')"
    using 1(1) user_not_kernel [OF assms(3)] assms(4)
    by (auto simp: pt_map_def do_map_def tlb_flush_def Let_def split: prod.splits sum.splits option.splits if_splits)
  with k 1(2) assms(3) show ?thesis by (simp add: pt_map_def pt_effect_def)
qed

end
