(* ===== verification/Btree_Map.thy ===== *)
theory Btree_Map
  imports Prelude
begin

text \<open>
  \<open>BTreeMap\<close> of the standard library: the list of its entries in ascending order of the keys, which is the order of
  its iterators. \<open>bt_ok\<close> is the order; lookups are \<open>map_of\<close>.
\<close>

type_synonym ('k, 'v) btree = "('k \<times> 'v) list"

definition bt_ok :: "('k :: linorder, 'v) btree \<Rightarrow> bool" where "bt_ok t \<longleftrightarrow> sorted_wrt (<) (map fst t)"

fun bt_insert :: "'k :: linorder \<Rightarrow> 'v \<Rightarrow> ('k, 'v) btree \<Rightarrow> ('k, 'v) btree" where
  "bt_insert k v [] = [(k, v)]"
| "bt_insert k v ((a, b) # t) =
    (if k < a then (k, v) # (a, b) # t else if k = a then (k, v) # t else (a, b) # bt_insert k v t)"

definition bt_remove :: "'k :: linorder \<Rightarrow> ('k, 'v) btree \<Rightarrow> ('k, 'v) btree" where
  "bt_remove k t = filter (\<lambda>e. fst e \<noteq> k) t"

lemma bt_ok_simps [simp]:
  "bt_ok []" "bt_ok ((k, v) # t) \<longleftrightarrow> (\<forall>a \<in> fst ` set t. k < a) \<and> bt_ok t"
  by (auto simp: bt_ok_def)

lemma bt_ok_distinct: "bt_ok t \<Longrightarrow> distinct (map fst t)"
  by (simp add: bt_ok_def strict_sorted_iff)

lemma map_of_bt_insert [simp]: "bt_ok t \<Longrightarrow> map_of (bt_insert k v t) = (map_of t)(k \<mapsto> v)"
  by (induction k v t rule: bt_insert.induct) (auto simp: fun_eq_iff)

lemma keys_bt_insert: "fst ` set (bt_insert k v t) = insert k (fst ` set t)"
  by (induction k v t rule: bt_insert.induct) auto

lemma bt_ok_insert [simp]: "bt_ok t \<Longrightarrow> bt_ok (bt_insert k v t)"
  by (induction k v t rule: bt_insert.induct) (auto simp: keys_bt_insert)

lemma map_of_bt_remove [simp]: "map_of (bt_remove k t) = (map_of t)(k := None)"
  by (induction t) (auto simp: bt_remove_def fun_eq_iff)

lemma bt_ok_remove [simp]: "bt_ok t \<Longrightarrow> bt_ok (bt_remove k t)"
  by (induction t) (auto simp: bt_remove_def)

lemma set_bt_map_of: "bt_ok t \<Longrightarrow> (k, v) \<in> set t \<longleftrightarrow> map_of t k = Some v"
  by (simp add: bt_ok_distinct)

lemma set_bt_insert: "bt_ok t \<Longrightarrow> set (bt_insert k v t) = insert (k, v) {e \<in> set t. fst e \<noteq> k}"
  by (induction k v t rule: bt_insert.induct) auto

lemma set_bt_remove: "set (bt_remove k t) = {e \<in> set t. fst e \<noteq> k}"
  by (auto simp: bt_remove_def)

end
