(* ===== verification/Vm_Space.thy ===== *)
theory Vm_Space
  imports Page_Table Btree_Map
begin

text \<open>
  \<open>framework/aster-frame/src/vm/memory_set.rs\<close> and \<open>space.rs\<close>: the address space of a user process. A \<open>MemorySet\<close>
  is a page table and a map of areas; \<open>VmSpace\<close> keeps it behind a mutex and makes one area of one page for each
  frame it maps. \<open>vms\<close> is the memory set together with the kernel's memory and the frame allocator. Parameters are
  the allocator \<open>fa\<close>, the addresses \<open>canon\<close> the TLB flush accepts, and the kernel's entries \<open>kptes\<close> of the boot page
  table. Reference counts of frames are not modelled, so dropping an area does not return its frames.
\<close>

section \<open>Areas\<close>

record map_area =
  ma_flags :: u64
  ma_start_va :: nat
  ma_size :: nat
  ma_mapper :: "(nat, vm_frame) btree"

definition map_with_physical_address :: "nat \<Rightarrow> vm_frame \<Rightarrow> map_area \<Rightarrow> map_area fres" where
  "map_with_physical_address va pa area =
    (if \<not> is_page_aligned va then Inl Panics
     else if map_of (ma_mapper area) va \<noteq> None then Inl Panics
     else Ok (area\<lparr>ma_mapper := bt_insert va pa (ma_mapper area)\<rparr>))"

definition map_area_new :: "nat \<Rightarrow> nat \<Rightarrow> u64 \<Rightarrow> vm_frame_vec \<Rightarrow> map_area fres" where
  "map_area_new start_va sz flags frames =
    (if \<not> (is_page_aligned start_va \<and> is_page_aligned sz \<and> length frames = sz div PAGE_SIZE) then Inl Panics
     else fold_res (\<lambda>i area. map_with_physical_address (start_va + i * PAGE_SIZE) (frames ! i) area)
            [0..<sz div PAGE_SIZE]
            \<lparr>ma_flags = flags, ma_start_va = start_va, ma_size = sz, ma_mapper = []\<rparr>)"

definition map_area_map :: "'a frame_alloc \<Rightarrow> nat \<Rightarrow> map_area \<Rightarrow> 'a world \<Rightarrow> (nat \<times> map_area) fres \<times> 'a world" where
  "map_area_map fa va area w =
    (if \<not> is_page_aligned va then (Inl Panics, w)
     else case map_of (ma_mapper area) va of
       Some f \<Rightarrow> (Ok (start_paddr f, area), w)
     | None \<Rightarrow> (case alloc_single fa (alloc_options_new 1) w of
                 (Inl e, w1) \<Rightarrow> (Inl Panics, w1)
               | (Inr f, w1) \<Rightarrow> (Ok (start_paddr f, area\<lparr>ma_mapper := bt_insert va f (ma_mapper area)\<rparr>), w1)))"

definition map_area_unmap :: "nat \<Rightarrow> map_area \<Rightarrow> vm_frame option \<times> map_area" where
  "map_area_unmap va area = (map_of (ma_mapper area) va, area\<lparr>ma_mapper := bt_remove va (ma_mapper area)\<rparr>)"

fun write_data_loop :: "(nat \<times> vm_frame) list \<Rightarrow> nat \<Rightarrow> vm_reader \<Rightarrow> kmem \<Rightarrow> kmem fres" where
  "write_data_loop [] current r m = Ok m"
| "write_data_loop ((va, pa) # rest) current r m =
    (if current \<ge> va \<and> current < va + PAGE_SIZE
     then bind_res (vw_skip (current - va) (frame_writer pa)) (\<lambda>w.
          let (_, _, r', m') = vw_write w r m
          in if \<not> vr_has_remain r' then Ok m' else write_data_loop rest (va + PAGE_SIZE) r' m')
     else write_data_loop rest current r m)"

definition write_data :: "nat \<Rightarrow> slice_ref \<Rightarrow> map_area \<Rightarrow> kmem \<Rightarrow> kmem fres" where
  "write_data addr data area m = write_data_loop (ma_mapper area) addr (reader_of data) m"

fun read_data_loop :: "(nat \<times> vm_frame) list \<Rightarrow> nat \<Rightarrow> vm_writer \<Rightarrow> kmem \<Rightarrow> kmem fres" where
  "read_data_loop [] start w m = Ok m"
| "read_data_loop ((va, pa) # rest) start w m =
    (if start \<ge> va \<and> start < va + PAGE_SIZE
     then bind_res (vr_skip (start - va) (frame_reader pa)) (\<lambda>r.
          let (_, _, w', m') = vr_read r w m
          in if \<not> vw_has_avail w' then Ok m' else read_data_loop rest (va + PAGE_SIZE) w' m')
     else read_data_loop rest start w m)"

definition read_data :: "nat \<Rightarrow> slice_ref \<Rightarrow> map_area \<Rightarrow> kmem \<Rightarrow> kmem fres" where
  "read_data addr data area m = read_data_loop (ma_mapper area) addr (writer_of data) m"

section \<open>Memory sets\<close>

record 'a vms =
  ms_pt :: page_table
  ms_areas :: "(nat, map_area) btree"
  ms_world :: "'a world"

text \<open>An operation of the page table whose result is unwrapped.\<close>

definition pt_unwrap :: "(page_table \<Rightarrow> 'a world \<Rightarrow> 'x ptres \<times> page_table \<times> 'a world) \<Rightarrow> (frame_error pfault, 'a vms, unit) esr" where
  "pt_unwrap f s =
    (case f (ms_pt s) (ms_world s) of
       (Inl _, pt, w) \<Rightarrow> (Inl Panics, s\<lparr>ms_pt := pt, ms_world := w\<rparr>)
     | (Inr _, pt, w) \<Rightarrow> (Ok (), s\<lparr>ms_pt := pt, ms_world := w\<rparr>))"

definition PHYS_OFFSET :: nat where "PHYS_OFFSET = 0xFFFF800000000000"

definition ms_map :: "'a frame_alloc \<Rightarrow> (nat \<Rightarrow> bool) \<Rightarrow> map_area \<Rightarrow> (frame_error pfault, 'a vms, unit) esr" where
  "ms_map fa canon area s =
    (if ma_size area > 0
     then if map_of (ms_areas s) (ma_start_va area) = None
          then sr_iter (\<lambda>(va, f). if start_paddr f < PHYS_OFFSET
                                  then pt_unwrap (pt_map fa canon va f (ma_flags area)) else sr_lift (Inl Panics))
                 (ma_mapper area) (s\<lparr>ms_areas := bt_insert (ma_start_va area) area (ms_areas s)\<rparr>)
          else (Inl Panics, s)
     else (Ok (), s))"

definition ms_is_mapped :: "nat \<Rightarrow> 'a vms \<Rightarrow> bool" where
  "ms_is_mapped va s = pt_is_mapped (w_mem (ms_world s)) va (ms_pt s)"

definition ms_flags :: "nat \<Rightarrow> 'a vms \<Rightarrow> u64 option" where
  "ms_flags va s = pt_flags_of (w_mem (ms_world s)) va (ms_pt s)"

definition ms_new :: "'a frame_alloc \<Rightarrow> (nat \<times> u64) list \<Rightarrow> 'a world \<Rightarrow> 'a vms fres \<times> 'a world" where
  "ms_new fa kptes w =
    (case pt_new fa 4 w of
       (Inl _, w1) \<Rightarrow> (Inl Panics, w1)
     | (Inr pt, w1) \<Rightarrow>
         (case fold_res (\<lambda>(index, pte) w. add_root_mapping index pte pt w) kptes w1 of
            Inl _ \<Rightarrow> (Inl Panics, w1)
          | Inr w2 \<Rightarrow> (Ok \<lparr>ms_pt = pt, ms_areas = [], ms_world = w2\<rparr>, w2)))"

definition ms_unmap_pages :: "'a frame_alloc \<Rightarrow> (nat \<Rightarrow> bool) \<Rightarrow> map_area \<Rightarrow> (frame_error pfault, 'a vms, unit) esr" where
  "ms_unmap_pages fa canon area = sr_iter (\<lambda>(va, f). pt_unwrap (pt_unmap fa canon va)) (ma_mapper area)"

definition ms_unmap :: "'a frame_alloc \<Rightarrow> (nat \<Rightarrow> bool) \<Rightarrow> nat \<Rightarrow> (frame_error pfault, 'a vms, unit) esr" where
  "ms_unmap fa canon va s =
    (case map_of (ms_areas s) va of
       None \<Rightarrow> (Inl (Throws PageFault), s)
     | Some area \<Rightarrow> ms_unmap_pages fa canon area (s\<lparr>ms_areas := bt_remove va (ms_areas s)\<rparr>))"

definition ms_clear :: "'a frame_alloc \<Rightarrow> (nat \<Rightarrow> bool) \<Rightarrow> (frame_error pfault, 'a vms, unit) esr" where
  "ms_clear fa canon s =
    sr_bind (sr_iter (\<lambda>(_, area). ms_unmap_pages fa canon area) (ms_areas s)) (\<lambda>_. sr_mod (\<lambda>s. s\<lparr>ms_areas := []\<rparr>)) s"

text \<open>\<open>start_write\<close> and \<open>start_read\<close> of the source are never set, so the branches that test them are dead.\<close>

fun ms_write_loop :: "(nat \<times> map_area) list \<Rightarrow> nat \<Rightarrow> nat \<Rightarrow> nat \<Rightarrow> slice_ref \<Rightarrow> kmem \<Rightarrow> unit fres \<times> kmem" where
  "ms_write_loop [] current offset remain data m = (Inl (Throws PageFault), m)"
| "ms_write_loop ((va, area) # rest) current offset remain data m =
    (if current \<ge> va \<and> current < ma_size area + va
     then if \<not> flags_contains (ma_flags area) WRITABLE then (Inl (Throws PageFault), m)
          else let write_len = min remain (ma_size area + va - current)
               in case write_data current (fst data + offset, write_len) area m of
                    Inl e \<Rightarrow> (Inl e, m)
                  | Inr m' \<Rightarrow> if remain - write_len = 0 then (Ok (), m')
                              else ms_write_loop rest (va + ma_size area) (offset + write_len) (remain - write_len) data m'
     else ms_write_loop rest current offset remain data m)"

definition ms_write_bytes :: "nat \<Rightarrow> slice_ref \<Rightarrow> (frame_error pfault, 'a vms, unit) esr" where
  "ms_write_bytes addr data s =
    (let (r, m) = ms_write_loop (ms_areas s) addr 0 (snd data) data (w_mem (ms_world s))
     in (r, s\<lparr>ms_world := (ms_world s)\<lparr>w_mem := m\<rparr>\<rparr>))"

fun ms_read_loop :: "(nat \<times> map_area) list \<Rightarrow> nat \<Rightarrow> nat \<Rightarrow> nat \<Rightarrow> slice_ref \<Rightarrow> kmem \<Rightarrow> unit fres \<times> kmem" where
  "ms_read_loop [] current offset remain data m = (Inl (Throws PageFault), m)"
| "ms_read_loop ((va, area) # rest) current offset remain data m =
    (if current \<ge> va \<and> current < ma_size area + va
     then let read_len = min remain (ma_size area + va - current)
          in case read_data current (fst data + offset, read_len) area m of
               Inl e \<Rightarrow> (Inl e, m)
             | Inr m' \<Rightarrow> if remain - read_len = 0 then (Ok (), m')
                         else ms_read_loop rest (va + ma_size area) (offset + read_len) (remain - read_len) data m'
     else ms_read_loop rest current offset remain data m)"

definition ms_read_bytes :: "nat \<Rightarrow> slice_ref \<Rightarrow> (frame_error pfault, 'a vms, unit) esr" where
  "ms_read_bytes addr data s =
    (let (r, m) = ms_read_loop (ms_areas s) addr 0 (snd data) data (w_mem (ms_world s))
     in (r, s\<lparr>ms_world := (ms_world s)\<lparr>w_mem := m\<rparr>\<rparr>))"

definition ms_protect :: "'a frame_alloc \<Rightarrow> (nat \<Rightarrow> bool) \<Rightarrow> nat \<Rightarrow> u64 \<Rightarrow> (frame_error pfault, 'a vms, unit) esr" where
  "ms_protect fa canon va flags s =
    pt_unwrap (pt_protect fa canon va flags)
      (case map_of (ms_areas s) va of None \<Rightarrow> s
       | Some area \<Rightarrow> s\<lparr>ms_areas := bt_insert va (area\<lparr>ma_flags := flags\<rparr>) (ms_areas s)\<rparr>)"

text \<open>A clone is a new set, with a page table of its own, into which the areas of the old one are mapped; the two
  share the frames. The result has the new set's state; the old set keeps its page table and areas.\<close>

definition ms_clone :: "'a frame_alloc \<Rightarrow> (nat \<Rightarrow> bool) \<Rightarrow> (nat \<times> u64) list \<Rightarrow> 'a vms \<Rightarrow> unit fres \<times> 'a vms" where
  "ms_clone fa canon kptes s =
    (case ms_new fa kptes (ms_world s) of
       (Inl e, w) \<Rightarrow> (Inl e, s\<lparr>ms_world := w\<rparr>)
     | (Inr s', w) \<Rightarrow> sr_iter (\<lambda>(_, area). ms_map fa canon area) (ms_areas s) s')"

section \<open>Address spaces\<close>

definition VM_PERM_W :: u8 where "VM_PERM_W = 2"
definition VM_PERM_X :: u8 where "VM_PERM_X = 4"
definition VM_PERM_ALL :: u8 where "VM_PERM_ALL = 15"

definition vm_perm_try_from :: "u64 \<Rightarrow> u8 fres" where
  "vm_perm_try_from value =
    (let b = (ucast value :: u8) in if b AND NOT VM_PERM_ALL = 0 then Ok b else Inl (Throws InvalidArgs))"

definition flags_of_perm :: "u8 \<Rightarrow> u64" where
  "flags_of_perm perm =
    (let flags = PRESENT OR USER;
         flags1 = (if perm AND VM_PERM_W = VM_PERM_W then flags OR WRITABLE else flags)
     in if \<not> perm AND VM_PERM_X = VM_PERM_X then flags1 OR NO_EXECUTE else flags1)"

record vm_map_options =
  mo_addr :: "nat option"
  mo_align :: nat
  mo_perm :: u8
  mo_can_overwrite :: bool

definition vm_map_options_new :: vm_map_options where
  "vm_map_options_new = \<lparr>mo_addr = None, mo_align = PAGE_SIZE, mo_perm = 0, mo_can_overwrite = False\<rparr>"

definition mo_set_addr :: "nat option \<Rightarrow> vm_map_options \<Rightarrow> vm_map_options" where
  "mo_set_addr addr opts = (if addr = None then opts else opts\<lparr>mo_addr := addr\<rparr>)"

definition vs_unmap :: "'a frame_alloc \<Rightarrow> (nat \<Rightarrow> bool) \<Rightarrow> nat \<Rightarrow> nat \<Rightarrow> (frame_error pfault, 'a vms, unit) esr" where
  "vs_unmap fa canon range_start range_end s =
    (if \<not> (is_page_aligned range_start \<and> is_page_aligned range_end) \<or> range_end < range_start then (Inl Panics, s)
     else let num_pages = (range_end - range_start) div PAGE_SIZE
          in if range_start + PAGE_SIZE * num_pages \<ge> USIZE_RANGE then (Inl (Throws Overflow), s)
             else sr_iter (\<lambda>i. ms_unmap fa canon (range_start + i * PAGE_SIZE)) [0..<num_pages] s)"

definition vs_map_loop :: "'a frame_alloc \<Rightarrow> (nat \<Rightarrow> bool) \<Rightarrow> u64 \<Rightarrow> nat \<Rightarrow> vm_frame_vec \<Rightarrow> (frame_error pfault, 'a vms, unit) esr" where
  "vs_map_loop fa canon flags base frames =
    sr_iter (\<lambda>(idx, f). sr_bind (sr_lift (map_area_new (base + idx * PAGE_SIZE) PAGE_SIZE flags (from_one_frame f)))
                                 (\<lambda>area. ms_map fa canon area)) (enumerate 0 frames)"

definition vs_map :: "'a frame_alloc \<Rightarrow> (nat \<Rightarrow> bool) \<Rightarrow> vm_frame_vec \<Rightarrow> vm_map_options \<Rightarrow> (frame_error pfault, 'a vms, nat) esr" where
  "vs_map fa canon frames opts s =
    (case mo_addr opts of
       None \<Rightarrow> (Inl (Throws InvalidArgs), s)
     | Some addr \<Rightarrow>
         (case (if mo_can_overwrite opts
                then if addr + fv_nbytes frames \<ge> USIZE_RANGE then (Inl Panics, s)
                     else vs_unmap fa canon addr (addr + fv_nbytes frames) s
                else (Ok (), s)) of
            (Inl Panics, s1) \<Rightarrow> (Inl Panics, s1)
          | (_, s1) \<Rightarrow>
              if addr + length frames * PAGE_SIZE \<ge> USIZE_RANGE then (Inl (Throws Overflow), s1)
              else sr_bind (vs_map_loop fa canon (flags_of_perm (mo_perm opts)) addr frames) (\<lambda>_. sr_return addr) s1))"

definition vs_is_writable :: "nat \<Rightarrow> 'a vms \<Rightarrow> bool" where
  "vs_is_writable va s = (case ms_flags va s of None \<Rightarrow> False | Some fl \<Rightarrow> flags_contains fl WRITABLE)"

definition vs_is_executable :: "nat \<Rightarrow> 'a vms \<Rightarrow> bool" where
  "vs_is_executable va s = (case ms_flags va s of None \<Rightarrow> False | Some fl \<Rightarrow> \<not> flags_contains fl NO_EXECUTE)"

definition vs_protect :: "'a frame_alloc \<Rightarrow> (nat \<Rightarrow> bool) \<Rightarrow> nat \<Rightarrow> nat \<Rightarrow> u8 \<Rightarrow> (frame_error pfault, 'a vms, unit) esr" where
  "vs_protect fa canon range_start range_end perm s =
    (if range_start mod PAGE_SIZE \<noteq> 0 \<or> range_end mod PAGE_SIZE \<noteq> 0 then (Inl Panics, s)
     else sr_iter (\<lambda>page_idx. ms_protect fa canon (page_idx * PAGE_SIZE) (flags_of_perm perm))
            [range_start div PAGE_SIZE..<range_end div PAGE_SIZE] s)"

section \<open>Specification\<close>

text \<open>The pages of an address space, by their start address, with their frames and flags.\<close>

definition area_page :: "nat \<Rightarrow> vm_frame \<Rightarrow> u64 \<Rightarrow> map_area" where
  "area_page va f fl = \<lparr>ma_flags = fl, ma_start_va = va, ma_size = PAGE_SIZE, ma_mapper = [(va, f)]\<rparr>"

definition area_frame :: "map_area \<Rightarrow> vm_frame" where "area_frame a = snd (hd (ma_mapper a))"

definition vs_abs :: "'a vms \<Rightarrow> nat \<rightharpoonup> vm_frame \<times> u64" where
  "vs_abs s va = map_option (\<lambda>a. (area_frame a, ma_flags a)) (map_of (ms_areas s) va)"

definition flags_ok :: "u64 \<Rightarrow> bool" where "flags_ok fl \<longleftrightarrow> fl AND NOT pt_flags_all = 0 \<and> flags_contains fl PRESENT"

text \<open>A frame that may be mapped: allocated, within the direct mapping, and not one of the tables.\<close>

definition data_frame :: "('a \<Rightarrow> nat set) \<Rightarrow> layout \<Rightarrow> 'a world \<Rightarrow> vm_frame \<Rightarrow> bool" where
  "data_frame used lay w f \<longleftrightarrow>
    start_paddr f < 2 ^ 47 \<and> start_paddr f div PAGE_SIZE \<in> used (w_alloc w) \<and> start_paddr f \<notin> dom lay"

text \<open>The invariant: every area is one page of the user's half, and the page table maps exactly the pages of the
  areas, with their frames and flags.\<close>

definition page_ok :: "('a \<Rightarrow> nat set) \<Rightarrow> layout \<Rightarrow> 'a world \<Rightarrow> nat \<Rightarrow> map_area \<Rightarrow> bool" where
  "page_ok used lay w va a \<longleftrightarrow>
    va mod PAGE_SIZE = 0 \<and> va < 2 ^ 47 \<and> a = area_page va (area_frame a) (ma_flags a) \<and> flags_ok (ma_flags a)
    \<and> data_frame used lay w (area_frame a)"

definition ms_inv :: "('a \<Rightarrow> nat set) \<Rightarrow> layout \<Rightarrow> 'a vms \<Rightarrow> bool" where
  "ms_inv used lay s \<longleftrightarrow>
    pt_inv used lay (ms_pt s) (ms_world s) \<and> bt_ok (ms_areas s)
    \<and> (\<forall>va a. map_of (ms_areas s) va = Some a \<longrightarrow> page_ok used lay (ms_world s) va a)
    \<and> (\<forall>v. v < 2 ^ 47 \<longrightarrow> pt_view (w_mem (ms_world s)) (ms_pt s) v
         = map_option (\<lambda>(f, fl). pte_new (start_paddr f) fl) (vs_abs s (v div PAGE_SIZE * PAGE_SIZE)))"

text \<open>An operation that leaves the pages \<open>abs'\<close>, changes no memory outside the tables, and takes new tables from
  frames that were not in use.\<close>

definition ms_effect :: "('a \<Rightarrow> nat set) \<Rightarrow> layout \<Rightarrow> 'a vms \<Rightarrow> layout \<Rightarrow> 'a vms \<Rightarrow> (nat \<rightharpoonup> vm_frame \<times> u64) \<Rightarrow> bool" where
  "ms_effect used lay s lay' s' abs' \<longleftrightarrow>
    ms_inv used lay' s' \<and> vs_abs s' = abs' \<and> used (w_alloc (ms_world s)) \<subseteq> used (w_alloc (ms_world s'))
    \<and> dom lay \<subseteq> dom lay' \<and> (\<forall>t \<in> dom lay' - dom lay. t div PAGE_SIZE \<notin> used (w_alloc (ms_world s)))
    \<and> (\<forall>a. a \<notin> table_span lay' \<longrightarrow> w_mem (ms_world s') a = w_mem (ms_world s) a)"

text \<open>The TLB flush accepts every address of the user's half.\<close>

definition canon_ok :: "(nat \<Rightarrow> bool) \<Rightarrow> bool" where "canon_ok canon \<longleftrightarrow> (\<forall>v. v < 2 ^ 47 \<longrightarrow> canon v)"

section \<open>Flags and areas\<close>

lemma canon_okD: "canon_ok canon \<Longrightarrow> v < 2 ^ 47 \<Longrightarrow> canon v"
  by (simp add: canon_ok_def)

lemma flags_of_perm_ok: "flags_ok (flags_of_perm perm)"
  by (simp add: flags_ok_def flags_of_perm_def Let_def flag_defs)

lemma flags_of_perm_writable: "flags_contains (flags_of_perm perm) WRITABLE \<longleftrightarrow> perm AND VM_PERM_W = VM_PERM_W"
  by (simp add: flags_of_perm_def Let_def flag_defs)

lemma flags_of_perm_executable: "flags_contains (flags_of_perm perm) NO_EXECUTE \<longleftrightarrow> perm AND VM_PERM_X \<noteq> VM_PERM_X"
  by (simp add: flags_of_perm_def Let_def flag_defs)

lemma area_page_simps [simp]:
  "ma_flags (area_page va f fl) = fl" "ma_start_va (area_page va f fl) = va" "ma_size (area_page va f fl) = PAGE_SIZE"
  "ma_mapper (area_page va f fl) = [(va, f)]" "area_frame (area_page va f fl) = f"
  by (simp_all add: area_page_def area_frame_def)

lemma area_page_upd [simp]: "(area_page va f fl)\<lparr>ma_flags := fl'\<rparr> = area_page va f fl'"
  by (simp add: area_page_def)

lemma map_area_new_page:
  "va mod PAGE_SIZE = 0 \<Longrightarrow> map_area_new va PAGE_SIZE fl [f] = Ok (area_page va f fl)"
  by (simp add: map_area_new_def map_with_physical_address_def is_page_aligned_iff area_page_def)

lemma data_frame_mono:
  assumes "data_frame used lay w f" "used (w_alloc w) \<subseteq> used (w_alloc w')"
    and "\<forall>t \<in> dom lay' - dom lay. t div PAGE_SIZE \<notin> used (w_alloc w)"
  shows "data_frame used lay' w' f"
  using assms by (auto simp: data_frame_def)

lemma page_start: "va mod PAGE_SIZE = 0 \<Longrightarrow> v div PAGE_SIZE = va div PAGE_SIZE \<longleftrightarrow> v div PAGE_SIZE * PAGE_SIZE = va"
  by (metis div_mult_mod_eq add_0_right nonzero_mult_div_cancel_right zero_neq_numeral)

lemma ms_invD:
  assumes "ms_inv used lay s"
  shows "pt_inv used lay (ms_pt s) (ms_world s)" "bt_ok (ms_areas s)"
    "map_of (ms_areas s) va = Some a \<Longrightarrow> page_ok used lay (ms_world s) va a"
    "v < 2 ^ 47 \<Longrightarrow> pt_view (w_mem (ms_world s)) (ms_pt s) v
       = map_option (\<lambda>(f, fl). pte_new (start_paddr f) fl) (vs_abs s (v div PAGE_SIZE * PAGE_SIZE))"
  using assms unfolding ms_inv_def by blast+

lemma vs_abs_None: "vs_abs s va = None \<longleftrightarrow> map_of (ms_areas s) va = None"
  by (simp add: vs_abs_def)

lemma vs_abs_page:
  assumes "ms_inv used lay s" "vs_abs s va = Some (f, fl)"
  shows "map_of (ms_areas s) va = Some (area_page va f fl)" "va mod PAGE_SIZE = 0" "va < 2 ^ 47" "flags_ok fl"
    "data_frame used lay (ms_world s) f"
proof -
  from assms(2) obtain a where a: "map_of (ms_areas s) va = Some a" "area_frame a = f" "ma_flags a = fl"
    by (auto simp: vs_abs_def)
  from ms_invD(3) [OF assms(1) a(1)] a show "va mod PAGE_SIZE = 0" "va < 2 ^ 47" "flags_ok fl"
    "data_frame used lay (ms_world s) f" "map_of (ms_areas s) va = Some (area_page va f fl)"
    by (auto simp: page_ok_def)
qed

lemma page_start_less: "va < 2 ^ 47 \<Longrightarrow> (va :: nat) div PAGE_SIZE * PAGE_SIZE < 2 ^ 47"
  by (meson div_times_less_eq_dividend le_less_trans)

text \<open>Whatever a page-table operation does, the invariant follows from the effect on the table and on the areas.\<close>

lemma ms_effectI:
  assumes inv: "ms_inv used lay s" and eff: "pt_effect used lay (ms_pt s) (ms_world s) lay' pt' w' view'"
    and s': "ms_pt s' = pt'" "ms_world s' = w'" "bt_ok (ms_areas s')"
    and pages: "\<And>va a. map_of (ms_areas s') va = Some a \<Longrightarrow> page_ok used lay (ms_world s) va a"
    and view: "\<And>v. v < 2 ^ 47 \<Longrightarrow> view' v = map_option (\<lambda>(f, fl). pte_new (start_paddr f) fl) (vs_abs s' (v div PAGE_SIZE * PAGE_SIZE))"
  shows "ms_effect used lay s lay' s' (vs_abs s')"
proof -
  note e = eff [unfolded pt_effect_def]
  have "page_ok used lay' w' va a" if "map_of (ms_areas s') va = Some a" for va a
    using pages [OF that] e data_frame_mono [of used lay "ms_world s" "area_frame a" w' lay'] by (auto simp: page_ok_def)
  then have "ms_inv used lay' s'" using s' e view by (simp add: ms_inv_def)
  then show ?thesis using e s' by (simp add: ms_effect_def)
qed

lemma ms_effect_trans:
  assumes 1: "ms_effect used lay s lay1 s1 abs1" and 2: "ms_effect used lay1 s1 lay2 s2 abs2"
  shows "ms_effect used lay s lay2 s2 abs2"
proof -
  note a = 1 [unfolded ms_effect_def] and b = 2 [unfolded ms_effect_def]
  have "table_span lay1 \<subseteq> table_span lay2" unfolding table_span_def using b by (intro UN_mono) blast+
  then have "w_mem (ms_world s2) x = w_mem (ms_world s) x" if "x \<notin> table_span lay2" for x using that a b by auto
  moreover have "t div PAGE_SIZE \<notin> used (w_alloc (ms_world s))" if "t \<in> dom lay2 - dom lay" for t
    using that a b by (cases "t \<in> dom lay1") auto
  moreover have "dom lay \<subseteq> dom lay2" "used (w_alloc (ms_world s)) \<subseteq> used (w_alloc (ms_world s2))" using a b by blast+
  ultimately show ?thesis using b by (simp add: ms_effect_def)
qed

lemma ms_effect_refl: "ms_inv used lay s \<Longrightarrow> ms_effect used lay s lay s (vs_abs s)"
  by (simp add: ms_effect_def)

section \<open>Operations on one page\<close>

lemma page_of_aligned: "va mod PAGE_SIZE = 0 \<Longrightarrow> va div PAGE_SIZE * PAGE_SIZE = va"
  by (metis add_0_right div_mult_mod_eq)

lemma ms_map_page:
  assumes fa: "frame_alloc_ok fa used" and inv: "ms_inv used lay s" and canon: "canon_ok canon"
    and va: "va mod PAGE_SIZE = 0" "va < 2 ^ 47" and f: "data_frame used lay (ms_world s) f" and fl: "flags_ok fl"
    and free: "vs_abs s va = None" and avail: "can_alloc fa (3 + n) (w_alloc (ms_world s))"
  shows "\<exists>lay' s'. ms_map fa canon (area_page va f fl) s = (Ok (), s')
    \<and> ms_effect used lay s lay' s' ((vs_abs s)(va \<mapsto> (f, fl))) \<and> can_alloc fa n (w_alloc (ms_world s'))"
proof -
  let ?w = "ms_world s"
  have none: "pt_view (w_mem ?w) (ms_pt s) va = None"
    using ms_invD(4) [OF inv va(2)] free page_of_aligned [OF va(1)] by simp
  from pt_map_spec [where canon = canon, OF fa ms_invD(1) [OF inv] va(2) canon_okD [OF canon va(2)] avail, of fl f] fl none
  obtain lay' pt' w' where 1: "pt_map fa canon va f fl (ms_pt s) ?w = (Ok (), pt', w')" "can_alloc fa n (w_alloc w')"
    "pt_effect used lay (ms_pt s) ?w lay' pt' w'
      (\<lambda>v. if v div PAGE_SIZE = va div PAGE_SIZE then Some (pte_new (start_paddr f) fl) else pt_view (w_mem ?w) (ms_pt s) v)"
    by (auto simp: flags_ok_def)
  define s' where "s' = s\<lparr>ms_areas := bt_insert va (area_page va f fl) (ms_areas s), ms_pt := pt', ms_world := w'\<rparr>"
  note ok = ms_invD(2) [OF inv]
  have abs': "vs_abs s' = (vs_abs s)(va \<mapsto> (f, fl))" using ok by (auto simp: vs_abs_def s'_def fun_eq_iff)
  have "ms_effect used lay s lay' s' (vs_abs s')"
  proof (rule ms_effectI [OF inv 1(3)])
    show "page_ok used lay ?w x a" if "map_of (ms_areas s') x = Some a" for x a
      using that ok ms_invD(3) [OF inv] va f fl by (auto simp: s'_def page_ok_def split: if_splits)
    show "(if v div PAGE_SIZE = va div PAGE_SIZE then Some (pte_new (start_paddr f) fl) else pt_view (w_mem ?w) (ms_pt s) v)
        = map_option (\<lambda>(f, fl). pte_new (start_paddr f) fl) (vs_abs s' (v div PAGE_SIZE * PAGE_SIZE))" if "v < 2 ^ 47" for v
      using ms_invD(4) [OF inv that] page_start [OF va(1), of v] by (simp add: abs')
  qed (use ok in \<open>simp_all add: s'_def\<close>)
  moreover have "ms_map fa canon (area_page va f fl) s = (Ok (), s')"
    using free f 1(1) by (simp add: ms_map_def vs_abs_None data_frame_def PHYS_OFFSET_def pt_unwrap_def s'_def sr_bind_def)
  moreover have "can_alloc fa n (w_alloc (ms_world s'))" using 1(2) by (simp add: s'_def)
  ultimately show ?thesis using abs' by auto
qed

lemma ms_map_occupied: "vs_abs s va \<noteq> None \<Longrightarrow> ms_map fa canon (area_page va f fl) s = (Inl Panics, s)"
  by (auto simp: ms_map_def vs_abs_None)

lemma ms_unmap_page:
  assumes inv: "ms_inv used lay s" and canon: "canon_ok canon"
  shows "case vs_abs s va of
      None \<Rightarrow> ms_unmap fa canon va s = (Inl (Throws PageFault), s)
    | Some _ \<Rightarrow> \<exists>s'. ms_unmap fa canon va s = (Ok (), s') \<and> ms_effect used lay s lay s' ((vs_abs s)(va := None))
        \<and> w_alloc (ms_world s') = w_alloc (ms_world s)"
proof (cases "vs_abs s va")
  case None
  then have "map_of (ms_areas s) va = None" by (simp add: vs_abs_None)
  with None show ?thesis by (simp add: ms_unmap_def)
next
  case (Some p)
  obtain f fl where p: "p = (f, fl)" by (cases p)
  let ?w = "ms_world s"
  note page = vs_abs_page [OF inv Some [unfolded p]]
  have view: "pt_view (w_mem ?w) (ms_pt s) va \<noteq> None"
    using ms_invD(4) [OF inv page(3)] Some page_of_aligned [OF page(2)] by simp
  from pt_unmap_spec [where canon = canon, OF ms_invD(1) [OF inv] page(3) canon_okD [OF canon page(3)], of fa] view
  obtain w' where 1: "pt_unmap fa canon va (ms_pt s) ?w = (Ok (), ms_pt s, w')" "w_alloc w' = w_alloc ?w"
    "pt_effect used lay (ms_pt s) ?w lay (ms_pt s) w'
      (\<lambda>v. if v div PAGE_SIZE = va div PAGE_SIZE then None else pt_view (w_mem ?w) (ms_pt s) v)" by auto
  define s' where "s' = s\<lparr>ms_areas := bt_remove va (ms_areas s), ms_world := w'\<rparr>"
  note ok = ms_invD(2) [OF inv]
  have abs': "vs_abs s' = (vs_abs s)(va := None)" by (auto simp: vs_abs_def s'_def fun_eq_iff)
  have "ms_effect used lay s lay s' (vs_abs s')"
  proof (rule ms_effectI [OF inv 1(3)])
    show "page_ok used lay ?w x a" if "map_of (ms_areas s') x = Some a" for x a
      using that ms_invD(3) [OF inv] by (auto simp: s'_def split: if_splits)
    show "(if v div PAGE_SIZE = va div PAGE_SIZE then None else pt_view (w_mem ?w) (ms_pt s) v)
        = map_option (\<lambda>(f, fl). pte_new (start_paddr f) fl) (vs_abs s' (v div PAGE_SIZE * PAGE_SIZE))" if "v < 2 ^ 47" for v
      using ms_invD(4) [OF inv that] page_start [OF page(2), of v] by (simp add: abs')
  qed (use ok in \<open>simp_all add: s'_def\<close>)
  moreover have "ms_unmap fa canon va s = (Ok (), s')"
    using page(1) 1(1) by (simp add: ms_unmap_def ms_unmap_pages_def pt_unwrap_def s'_def sr_bind_def)
  ultimately show ?thesis using Some abs' 1(2) by (auto simp: s'_def)
qed

lemma ms_protect_page:
  assumes inv: "ms_inv used lay s" and canon: "canon_ok canon"
    and va: "va mod PAGE_SIZE = 0" "va < 2 ^ 47" and fl: "flags_ok fl"
  shows "case vs_abs s va of
      None \<Rightarrow> ms_protect fa canon va fl s = (Inl Panics, s)
    | Some (f, old) \<Rightarrow> \<exists>s'. ms_protect fa canon va fl s = (Ok (), s') \<and> ms_effect used lay s lay s' ((vs_abs s)(va \<mapsto> (f, fl)))
        \<and> w_alloc (ms_world s') = w_alloc (ms_world s)"
proof (cases "vs_abs s va")
  case None
  then have "pt_view (w_mem (ms_world s)) (ms_pt s) va = None"
    using ms_invD(4) [OF inv va(2)] page_of_aligned [OF va(1)] by simp
  with pt_protect_spec [where canon = canon, OF ms_invD(1) [OF inv] va(2) canon_okD [OF canon va(2)], of fl fa] fl
  have "pt_protect fa canon va fl (ms_pt s) (ms_world s) = (Inl (Throws InvalidModification), ms_pt s, ms_world s)"
    by (simp add: flags_ok_def)
  moreover have "map_of (ms_areas s) va = None" using None by (simp add: vs_abs_None)
  ultimately show ?thesis using None by (simp add: ms_protect_def pt_unwrap_def)
next
  case (Some p)
  obtain f old where p: "p = (f, old)" by (cases p)
  let ?w = "ms_world s"
  note page = vs_abs_page [OF inv Some [unfolded p]]
  have view: "pt_view (w_mem ?w) (ms_pt s) va = Some (pte_new (start_paddr f) old)"
    using ms_invD(4) [OF inv va(2)] Some p page_of_aligned [OF va(1)] by simp
  have sp: "pte_paddr (pte_new (start_paddr f) old) = start_paddr f"
    using page(4,5) by (intro pte_paddr_new) (simp_all add: data_frame_def flags_ok_def start_paddr_def)
  from pt_protect_spec [where canon = canon, OF ms_invD(1) [OF inv] va(2) canon_okD [OF canon va(2)], of fl fa] fl view sp
  obtain r w' where 1: "pt_protect fa canon va fl (ms_pt s) ?w = (Ok r, ms_pt s, w')" "w_alloc w' = w_alloc ?w"
    "pt_effect used lay (ms_pt s) ?w lay (ms_pt s) w'
      (\<lambda>v. if v div PAGE_SIZE = va div PAGE_SIZE then Some (pte_new (start_paddr f) fl) else pt_view (w_mem ?w) (ms_pt s) v)"
    by (auto simp: flags_ok_def cong: if_cong)
  define s' where "s' = s\<lparr>ms_areas := bt_insert va (area_page va f fl) (ms_areas s), ms_world := w'\<rparr>"
  note ok = ms_invD(2) [OF inv]
  have abs': "vs_abs s' = (vs_abs s)(va \<mapsto> (f, fl))" using ok by (auto simp: vs_abs_def s'_def fun_eq_iff)
  have "ms_effect used lay s lay s' (vs_abs s')"
  proof (rule ms_effectI [OF inv 1(3)])
    show "page_ok used lay ?w x a" if "map_of (ms_areas s') x = Some a" for x a
      using that ok ms_invD(3) [OF inv] va page(5) fl by (auto simp: s'_def page_ok_def split: if_splits)
    show "(if v div PAGE_SIZE = va div PAGE_SIZE then Some (pte_new (start_paddr f) fl) else pt_view (w_mem ?w) (ms_pt s) v)
        = map_option (\<lambda>(f, fl). pte_new (start_paddr f) fl) (vs_abs s' (v div PAGE_SIZE * PAGE_SIZE))" if "v < 2 ^ 47" for v
      using ms_invD(4) [OF inv that] page_start [OF va(1), of v] by (simp add: abs')
  qed (use ok in \<open>simp_all add: s'_def\<close>)
  moreover have "ms_protect fa canon va fl s = (Ok (), s')"
    using page(1) 1(1) by (simp add: ms_protect_def pt_unwrap_def s'_def)
  ultimately show ?thesis using Some p abs' 1(2) by (auto simp: s'_def)
qed

section \<open>Operations on ranges of pages\<close>

definition pages :: "nat \<Rightarrow> nat \<Rightarrow> nat list" where "pages base n = map (\<lambda>i. base + i * PAGE_SIZE) [0..<n]"

definition user_page :: "nat \<Rightarrow> bool" where "user_page va \<longleftrightarrow> va mod PAGE_SIZE = 0 \<and> va < 2 ^ 47"

text \<open>The pages after unmapping and protecting; after mapping they are \<open>A ++ map_of ps\<close>.\<close>

definition drop_pages :: "nat set \<Rightarrow> (nat \<rightharpoonup> vm_frame \<times> u64) \<Rightarrow> nat \<rightharpoonup> vm_frame \<times> u64" where
  "drop_pages V A va = (if va \<in> V then None else A va)"

definition flag_pages :: "nat set \<Rightarrow> u64 \<Rightarrow> (nat \<rightharpoonup> vm_frame \<times> u64) \<Rightarrow> nat \<rightharpoonup> vm_frame \<times> u64" where
  "flag_pages V fl A va = (if va \<in> V then map_option (\<lambda>(f, _). (f, fl)) (A va) else A va)"

lemma sr_iter_map: "sr_iter (\<lambda>x. f (g x)) xs = sr_iter f (map g xs)"
  by (induction xs) simp_all

lemma length_pages [simp]: "length (pages base n) = n"
  by (simp add: pages_def)

lemma distinct_pages: "distinct (pages base n)"
  by (auto simp: pages_def distinct_map inj_on_def)

lemma pages_user:
  assumes "base mod PAGE_SIZE = 0" "base + n * PAGE_SIZE \<le> 2 ^ 47"
  shows "\<forall>va \<in> set (pages base n). user_page va"
proof
  fix va
  assume "va \<in> set (pages base n)"
  then obtain i where i: "va = base + i * PAGE_SIZE" "i < n" by (auto simp: pages_def)
  then have "i * PAGE_SIZE + PAGE_SIZE \<le> n * PAGE_SIZE" by simp
  with i assms show "user_page va" by (auto simp: user_page_def mod_add_eq)
qed

lemma vs_map_loop_zip:
  assumes "base mod PAGE_SIZE = 0"
  shows "vs_map_loop fa canon fl base fs =
    sr_iter (\<lambda>(va, f, fl). ms_map fa canon (area_page va f fl)) (zip (pages base (length fs)) (map (\<lambda>f. (f, fl)) fs))"
proof -
  let ?g = "\<lambda>(va, f, fl). ms_map fa canon (area_page va f fl)"
  have zip: "zip (pages base (length fs)) (map (\<lambda>f. (f, fl)) fs) = map (\<lambda>(i, f). (base + i * PAGE_SIZE, f, fl)) (enumerate 0 fs)"
    by (simp add: pages_def enumerate_eq_zip zip_map_map)
  have "base + i * PAGE_SIZE \<in> {va. va mod PAGE_SIZE = 0}" for i using assms by (simp add: mod_add_eq)
  then have "(\<lambda>(idx, f). sr_bind (sr_lift (map_area_new (base + idx * PAGE_SIZE) PAGE_SIZE fl (from_one_frame f))) (ms_map fa canon))
      = (\<lambda>x. ?g (case x of (i, f) \<Rightarrow> (base + i * PAGE_SIZE, f, fl)))"
    by (auto simp: fun_eq_iff from_one_frame_def map_area_new_page sr_bind_def)
  then show ?thesis
    unfolding vs_map_loop_def zip using sr_iter_map [of ?g "\<lambda>(i, f). (base + i * PAGE_SIZE, f, fl)" "enumerate 0 fs"] by simp
qed

lemma map_pages_iter:
  assumes fa: "frame_alloc_ok fa used" and canon: "canon_ok canon"
    and "ms_inv used lay s" "\<forall>(va, f, fl) \<in> set ps. user_page va \<and> data_frame used lay (ms_world s) f \<and> flags_ok fl"
    and "can_alloc fa (3 * length ps + n) (w_alloc (ms_world s))" "distinct (map fst ps)"
  shows "if \<forall>va \<in> fst ` set ps. vs_abs s va = None
    then \<exists>lay' s'. sr_iter (\<lambda>(va, f, fl). ms_map fa canon (area_page va f fl)) ps s = (Ok (), s')
      \<and> ms_effect used lay s lay' s' (vs_abs s ++ map_of ps) \<and> can_alloc fa n (w_alloc (ms_world s'))
    else fst (sr_iter (\<lambda>(va, f, fl). ms_map fa canon (area_page va f fl)) ps s) = Inl Panics"
  using assms(3-)
proof (induction ps arbitrary: lay s)
  case Nil
  then show ?case using ms_effect_refl [OF Nil.prems(1)] by (auto simp: sr_return_def)
next
  case (Cons p ps)
  obtain va f fl where p: "p = (va, f, fl)" by (cases p)
  let ?b = "\<lambda>(va, f, fl). ms_map fa canon (area_page va f fl)"
  have va: "va mod PAGE_SIZE = 0" "va < 2 ^ 47" and f: "data_frame used lay (ms_world s) f" "flags_ok fl"
    using Cons.prems(2) p by (auto simp: user_page_def)
  have step: "sr_iter ?b (p # ps) s = sr_bind (ms_map fa canon (area_page va f fl)) (\<lambda>_. sr_iter ?b ps) s"
    by (simp add: p)
  show ?case
  proof (cases "vs_abs s va = None")
    case True
    have "can_alloc fa (3 + (3 * length ps + n)) (w_alloc (ms_world s))" using Cons.prems(3) by (simp add: ac_simps)
    from ms_map_page [OF fa Cons.prems(1) canon va f True this] obtain lay1 s1 where
      1: "ms_map fa canon (area_page va f fl) s = (Ok (), s1)" "ms_effect used lay s lay1 s1 ((vs_abs s)(va \<mapsto> (f, fl)))"
        "can_alloc fa (3 * length ps + n) (w_alloc (ms_world s1))" by blast
    note e = 1(2) [unfolded ms_effect_def]
    have inv1: "ms_inv used lay1 s1" and abs1: "vs_abs s1 = (vs_abs s)(va \<mapsto> (f, fl))" using e by blast+
    have data1: "\<forall>(va, f, fl) \<in> set ps. user_page va \<and> data_frame used lay1 (ms_world s1) f \<and> flags_ok fl"
      using Cons.prems(2) e data_frame_mono [of used lay "ms_world s" _ "ms_world s1" lay1] by fastforce
    have d: "distinct (map fst ps)" "va \<notin> fst ` set ps" using Cons.prems(4) p by auto
    have "map_of ps va = None" using d(2) by (simp add: map_of_eq_None_iff)
    then have put: "vs_abs s ++ map_of (p # ps) = vs_abs s1 ++ map_of ps"
      by (auto simp: abs1 p fun_eq_iff map_add_def split: option.split)
    have same: "(\<forall>va \<in> fst ` set ps. vs_abs s1 va = None) \<longleftrightarrow> (\<forall>va \<in> fst ` set (p # ps). vs_abs s va = None)"
      using d(2) True by (auto simp: abs1 p)
    have it: "sr_iter ?b (p # ps) s = sr_iter ?b ps s1" unfolding step using 1(1) by simp
    note ih = Cons.IH [OF inv1 data1 1(3) d(1)]
    show ?thesis
      unfolding it put same [symmetric]
    proof (cases "\<forall>va \<in> fst ` set ps. vs_abs s1 va = None")
      case all: True
      from ih [unfolded if_P [OF all]] obtain lay' s' where "sr_iter ?b ps s1 = (Ok (), s')"
        "ms_effect used lay1 s1 lay' s' (vs_abs s1 ++ map_of ps)" "can_alloc fa n (w_alloc (ms_world s'))" by blast
      with ms_effect_trans [OF 1(2)] show "if \<forall>va \<in> fst ` set ps. vs_abs s1 va = None
        then \<exists>lay' s'. sr_iter ?b ps s1 = (Ok (), s') \<and> ms_effect used lay s lay' s' (vs_abs s1 ++ map_of ps)
          \<and> can_alloc fa n (w_alloc (ms_world s'))
        else fst (sr_iter ?b ps s1) = Inl Panics" unfolding if_P [OF all] by blast
    next
      case no: False
      from ih show "if \<forall>va \<in> fst ` set ps. vs_abs s1 va = None
        then \<exists>lay' s'. sr_iter ?b ps s1 = (Ok (), s') \<and> ms_effect used lay s lay' s' (vs_abs s1 ++ map_of ps)
          \<and> can_alloc fa n (w_alloc (ms_world s'))
        else fst (sr_iter ?b ps s1) = Inl Panics" unfolding if_not_P [OF no] .
    qed
  next
    case False
    then have panics: "fst (sr_iter ?b (p # ps) s) = Inl Panics" unfolding step by (simp add: ms_map_occupied)
    have no: "\<not> (\<forall>va \<in> fst ` set (p # ps). vs_abs s va = None)" using False p by auto
    from panics show ?thesis unfolding if_not_P [OF no] .
  qed
qed

lemma unmap_pages_iter:
  assumes canon: "canon_ok canon" and "ms_inv used lay s" "distinct xs"
  shows "\<exists>s'. sr_iter (\<lambda>va. ms_unmap fa canon va) xs s
      = (if \<forall>va \<in> set xs. vs_abs s va \<noteq> None then Ok () else Inl (Throws PageFault), s')
    \<and> ms_effect used lay s lay s' (drop_pages (set (takeWhile (\<lambda>va. vs_abs s va \<noteq> None) xs)) (vs_abs s))
    \<and> w_alloc (ms_world s') = w_alloc (ms_world s)"
  using assms(2-)
proof (induction xs arbitrary: s)
  case Nil
  have "drop_pages {} (vs_abs s) = vs_abs s" by (simp add: drop_pages_def fun_eq_iff)
  then show ?case using ms_effect_refl [OF Nil.prems(1)] by (simp add: sr_return_def)
next
  case (Cons va xs)
  show ?case
  proof (cases "vs_abs s va")
    case None
    have "drop_pages {} (vs_abs s) = vs_abs s" by (simp add: drop_pages_def fun_eq_iff)
    moreover have "ms_unmap fa canon va s = (Inl (Throws PageFault), s)"
      using ms_unmap_page [where canon = canon and fa = fa and va = va, OF Cons.prems(1) canon] None by simp
    ultimately show ?thesis using None ms_effect_refl [OF Cons.prems(1)] by (auto simp: sr_bind_def)
  next
    case (Some p)
    from ms_unmap_page [where canon = canon and fa = fa and va = va, OF Cons.prems(1) canon] Some obtain s1 where
      1: "ms_unmap fa canon va s = (Ok (), s1)" "ms_effect used lay s lay s1 ((vs_abs s)(va := None))"
        "w_alloc (ms_world s1) = w_alloc (ms_world s)" by auto
    have inv1: "ms_inv used lay s1" and abs1: "vs_abs s1 = (vs_abs s)(va := None)" using 1(2) by (simp_all add: ms_effect_def)
    have d: "distinct xs" "va \<notin> set xs" using Cons.prems(2) by auto
    have tw: "takeWhile (\<lambda>x. vs_abs s1 x \<noteq> None) xs = takeWhile (\<lambda>x. vs_abs s x \<noteq> None) xs"
      using d(2) by (intro takeWhile_cong) (auto simp: abs1)
    have drop: "drop_pages (set (takeWhile (\<lambda>x. vs_abs s x \<noteq> None) (va # xs))) (vs_abs s)
        = drop_pages (set (takeWhile (\<lambda>x. vs_abs s x \<noteq> None) xs)) (vs_abs s1)"
      using Some by (auto simp: drop_pages_def abs1 fun_eq_iff)
    have same: "(\<forall>x \<in> set xs. vs_abs s1 x \<noteq> None) \<longleftrightarrow> (\<forall>x \<in> set (va # xs). vs_abs s x \<noteq> None)"
      using d(2) Some by (auto simp: abs1)
    have it: "sr_iter (ms_unmap fa canon) (va # xs) s = sr_iter (ms_unmap fa canon) xs s1" using 1(1) by simp
    from Cons.IH [OF inv1 d(1), unfolded tw] obtain s' where
      2: "sr_iter (ms_unmap fa canon) xs s1 = (if \<forall>x \<in> set xs. vs_abs s1 x \<noteq> None then Ok () else Inl (Throws PageFault), s')"
        "ms_effect used lay s1 lay s' (drop_pages (set (takeWhile (\<lambda>x. vs_abs s x \<noteq> None) xs)) (vs_abs s1))"
        "w_alloc (ms_world s') = w_alloc (ms_world s1)" by blast
    show ?thesis
      unfolding it drop 2(1) same using ms_effect_trans [OF 1(2) 2(2)] 1(3) 2(3) by (intro exI [of _ s']) simp
  qed
qed

lemma protect_pages_iter:
  assumes canon: "canon_ok canon" and fl: "flags_ok fl" and "ms_inv used lay s" "distinct xs" "\<forall>va \<in> set xs. user_page va"
  shows "if \<forall>va \<in> set xs. vs_abs s va \<noteq> None
    then \<exists>s'. sr_iter (\<lambda>va. ms_protect fa canon va fl) xs s = (Ok (), s') \<and> ms_effect used lay s lay s' (flag_pages (set xs) fl (vs_abs s))
    else fst (sr_iter (\<lambda>va. ms_protect fa canon va fl) xs s) = Inl Panics"
  using assms(3-)
proof (induction xs arbitrary: s)
  case Nil
  have "flag_pages {} fl (vs_abs s) = vs_abs s" by (simp add: flag_pages_def fun_eq_iff)
  then show ?case using ms_effect_refl [OF Nil.prems(1)] by (simp add: sr_return_def)
next
  case (Cons va xs)
  let ?it = "sr_iter (\<lambda>va. ms_protect fa canon va fl)"
  have va: "va mod PAGE_SIZE = 0" "va < 2 ^ 47" using Cons.prems(3) by (simp_all add: user_page_def)
  note page = ms_protect_page [where canon = canon and fa = fa, OF Cons.prems(1) canon va fl]
  show ?case
  proof (cases "vs_abs s va")
    case None
    with page show ?thesis by (auto simp: sr_bind_def)
  next
    case (Some p)
    obtain f old where p: "p = (f, old)" by (cases p)
    from page Some p obtain s1 where
      1: "ms_protect fa canon va fl s = (Ok (), s1)" "ms_effect used lay s lay s1 ((vs_abs s)(va \<mapsto> (f, fl)))" by auto
    have inv1: "ms_inv used lay s1" and abs1: "vs_abs s1 = (vs_abs s)(va \<mapsto> (f, fl))" using 1(2) by (simp_all add: ms_effect_def)
    have d: "distinct xs" "va \<notin> set xs" using Cons.prems(2) by auto
    have flg: "flag_pages (set (va # xs)) fl (vs_abs s) = flag_pages (set xs) fl (vs_abs s1)"
      using Some p d(2) by (auto simp: flag_pages_def abs1 fun_eq_iff)
    have same: "(\<forall>x \<in> set xs. vs_abs s1 x \<noteq> None) \<longleftrightarrow> (\<forall>x \<in> set (va # xs). vs_abs s x \<noteq> None)"
      using d(2) Some by (auto simp: abs1)
    have it: "?it (va # xs) s = ?it xs s1" using 1(1) by simp
    have "\<forall>va \<in> set xs. user_page va" using Cons.prems(3) by simp
    note ih = Cons.IH [OF inv1 d(1) this]
    show ?thesis
      unfolding it flg same [symmetric]
    proof (cases "\<forall>x \<in> set xs. vs_abs s1 x \<noteq> None")
      case all: True
      from ih [unfolded if_P [OF all]] obtain s' where "?it xs s1 = (Ok (), s')" "ms_effect used lay s1 lay s' (flag_pages (set xs) fl (vs_abs s1))" by blast
      with ms_effect_trans [OF 1(2)] show "if \<forall>x \<in> set xs. vs_abs s1 x \<noteq> None
        then \<exists>s'. ?it xs s1 = (Ok (), s') \<and> ms_effect used lay s lay s' (flag_pages (set xs) fl (vs_abs s1))
        else fst (?it xs s1) = Inl Panics" unfolding if_P [OF all] by blast
    next
      case no: False
      from ih show "if \<forall>x \<in> set xs. vs_abs s1 x \<noteq> None
        then \<exists>s'. ?it xs s1 = (Ok (), s') \<and> ms_effect used lay s lay s' (flag_pages (set xs) fl (vs_abs s1))
        else fst (?it xs s1) = Inl Panics" unfolding if_not_P [OF no] .
    qed
  qed
qed

end
