(* ===== verification/Vm_Access.thy ===== *)
theory Vm_Access
  imports Vm_Space
begin

text \<open>
  Reading and writing the memory of an address space from the kernel (\<open>read_bytes\<close> and \<open>write_bytes\<close> of
  \<open>MemorySet\<close>, used by \<open>VmSpace\<close>), and the properties of address spaces. \<open>uaddr\<close> is where the byte of a user address
  is, in the frame of its page.
\<close>

section \<open>Byte access\<close>

definition upage :: "nat \<Rightarrow> nat" where "upage v = v div PAGE_SIZE * PAGE_SIZE"

definition uaddr :: "(nat, map_area) btree \<Rightarrow> nat \<Rightarrow> nat" where
  "uaddr xs v = frame_ptr (area_frame (the (map_of xs (upage v)))) + v mod PAGE_SIZE"

text \<open>\<open>covered Q xs cur n\<close>: the \<open>n\<close> bytes from \<open>cur\<close>, and the page of \<open>cur\<close> even when \<open>n\<close> is 0, lie in pages of areas
  that satisfy \<open>Q\<close>.\<close>

definition on_page :: "(map_area \<Rightarrow> bool) \<Rightarrow> (nat, map_area) btree \<Rightarrow> nat \<Rightarrow> bool" where
  "on_page Q xs v \<longleftrightarrow> (\<exists>a. map_of xs (upage v) = Some a \<and> Q a)"

definition covered :: "(map_area \<Rightarrow> bool) \<Rightarrow> (nat, map_area) btree \<Rightarrow> nat \<Rightarrow> nat \<Rightarrow> bool" where
  "covered Q xs cur n \<longleftrightarrow> (\<forall>v. cur \<le> v \<and> v < cur + max n 1 \<longrightarrow> on_page Q xs v)"

definition writable_area :: "map_area \<Rightarrow> bool" where "writable_area a \<longleftrightarrow> flags_contains (ma_flags a) WRITABLE"

definition areas_ok :: "(nat, map_area) btree \<Rightarrow> bool" where
  "areas_ok xs \<longleftrightarrow> bt_ok xs \<and> (\<forall>(va, a) \<in> set xs. va mod PAGE_SIZE = 0 \<and> a = area_page va (area_frame a) (ma_flags a))"

lemma ms_inv_areas_ok: "ms_inv used lay s \<Longrightarrow> areas_ok (ms_areas s)"
  by (auto simp: ms_inv_def areas_ok_def page_ok_def set_bt_map_of)

lemma areas_ok_Cons:
  assumes "areas_ok ((va, a) # xs)"
  shows "areas_ok xs" "va mod PAGE_SIZE = 0" "a = area_page va (area_frame a) (ma_flags a)" "\<And>k. k \<in> fst ` set xs \<Longrightarrow> va < k"
  using assms by (auto simp: areas_ok_def)

lemma upage_iff: "va mod PAGE_SIZE = 0 \<Longrightarrow> upage v = va \<longleftrightarrow> va \<le> v \<and> v < va + PAGE_SIZE"
proof -
  assume "va mod PAGE_SIZE = 0"
  then obtain k where k: "va = k * PAGE_SIZE" by (metis mod_0_imp_dvd dvd_def mult.commute)
  have "v div PAGE_SIZE = k \<longleftrightarrow> k * PAGE_SIZE \<le> v \<and> v < k * PAGE_SIZE + PAGE_SIZE"
    by (metis add.commute div_nat_eqI dividend_less_times_div mult.commute mult_Suc_right nonzero_mult_div_cancel_right
        times_div_less_eq_dividend zero_less_numeral zero_neq_numeral div_times_less_eq_dividend)
  then show ?thesis by (auto simp: upage_def k)
qed

lemma upage_mono: "v \<le> v' \<Longrightarrow> upage v \<le> upage v'"
  by (simp add: upage_def div_le_mono)

lemma upage_mod: "upage v = va \<Longrightarrow> v mod PAGE_SIZE = v - va"
  by (auto simp: upage_def minus_div_mult_eq_mod)

lemma write_data_page:
  assumes "va \<le> cur" "cur + n \<le> va + PAGE_SIZE" "cur < va + PAGE_SIZE"
  shows "write_data cur (p, n) (area_page va f fl) m = Ok (mem_store (frame_ptr f + (cur - va)) (bytes_at m p n) m)"
  using assms by (simp add: write_data_def frame_writer_skip reader_of_def reader_from_raw_parts_def vw_write_eq Let_def
      min_absorb2 vr_has_remain_def vr_remain_def)

lemma read_data_page:
  assumes "va \<le> cur" "cur + n \<le> va + PAGE_SIZE" "cur < va + PAGE_SIZE"
  shows "read_data cur (p, n) (area_page va f fl) m = Ok (mem_store p (bytes_at m (frame_ptr f + (cur - va)) n) m)"
  using assms by (simp add: read_data_def frame_reader_skip writer_of_def writer_from_raw_parts_def vr_read_eq Let_def
      min_absorb2 vw_has_avail_def vw_avail_def)

text \<open>One turn of the loops over the areas.\<close>

lemma ms_write_step:
  assumes "areas_ok ((va, a) # xs)"
  shows "ms_write_loop ((va, a) # xs) cur off n data m =
    (if upage cur = va
     then if \<not> writable_area a then (Inl (Throws PageFault), m)
          else let w = min n (va + PAGE_SIZE - cur);
                   m1 = mem_store (frame_ptr (area_frame a) + (cur - va)) (bytes_at m (fst data + off) w) m
               in if n - w = 0 then (Ok (), m1) else ms_write_loop xs (va + PAGE_SIZE) (off + w) (n - w) data m1
     else ms_write_loop xs cur off n data m)"
proof -
  obtain f fl where a: "a = area_page va f fl" using areas_ok_Cons(3) [OF assms] by blast
  show ?thesis
    using upage_iff [OF areas_ok_Cons(2) [OF assms], of cur] write_data_page [of va cur "min n (va + PAGE_SIZE - cur)"]
    by (auto simp: a Let_def add.commute writable_area_def)
qed

lemma ms_read_step:
  assumes "areas_ok ((va, a) # xs)"
  shows "ms_read_loop ((va, a) # xs) cur off n data m =
    (if upage cur = va
     then let w = min n (va + PAGE_SIZE - cur);
              m1 = mem_store (fst data + off) (bytes_at m (frame_ptr (area_frame a) + (cur - va)) w) m
          in if n - w = 0 then (Ok (), m1) else ms_read_loop xs (va + PAGE_SIZE) (off + w) (n - w) data m1
     else ms_read_loop xs cur off n data m)"
proof -
  obtain f fl where a: "a = area_page va f fl" using areas_ok_Cons(3) [OF assms] by blast
  show ?thesis
    using upage_iff [OF areas_ok_Cons(2) [OF assms], of cur] read_data_page [of va cur "min n (va + PAGE_SIZE - cur)"]
    by (auto simp: a Let_def add.commute)
qed

lemma map_of_page_Cons: "upage v \<noteq> va \<Longrightarrow> map_of ((va, a) # xs) (upage v) = map_of xs (upage v)"
  by simp

lemma on_page_Cons:
  "on_page Q ((va, a) # xs) v \<longleftrightarrow> (if upage v = va then Q a else on_page Q xs v)"
  by (auto simp: on_page_def)

lemma uaddr_Cons:
  "uaddr ((va, a) # xs) v = (if upage v = va then frame_ptr (area_frame a) + (v - va) else uaddr xs v)"
  by (auto simp: uaddr_def upage_mod)

lemma covered_page:
  assumes ok: "areas_ok ((va, a) # xs)" and cur: "upage cur = va" and Q: "Q a"
  shows "n \<le> va + PAGE_SIZE - cur \<Longrightarrow> covered Q ((va, a) # xs) cur n"
    and "va + PAGE_SIZE - cur < n \<Longrightarrow>
      covered Q ((va, a) # xs) cur n \<longleftrightarrow> covered Q xs (va + PAGE_SIZE) (n - (va + PAGE_SIZE - cur))"
proof -
  note page = upage_iff [OF areas_ok_Cons(2) [OF ok]]
  have c: "va \<le> cur" "cur < va + PAGE_SIZE" using cur page [of cur] by auto
  have on: "on_page Q ((va, a) # xs) v \<longleftrightarrow> v < va + PAGE_SIZE \<or> on_page Q xs v" if "va \<le> v" "v < va + PAGE_SIZE" for v
    using that page [of v] Q by (simp add: on_page_Cons)
  have off: "on_page Q ((va, a) # xs) v \<longleftrightarrow> on_page Q xs v" if "va + PAGE_SIZE \<le> v" for v
    using that page [of v] by (simp add: on_page_Cons)
  show "covered Q ((va, a) # xs) cur n" if "n \<le> va + PAGE_SIZE - cur"
    unfolding covered_def
  proof (intro allI impI)
    fix v
    assume "cur \<le> v \<and> v < cur + max n 1"
    with that c have "va \<le> v" "v < va + PAGE_SIZE" by auto
    then show "on_page Q ((va, a) # xs) v" using on by simp
  qed
  show "covered Q ((va, a) # xs) cur n \<longleftrightarrow> covered Q xs (va + PAGE_SIZE) (n - (va + PAGE_SIZE - cur))"
    if long: "va + PAGE_SIZE - cur < n"
  proof -
    have n: "max n 1 = n" "max (n - (va + PAGE_SIZE - cur)) 1 = n - (va + PAGE_SIZE - cur)"
      "va + PAGE_SIZE + (n - (va + PAGE_SIZE - cur)) = cur + n"
      using long c by auto
    show ?thesis
      unfolding covered_def n
    proof (intro iffI allI impI)
      fix v
      assume "\<forall>v. cur \<le> v \<and> v < cur + n \<longrightarrow> on_page Q ((va, a) # xs) v" "va + PAGE_SIZE \<le> v \<and> v < cur + n"
      with off [of v] c show "on_page Q xs v" by simp
    next
      fix v
      assume "\<forall>v. va + PAGE_SIZE \<le> v \<and> v < cur + n \<longrightarrow> on_page Q xs v" "cur \<le> v \<and> v < cur + n"
      with on [of v] off [of v] c show "on_page Q ((va, a) # xs) v" by (cases "v < va + PAGE_SIZE") auto
    qed
  qed
qed

lemma covered_skip:
  assumes ok: "areas_ok ((va, a) # xs)" and cur: "upage cur \<noteq> va"
  shows "covered Q ((va, a) # xs) cur n \<longleftrightarrow> covered Q xs cur n"
    and "covered Q xs cur n \<Longrightarrow> cur \<le> v \<Longrightarrow> upage v \<noteq> va"
proof -
  have far: "upage v \<noteq> va" if "on_page Q xs cur" "cur \<le> v" for v
  proof -
    have "upage cur \<in> fst ` set xs" using that(1) by (force simp: on_page_def dest: map_of_SomeD)
    with areas_ok_Cons(4) [OF ok] upage_mono [OF that(2)] show ?thesis by fastforce
  qed
  have first: "on_page Q ys cur" if "covered Q ys cur n" for ys using that by (simp add: covered_def)
  show "covered Q ((va, a) # xs) cur n \<longleftrightarrow> covered Q xs cur n"
  proof
    assume "covered Q ((va, a) # xs) cur n"
    moreover from first [OF this] cur have "on_page Q xs cur" by (simp add: on_page_Cons)
    ultimately show "covered Q xs cur n" using far by (auto simp: covered_def on_page_Cons)
  next
    assume "covered Q xs cur n"
    with far [OF first [OF this]] show "covered Q ((va, a) # xs) cur n" by (auto simp: covered_def on_page_Cons)
  qed
  show "covered Q xs cur n \<Longrightarrow> cur \<le> v \<Longrightarrow> upage v \<noteq> va" using far first by blast
qed

text \<open>The addresses that an access of \<open>n\<close> bytes at \<open>cur\<close> may touch in the pages of areas that satisfy \<open>Q\<close>.\<close>

definition touched :: "(map_area \<Rightarrow> bool) \<Rightarrow> (nat, map_area) btree \<Rightarrow> nat \<Rightarrow> nat \<Rightarrow> nat set" where
  "touched Q xs cur n = {v. cur \<le> v \<and> v < cur + n \<and> on_page Q xs v}"

lemma on_page_tail:
  assumes ok: "areas_ok ((va, a) # xs)" and "on_page Q xs v"
  shows "upage v \<noteq> va" "on_page Q ((va, a) # xs) v" "uaddr ((va, a) # xs) v = uaddr xs v"
proof -
  have "upage v \<in> fst ` set xs" using assms(2) by (force simp: on_page_def dest: map_of_SomeD)
  then show "upage v \<noteq> va" using areas_ok_Cons(4) [OF ok] by blast
  then show "on_page Q ((va, a) # xs) v" "uaddr ((va, a) # xs) v = uaddr xs v"
    using assms(2) by (simp_all add: on_page_Cons uaddr_Cons)
qed

lemma touched_tail:
  assumes ok: "areas_ok ((va, a) # xs)" and "cur \<le> cur'" "cur' + n' \<le> cur + n"
  shows "touched Q xs cur' n' \<subseteq> touched Q ((va, a) # xs) cur n"
    and "uaddr xs ` touched Q xs cur' n' = uaddr ((va, a) # xs) ` touched Q xs cur' n'"
    and "inj_on (uaddr xs) (touched Q xs cur' n') = inj_on (uaddr ((va, a) # xs)) (touched Q xs cur' n')"
proof -
  show "touched Q xs cur' n' \<subseteq> touched Q ((va, a) # xs) cur n"
    using assms(2,3) on_page_tail(2) [OF ok] by (auto simp: touched_def)
  have same: "uaddr xs v = uaddr ((va, a) # xs) v" if "v \<in> touched Q xs cur' n'" for v
    using that on_page_tail(3) [OF ok, of Q v] by (simp add: touched_def)
  show "uaddr xs ` touched Q xs cur' n' = uaddr ((va, a) # xs) ` touched Q xs cur' n'"
    by (rule image_cong [OF refl same])
  show "inj_on (uaddr xs) (touched Q xs cur' n') = inj_on (uaddr ((va, a) # xs)) (touched Q xs cur' n')"
    by (rule inj_on_cong [OF same])
qed

lemma uaddr_head:
  assumes ok: "areas_ok ((va, a) # xs)" and "va \<le> v" "v < va + PAGE_SIZE"
  shows "uaddr ((va, a) # xs) v = frame_ptr (area_frame a) + (v - va)" "on_page Q ((va, a) # xs) v = Q a"
  using assms(2,3) upage_iff [OF areas_ok_Cons(2) [OF ok], of v] by (simp_all add: uaddr_Cons on_page_Cons)

lemma disjoint_mono: "A \<subseteq> B \<Longrightarrow> C \<subseteq> D \<Longrightarrow> B \<inter> D = {} \<Longrightarrow> A \<inter> C = {}"
  by blast

lemma ms_write_loop_spec:
  assumes "areas_ok xs" "inj_on (uaddr xs) (touched writable_area xs cur n)"
    and "uaddr xs ` touched writable_area xs cur n \<inter> {fst data + off..<fst data + off + n} = {}"
  shows "\<exists>m'. ms_write_loop xs cur off n data m = (if covered writable_area xs cur n then Ok () else Inl (Throws PageFault), m')
    \<and> (\<forall>x. x \<notin> uaddr xs ` touched writable_area xs cur n \<longrightarrow> m' x = m x)
    \<and> (covered writable_area xs cur n \<longrightarrow> (\<forall>i < n. m' (uaddr xs (cur + i)) = m (fst data + off + i)))"
  using assms
proof (induction xs arbitrary: cur off n m)
  case Nil
  then show ?case by (auto simp: covered_def on_page_def)
next
  case (Cons p xs)
  obtain va a where p: "p = (va, a)" by force
  let ?X = "(va, a) # xs" and ?W = writable_area
  have ok: "areas_ok ?X" using Cons.prems(1) by (simp add: p)
  note inj = Cons.prems(2) [unfolded p] and sep = Cons.prems(3) [unfolded p] and ok' = areas_ok_Cons(1) [OF ok]
  note step = ms_write_step [OF ok, of cur off n data m]
  note page = upage_iff [OF areas_ok_Cons(2) [OF ok], of cur]
  consider (skip) "upage cur \<noteq> va" | (ro) "upage cur = va" "\<not> ?W a" | (wr) "upage cur = va" "?W a" by blast
  then show ?case
  proof cases
    case skip
    note sub = touched_tail [OF ok order_refl order_refl, of ?W cur n]
    have injx: "inj_on (uaddr xs) (touched ?W xs cur n)"
      unfolding sub(3) by (rule inj_on_subset [OF inj sub(1)])
    have sepx: "uaddr xs ` touched ?W xs cur n \<inter> {fst data + off..<fst data + off + n} = {}"
      unfolding sub(2) using sep image_mono [OF sub(1), of "uaddr ?X"] by (simp add: disjoint_iff subset_iff)
    from Cons.IH [OF ok' injx sepx, of m] obtain m' where
      m': "ms_write_loop xs cur off n data m = (if covered ?W xs cur n then Ok () else Inl (Throws PageFault), m')"
        "\<And>x. x \<notin> uaddr xs ` touched ?W xs cur n \<Longrightarrow> m' x = m x"
        "\<And>i. covered ?W xs cur n \<Longrightarrow> i < n \<Longrightarrow> m' (uaddr xs (cur + i)) = m (fst data + off + i)"
      by blast
    have out: "m' x = m x" if "x \<notin> uaddr ?X ` touched ?W ?X cur n" for x
      using that m'(2) [of x] subsetD [OF image_mono [OF sub(1), of "uaddr ?X"], of x] sub(2) by argo
    have same: "uaddr ?X (cur + i) = uaddr xs (cur + i)" if "covered ?W xs cur n" for i
      using covered_skip(2) [OF ok skip that, of "cur + i"] by (simp add: uaddr_Cons)
    show ?thesis
      unfolding p covered_skip(1) [OF ok skip] step if_not_P [OF skip] m'(1)
      using out same m'(3) by auto
  next
    case ro
    then have "\<not> covered ?W ?X cur n" by (auto simp: covered_def on_page_Cons)
    with ro step show ?thesis by (simp add: p)
  next
    case wr
    define w where "w = min n (va + PAGE_SIZE - cur)"
    define m1 where "m1 = mem_store (frame_ptr (area_frame a) + (cur - va)) (bytes_at m (fst data + off) w) m"
    have c: "va \<le> cur" "cur < va + PAGE_SIZE" using page wr(1) by auto
    have head: "uaddr ?X (cur + i) = frame_ptr (area_frame a) + (cur - va) + i" "cur + i \<in> touched ?W ?X cur n" if "i < w" for i
      using uaddr_head(1) [OF ok, of "cur + i"] uaddr_head(2) [OF ok, of "cur + i" ?W] that c wr(2) by (auto simp: w_def touched_def)
    have m1_out: "m1 x = m x" if "x \<notin> uaddr ?X ` touched ?W ?X cur n" for x
    proof -
      have "x \<noteq> frame_ptr (area_frame a) + (cur - va) + i" if "i < w" for i
        using head [OF that] \<open>x \<notin> _\<close> by (metis image_eqI)
      then have "x < frame_ptr (area_frame a) + (cur - va) \<or> frame_ptr (area_frame a) + (cur - va) + w \<le> x"
        by (metis add_diff_inverse_nat less_diff_conv2 not_le_imp_less not_less add.commute)
      then show ?thesis by (simp add: m1_def mem_store_out)
    qed
    have m1_in: "m1 (uaddr ?X (cur + i)) = m (fst data + off + i)" if "i < w" for i
      using that by (simp add: head m1_def mem_store_def)
    have st: "ms_write_loop ?X cur off n data m = (if n - w = 0 then (Ok (), m1) else ms_write_loop xs (va + PAGE_SIZE) (off + w) (n - w) data m1)"
      using step wr by (simp add: w_def m1_def Let_def)
    show ?thesis
    proof (cases "n \<le> va + PAGE_SIZE - cur")
      case True
      then have "w = n" by (simp add: w_def)
      then show ?thesis using st m1_out m1_in covered_page(1) [where Q = ?W, OF ok wr True] by (simp add: p)
    next
      case False
      then have w: "w = va + PAGE_SIZE - cur" "w < n" "cur + w = va + PAGE_SIZE" using c by (auto simp: w_def)
      note sub = touched_tail(1,2) [OF ok, of cur "va + PAGE_SIZE" "n - w" n]
      have sub1: "touched ?W xs (va + PAGE_SIZE) (n - w) \<subseteq> touched ?W ?X cur n" using sub(1) c w by simp
      have sub2: "uaddr xs ` touched ?W xs (va + PAGE_SIZE) (n - w) = uaddr ?X ` touched ?W xs (va + PAGE_SIZE) (n - w)"
        using sub(2) c w by simp
      have injx: "inj_on (uaddr xs) (touched ?W xs (va + PAGE_SIZE) (n - w))"
        using inj_on_subset [OF inj sub1] touched_tail(3) [OF ok, of cur "va + PAGE_SIZE" "n - w" n] c w by simp
      have sepx: "uaddr xs ` touched ?W xs (va + PAGE_SIZE) (n - w) \<inter> {fst data + (off + w)..<fst data + (off + w) + (n - w)} = {}"
        unfolding sub2 using w(2) by (intro disjoint_mono [OF image_mono [OF sub1] _ sep]) auto
      from Cons.IH [OF ok' injx sepx, of m1] obtain m' where
        m': "ms_write_loop xs (va + PAGE_SIZE) (off + w) (n - w) data m1 =
            (if covered ?W xs (va + PAGE_SIZE) (n - w) then Ok () else Inl (Throws PageFault), m')"
          "\<And>x. x \<notin> uaddr xs ` touched ?W xs (va + PAGE_SIZE) (n - w) \<Longrightarrow> m' x = m1 x"
          "\<And>i. covered ?W xs (va + PAGE_SIZE) (n - w) \<Longrightarrow> i < n - w \<Longrightarrow> m' (uaddr xs (va + PAGE_SIZE + i)) = m1 (fst data + (off + w) + i)"
        by blast
      have cov: "covered ?W ?X cur n \<longleftrightarrow> covered ?W xs (va + PAGE_SIZE) (n - w)"
        using covered_page(2) [where Q = ?W, OF ok wr] w by simp
      have out: "m' x = m x" if "x \<notin> uaddr ?X ` touched ?W ?X cur n" for x
        using that m'(2) [of x] m1_out [OF that] sub1 sub2 by auto
      have in1: "m' (uaddr ?X (cur + i)) = m (fst data + off + i)" if "i < w" for i
      proof -
        have "cur + i \<notin> touched ?W xs (va + PAGE_SIZE) (n - w)" using that w by (auto simp: touched_def)
        then have "uaddr ?X (cur + i) \<notin> uaddr ?X ` touched ?W xs (va + PAGE_SIZE) (n - w)"
          using inj head(2) [OF that] sub1 by (auto dest: inj_onD)
        then show ?thesis using m'(2) m1_in [OF that] sub2 by simp
      qed
      have in2: "m' (uaddr ?X (cur + i)) = m (fst data + off + i)" if "covered ?W xs (va + PAGE_SIZE) (n - w)" "w \<le> i" "i < n" for i
      proof -
        have i: "cur + i = va + PAGE_SIZE + (i - w)" "fst data + (off + w) + (i - w) = fst data + off + i" using w that by auto
        have "on_page ?W xs (cur + i)" using that i w by (auto simp: covered_def)
        then have "uaddr ?X (cur + i) = uaddr xs (va + PAGE_SIZE + (i - w))" using on_page_tail(3) [OF ok] i by metis
        moreover have "m1 (fst data + off + i) = m (fst data + off + i)" using m1_out [of "fst data + off + i"] sep that(3) by (fastforce simp: disjoint_iff)
        ultimately show ?thesis using m'(3) [OF that(1), of "i - w"] that i by simp
      qed
      have "m' (uaddr ?X (cur + i)) = m (fst data + off + i)" if "covered ?W xs (va + PAGE_SIZE) (n - w)" "i < n" for i
        using in1 [of i] in2 [OF that(1) _ that(2)] by (cases "i < w") simp_all
      then show ?thesis unfolding p st m'(1) cov using w(2) out by simp
    qed
  qed
qed

lemma ms_read_loop_spec:
  assumes "areas_ok xs" "uaddr xs ` touched (\<lambda>_. True) xs cur n \<inter> {fst data + off..<fst data + off + n} = {}"
  shows "\<exists>m'. ms_read_loop xs cur off n data m = (if covered (\<lambda>_. True) xs cur n then Ok () else Inl (Throws PageFault), m')
    \<and> (\<forall>x. x < fst data + off \<or> fst data + off + n \<le> x \<longrightarrow> m' x = m x)
    \<and> (covered (\<lambda>_. True) xs cur n \<longrightarrow> (\<forall>i < n. m' (fst data + off + i) = m (uaddr xs (cur + i))))"
  using assms
proof (induction xs arbitrary: cur off n m)
  case Nil
  then show ?case by (auto simp: covered_def on_page_def)
next
  case (Cons p xs)
  obtain va a where p: "p = (va, a)" by force
  let ?X = "(va, a) # xs" and ?T = "\<lambda>_ :: map_area. True"
  have ok: "areas_ok ?X" using Cons.prems(1) by (simp add: p)
  note sep = Cons.prems(2) [unfolded p] and ok' = areas_ok_Cons(1) [OF ok]
  note step = ms_read_step [OF ok, of cur off n data m]
  show ?case
  proof (cases "upage cur = va")
    case skip: False
    note sub = touched_tail [OF ok order_refl order_refl, of ?T cur n]
    have sepx: "uaddr xs ` touched ?T xs cur n \<inter> {fst data + off..<fst data + off + n} = {}"
      unfolding sub(2) by (rule disjoint_mono [OF image_mono [OF sub(1)] order_refl sep])
    have same: "uaddr ?X (cur + i) = uaddr xs (cur + i)" if "covered ?T xs cur n" for i
      using covered_skip(2) [OF ok skip that, of "cur + i"] by (simp add: uaddr_Cons)
    show ?thesis
      unfolding p covered_skip(1) [OF ok skip] step if_not_P [OF skip]
      using Cons.IH [OF ok' sepx, of m] same by auto
  next
    case cur: True
    define w where "w = min n (va + PAGE_SIZE - cur)"
    define m1 where "m1 = mem_store (fst data + off) (bytes_at m (frame_ptr (area_frame a) + (cur - va)) w) m"
    have c: "va \<le> cur" "cur < va + PAGE_SIZE" using upage_iff [OF areas_ok_Cons(2) [OF ok], of cur] cur by auto
    have head: "uaddr ?X (cur + i) = frame_ptr (area_frame a) + (cur - va) + i" if "i < w" for i
      using uaddr_head(1) [OF ok, of "cur + i"] that c by (auto simp: w_def)
    have m1_out: "m1 x = m x" if "x < fst data + off \<or> fst data + off + w \<le> x" for x
      using that by (simp add: m1_def mem_store_out)
    have m1_in: "m1 (fst data + off + i) = m (uaddr ?X (cur + i))" if "i < w" for i
      using that by (simp add: head m1_def mem_store_def)
    have st: "ms_read_loop ?X cur off n data m = (if n - w = 0 then (Ok (), m1) else ms_read_loop xs (va + PAGE_SIZE) (off + w) (n - w) data m1)"
      using step cur by (simp add: w_def m1_def Let_def)
    show ?thesis
    proof (cases "n \<le> va + PAGE_SIZE - cur")
      case True
      then have "w = n" by (simp add: w_def)
      then show ?thesis using st m1_out m1_in covered_page(1) [where Q = ?T, OF ok cur TrueI True] by (simp add: p)
    next
      case False
      then have w: "w = va + PAGE_SIZE - cur" "w < n" "cur + w = va + PAGE_SIZE" using c by (auto simp: w_def)
      have sub1: "touched ?T xs (va + PAGE_SIZE) (n - w) \<subseteq> touched ?T ?X cur n"
        and sub2: "uaddr xs ` touched ?T xs (va + PAGE_SIZE) (n - w) = uaddr ?X ` touched ?T xs (va + PAGE_SIZE) (n - w)"
        using touched_tail(1,2) [OF ok, of cur "va + PAGE_SIZE" "n - w" n] c w by simp_all
      have sepx: "uaddr xs ` touched ?T xs (va + PAGE_SIZE) (n - w) \<inter> {fst data + (off + w)..<fst data + (off + w) + (n - w)} = {}"
        unfolding sub2 using w(2) by (intro disjoint_mono [OF image_mono [OF sub1] _ sep]) auto
      from Cons.IH [OF ok' sepx, of m1] obtain m' where
        m': "ms_read_loop xs (va + PAGE_SIZE) (off + w) (n - w) data m1 =
            (if covered ?T xs (va + PAGE_SIZE) (n - w) then Ok () else Inl (Throws PageFault), m')"
          "\<And>x. x < fst data + (off + w) \<or> fst data + (off + w) + (n - w) \<le> x \<Longrightarrow> m' x = m1 x"
          "\<And>i. covered ?T xs (va + PAGE_SIZE) (n - w) \<Longrightarrow> i < n - w \<Longrightarrow> m' (fst data + (off + w) + i) = m1 (uaddr xs (va + PAGE_SIZE + i))"
        by blast
      have cov: "covered ?T ?X cur n \<longleftrightarrow> covered ?T xs (va + PAGE_SIZE) (n - w)"
        using covered_page(2) [where Q = ?T, OF ok cur TrueI] w by simp
      have out: "m' x = m x" if "x < fst data + off \<or> fst data + off + n \<le> x" for x
        using that m'(2) [of x] m1_out [of x] w(2) by fastforce
      have inb: "m' (fst data + off + i) = m (uaddr ?X (cur + i))" if cv: "covered ?T xs (va + PAGE_SIZE) (n - w)" and i: "i < n" for i
      proof (cases "i < w")
        case True
        then show ?thesis using m'(2) [of "fst data + off + i"] m1_in [of i] by simp
      next
        case False
        then have j: "cur + i = va + PAGE_SIZE + (i - w)" "fst data + (off + w) + (i - w) = fst data + off + i" using w i by auto
        have on: "on_page ?T xs (cur + i)" using cv i False j w by (auto simp: covered_def)
        have at: "uaddr ?X (cur + i) = uaddr xs (va + PAGE_SIZE + (i - w))" using on_page_tail(3) [OF ok on] j by simp
        have "cur + i \<in> touched ?T ?X cur n" using on_page_tail(2) [OF ok on] i by (simp add: touched_def)
        then have "uaddr ?X (cur + i) \<notin> {fst data + off..<fst data + off + n}" using sep by (auto simp: disjoint_iff)
        then have "m1 (uaddr ?X (cur + i)) = m (uaddr ?X (cur + i))" using m1_out [of "uaddr ?X (cur + i)"] w(2) by auto
        then show ?thesis using m'(3) [OF cv, of "i - w"] False i j at by simp
      qed
      show ?thesis unfolding p st m'(1) cov using w(2) out inb by simp
    qed
  qed
qed

section \<open>Operations of address spaces on ranges\<close>

lemma vs_unmap_pages:
  assumes "base mod PAGE_SIZE = 0" "base + n * PAGE_SIZE < USIZE_RANGE"
  shows "vs_unmap fa canon base (base + n * PAGE_SIZE) s = sr_iter (ms_unmap fa canon) (pages base n) s"
  using assms sr_iter_map [of "ms_unmap fa canon" "\<lambda>i. base + i * PAGE_SIZE" "[0..<n]"]
  by (simp add: vs_unmap_def is_page_aligned_iff pages_def mod_add_eq mult.commute)

lemma vs_protect_pages:
  assumes "base mod PAGE_SIZE = 0"
  shows "vs_protect fa canon base (base + n * PAGE_SIZE) perm s
    = sr_iter (\<lambda>va. ms_protect fa canon va (flags_of_perm perm)) (pages base n) s"
proof -
  obtain k where k: "base = k * PAGE_SIZE" using assms by (metis mod_0_imp_dvd dvd_def mult.commute)
  have "map (\<lambda>i. i * PAGE_SIZE) [k..<k + n] = pages base n"
    by (rule nth_equalityI) (simp_all add: pages_def k algebra_simps)
  moreover have "base div PAGE_SIZE = k" "(base + n * PAGE_SIZE) div PAGE_SIZE = k + n" "(base + n * PAGE_SIZE) mod PAGE_SIZE = 0"
    unfolding k add_mult_distrib [symmetric] by simp_all
  moreover note sr_iter_map [of "\<lambda>va. ms_protect fa canon va (flags_of_perm perm)" "\<lambda>i. i * PAGE_SIZE" "[k..<k + n]"]
  ultimately show ?thesis using assms by (simp add: vs_protect_def add.commute [of n k])
qed

lemma fst_zip_pages: "fst ` set (zip (pages base (length fs)) (map g fs)) = set (pages base (length fs))"
  by (metis length_map length_pages list.set_map map_fst_zip)

lemma vs_map_loop_spec:
  assumes fa: "frame_alloc_ok fa used" and canon: "canon_ok canon" and inv: "ms_inv used lay s"
    and range: "base mod PAGE_SIZE = 0" "base + length fs * PAGE_SIZE \<le> 2 ^ 47"
    and fs: "\<forall>f \<in> set fs. data_frame used lay (ms_world s) f" and fl: "flags_ok fl"
    and avail: "can_alloc fa (3 * length fs) (w_alloc (ms_world s))"
  shows "if \<forall>va \<in> set (pages base (length fs)). vs_abs s va = None
    then \<exists>lay' s'. vs_map_loop fa canon fl base fs s = (Ok (), s')
      \<and> ms_effect used lay s lay' s' (vs_abs s ++ map_of (zip (pages base (length fs)) (map (\<lambda>f. (f, fl)) fs)))
    else fst (vs_map_loop fa canon fl base fs s) = Inl Panics"
proof -
  let ?ps = "zip (pages base (length fs)) (map (\<lambda>f. (f, fl)) fs)"
  have "\<forall>(va, f, fl) \<in> set ?ps. user_page va \<and> data_frame used lay (ms_world s) f \<and> flags_ok fl"
    using pages_user [OF range] fs fl by (fastforce dest: set_zip_leftD set_zip_rightD)
  moreover have "can_alloc fa (3 * length ?ps + 0) (w_alloc (ms_world s))" using avail by simp
  moreover have "distinct (map fst ?ps)" by (simp add: distinct_pages)
  ultimately show ?thesis
    using map_pages_iter [OF fa canon inv, of ?ps 0] unfolding vs_map_loop_zip [OF range(1)] fst_zip_pages
    by (auto split: if_splits)
qed

lemma drop_pages_free:
  assumes "distinct xs"
  shows "(\<forall>va \<in> set xs. drop_pages (set (takeWhile (\<lambda>va. A va \<noteq> None) xs)) A va = None)
    \<longleftrightarrow> (\<forall>va \<in> set (dropWhile (\<lambda>va. A va \<noteq> None) xs). A va = None)"
proof -
  let ?t = "takeWhile (\<lambda>va. A va \<noteq> None) xs" and ?d = "dropWhile (\<lambda>va. A va \<noteq> None) xs"
  have "set xs = set ?t \<union> set ?d" by (metis set_append takeWhile_dropWhile_id)
  moreover have "set ?t \<inter> set ?d = {}" using assms by (metis distinct_append takeWhile_dropWhile_id)
  ultimately show ?thesis by (auto simp: drop_pages_def)
qed

lemma map_add_drop:
  assumes "set xs \<subseteq> dom B" "V \<subseteq> set xs"
  shows "drop_pages V A ++ B = A ++ B"
  using assms by (fastforce simp: drop_pages_def map_add_def fun_eq_iff split: option.split)

lemma vs_map_overwrite_spec:
  assumes fa: "frame_alloc_ok fa used" and canon: "canon_ok canon" and inv: "ms_inv used lay s"
    and range: "base mod PAGE_SIZE = 0" "base + length fs * PAGE_SIZE \<le> 2 ^ 47"
    and fs: "\<forall>f \<in> set fs. data_frame used lay (ms_world s) f"
    and avail: "can_alloc fa (3 * length fs) (w_alloc (ms_world s))"
    and opts: "mo_addr opts = Some base" "mo_can_overwrite opts"
  shows "if \<forall>va \<in> set (dropWhile (\<lambda>va. vs_abs s va \<noteq> None) (pages base (length fs))). vs_abs s va = None
    then \<exists>lay' s'. vs_map fa canon fs opts s = (Ok base, s')
      \<and> ms_effect used lay s lay' s' (vs_abs s ++ map_of (zip (pages base (length fs)) (map (\<lambda>f. (f, flags_of_perm (mo_perm opts))) fs)))
    else fst (vs_map fa canon fs opts s) = Inl Panics"
proof -
  let ?xs = "pages base (length fs)" and ?fl = "flags_of_perm (mo_perm opts)"
  let ?B = "map_of (zip ?xs (map (\<lambda>f. (f, ?fl)) fs))"
  let ?V = "set (takeWhile (\<lambda>va. vs_abs s va \<noteq> None) ?xs)"
  from unmap_pages_iter [where canon = canon and fa = fa, OF canon inv distinct_pages [of base "length fs"]] obtain s1 r where
    1: "sr_iter (ms_unmap fa canon) ?xs s = (r, s1)" "r = Ok () \<or> r = Inl (Throws PageFault)"
      "ms_effect used lay s lay s1 (drop_pages ?V (vs_abs s))" "w_alloc (ms_world s1) = w_alloc (ms_world s)" by auto
  have inv1: "ms_inv used lay s1" and abs1: "vs_abs s1 = drop_pages ?V (vs_abs s)" using 1(3) by (simp_all add: ms_effect_def)
  have small: "base + length fs * PAGE_SIZE < USIZE_RANGE" using range(2) by simp
  have eq: "vs_map fa canon fs opts s = sr_bind (vs_map_loop fa canon ?fl base fs) (\<lambda>_. sr_return base) s1"
    using vs_unmap_pages [OF range(1) small, of fa canon s] 1(1,2) opts small by (auto simp: vs_map_def fv_nbytes_def)
  have fs1: "\<forall>f \<in> set fs. data_frame used lay (ms_world s1) f" using fs 1(4) by (simp add: data_frame_def)
  have avail1: "can_alloc fa (3 * length fs) (w_alloc (ms_world s1))" using avail 1(4) by simp
  note loop = vs_map_loop_spec [OF fa canon inv1 range fs1 flags_of_perm_ok avail1, of "mo_perm opts"]
  have "set ?xs \<subseteq> dom ?B" by (simp add: dom_map_of_conv_image_fst fst_zip_pages)
  then have same: "drop_pages ?V (vs_abs s) ++ ?B = vs_abs s ++ ?B" by (rule map_add_drop) (auto dest: set_takeWhileD)
  have cond: "(\<forall>va \<in> set ?xs. vs_abs s1 va = None)
      \<longleftrightarrow> (\<forall>va \<in> set (dropWhile (\<lambda>va. vs_abs s va \<noteq> None) ?xs). vs_abs s va = None)"
    unfolding abs1 by (rule drop_pages_free [OF distinct_pages])
  show ?thesis
  proof (cases "\<forall>va \<in> set ?xs. vs_abs s1 va = None")
    case True
    from loop [unfolded if_P [OF True]] obtain lay' s' where
      "vs_map_loop fa canon ?fl base fs s1 = (Ok (), s')" "ms_effect used lay s1 lay' s' (vs_abs s ++ ?B)"
      unfolding abs1 same by blast
    with ms_effect_trans [OF 1(3)] have "\<exists>lay' s'. vs_map fa canon fs opts s = (Ok base, s') \<and> ms_effect used lay s lay' s' (vs_abs s ++ ?B)"
      unfolding eq by (auto simp: sr_bind_def sr_return_def)
    then show ?thesis unfolding if_P [OF True [unfolded cond]] .
  next
    case False
    from loop [unfolded if_not_P [OF False]] have "fst (vs_map fa canon fs opts s) = Inl Panics"
      unfolding eq by (auto simp: sr_bind_def split: prod.splits)
    then show ?thesis unfolding if_not_P [OF False [unfolded cond]] .
  qed
qed

section \<open>New and copied address spaces\<close>

lemma ms_new_spec:
  assumes fa: "frame_alloc_ok fa used" and avail: "can_alloc fa (Suc n) (w_alloc w)" and zero: "0 \<in> used (w_alloc w)"
    and k: "\<forall>(i, e) \<in> set kptes. 256 \<le> i \<and> i < 512"
  shows "\<exists>s lay. ms_new fa kptes w = (Ok s, ms_world s) \<and> ms_inv used lay s \<and> ms_areas s = []
    \<and> can_alloc fa n (w_alloc (ms_world s)) \<and> used (w_alloc w) \<subseteq> used (w_alloc (ms_world s))
    \<and> (\<forall>t \<in> dom lay. t div PAGE_SIZE \<notin> used (w_alloc w)) \<and> (\<forall>a. a \<notin> table_span lay \<longrightarrow> w_mem (ms_world s) a = w_mem w a)"
proof -
  from pt_new_spec [OF fa avail] obtain pt w1 lay where
    1: "pt_new fa 4 w = (Ok pt, w1)" "pt_inv used lay pt w1" "\<forall>v. pt_view (w_mem w1) pt v = None"
      "can_alloc fa n (w_alloc w1)" "dom lay = {root_paddr pt}" "root_paddr pt div PAGE_SIZE \<notin> used (w_alloc w)"
      "used (w_alloc w) \<subseteq> used (w_alloc w1)" "\<forall>a. a \<notin> table_span lay \<longrightarrow> w_mem w1 a = w_mem w a" by blast
  have root: "root_paddr pt \<noteq> 0" using 1(6) zero by (metis div_0)
  define I where "I = (\<lambda>(xs :: (nat \<times> u64) list) w'. (\<forall>(i, e) \<in> set xs. 256 \<le> i \<and> i < (512 :: nat)) \<and> pt_inv used lay pt w' \<and> w_alloc w' = w_alloc w1
    \<and> (\<forall>v. v < 2 ^ 47 \<longrightarrow> pt_view (w_mem w') pt v = None) \<and> (\<forall>a. a \<notin> table_span lay \<longrightarrow> w_mem w' a = w_mem w a))"
  have "\<exists>w2. fold_res (\<lambda>(i, e) w. add_root_mapping i e pt w) kptes w1 = Ok w2 \<and> I [] w2"
  proof (rule fold_res_total)
    show "I kptes w1" using k 1 by (simp add: I_def)
    fix x xs w'
    assume I: "I (x # xs) w'"
    obtain i e where x: "x = (i, e)" by force
    from add_root_mapping_spec [of used lay pt w' i e] I root x obtain w2 where
      "add_root_mapping i e pt w' = Ok w2" "I xs w2" unfolding I_def by auto
    then show "\<exists>s'. (case x of (i, e) \<Rightarrow> add_root_mapping i e pt) w' = Ok s' \<and> I xs s'" by (simp add: x)
  qed
  then obtain w2 where 2: "fold_res (\<lambda>(i, e) w. add_root_mapping i e pt w) kptes w1 = Ok w2" "I [] w2" by blast
  let ?s = "\<lparr>ms_pt = pt, ms_areas = [], ms_world = w2\<rparr>"
  have "ms_inv used lay ?s" using 2(2) by (simp add: ms_inv_def I_def vs_abs_def)
  moreover have "ms_new fa kptes w = (Ok ?s, w2)" using 1(1) 2(1) by (simp add: ms_new_def)
  ultimately show ?thesis using 1 2(2) by (intro exI [of _ ?s] exI [of _ lay]) (simp add: I_def)
qed

lemma ms_inv_outside:
  assumes inv: "ms_inv used lay s" and w: "used (w_alloc (ms_world s)) \<subseteq> used (w_alloc w')"
    and same: "\<And>a. a \<in> table_span lay \<Longrightarrow> w_mem w' a = w_mem (ms_world s) a"
  shows "ms_inv used lay (s\<lparr>ms_world := w'\<rparr>)"
proof -
  note o = pt_inv_outside [OF ms_invD(1) [OF inv] w same]
  have abs: "vs_abs (s\<lparr>ms_world := w'\<rparr>) = vs_abs s" by (simp add: vs_abs_def fun_eq_iff)
  have "page_ok used lay w' va a" if "map_of (ms_areas s) va = Some a" for va a
    using ms_invD(3) [OF inv that] w by (auto simp: page_ok_def data_frame_def)
  then show ?thesis using inv o unfolding ms_inv_def abs by simp
qed

lemma pt_inv_tables:
  assumes "pt_inv used lay pt w" "t \<in> dom lay"
  shows "t mod PAGE_SIZE = 0" "t div PAGE_SIZE \<in> used (w_alloc w)"
  using assms by (auto simp: pt_inv_def tables_ok_def start_paddr_def)

lemma sr_iter_areas:
  assumes "\<forall>(va, a) \<in> set xs. a = area_page va (area_frame a) (ma_flags a)"
  shows "sr_iter (\<lambda>(_, a). ms_map fa canon a) xs
    = sr_iter (\<lambda>(va, f, fl). ms_map fa canon (area_page va f fl)) (map (\<lambda>(va, a). (va, area_frame a, ma_flags a)) xs)"
  using assms by (induction xs) auto

lemma ms_clone_spec:
  assumes fa: "frame_alloc_ok fa used" and canon: "canon_ok canon" and inv: "ms_inv used lay s"
    and avail: "can_alloc fa (Suc (3 * length (ms_areas s) + n)) (w_alloc (ms_world s))" and zero: "0 \<in> used (w_alloc (ms_world s))"
    and k: "\<forall>(i, e) \<in> set kptes. 256 \<le> i \<and> i < 512"
  shows "\<exists>lay' s'. ms_clone fa canon kptes s = (Ok (), s') \<and> ms_inv used lay' s' \<and> vs_abs s' = vs_abs s
    \<and> ms_inv used lay (s\<lparr>ms_world := ms_world s'\<rparr>) \<and> dom lay \<inter> dom lay' = {}
    \<and> (\<forall>a. a \<notin> table_span lay' \<longrightarrow> w_mem (ms_world s') a = w_mem (ms_world s) a)
    \<and> (\<forall>t \<in> dom lay'. t div PAGE_SIZE \<notin> used (w_alloc (ms_world s))) \<and> can_alloc fa n (w_alloc (ms_world s'))"
proof -
  let ?w = "ms_world s" and ?ps = "map (\<lambda>(va, a). (va, area_frame a, ma_flags a)) (ms_areas s)"
  from ms_new_spec [OF fa avail zero k] obtain s1 lay1 where
    1: "ms_new fa kptes ?w = (Ok s1, ms_world s1)" "ms_inv used lay1 s1" "ms_areas s1 = []"
      "can_alloc fa (3 * length (ms_areas s) + n) (w_alloc (ms_world s1))" "used (w_alloc ?w) \<subseteq> used (w_alloc (ms_world s1))"
      "\<forall>t \<in> dom lay1. t div PAGE_SIZE \<notin> used (w_alloc ?w)" "\<forall>a. a \<notin> table_span lay1 \<longrightarrow> w_mem (ms_world s1) a = w_mem ?w a"
    by blast
  have areas: "va mod PAGE_SIZE = 0" "va < 2 ^ 47" "a = area_page va (area_frame a) (ma_flags a)" "flags_ok (ma_flags a)"
    "data_frame used lay ?w (area_frame a)" if "(va, a) \<in> set (ms_areas s)" for va a
    using ms_invD(3) [OF inv, of va a] that ms_invD(2) [OF inv] by (auto simp: set_bt_map_of page_ok_def)
  have empty: "vs_abs s1 = Map.empty" using 1(3) by (simp add: vs_abs_def fun_eq_iff)
  have dist: "distinct (map fst ?ps)"
    using bt_ok_distinct [OF ms_invD(2) [OF inv]] by (simp add: comp_def case_prod_unfold)
  have data: "\<forall>(va, f, fl) \<in> set ?ps. user_page va \<and> data_frame used lay1 (ms_world s1) f \<and> flags_ok fl"
  proof -
    have "data_frame used lay1 (ms_world s1) (area_frame a)" if "(va, a) \<in> set (ms_areas s)" for va a
      using areas(5) [OF that] 1(5,6) unfolding data_frame_def by blast
    with areas show ?thesis by (auto simp: user_page_def)
  qed
  have map: "map_of ?ps = vs_abs s"
  proof
    fix va
    show "map_of ?ps va = vs_abs s va"
      using map_of_map [of "\<lambda>a. (area_frame a, ma_flags a)" "ms_areas s"] by (simp add: vs_abs_def case_prod_unfold comp_def fun_eq_iff)
  qed
  have "if \<forall>va \<in> fst ` set ?ps. vs_abs s1 va = None
    then \<exists>lay' s'. sr_iter (\<lambda>(va, f, fl). ms_map fa canon (area_page va f fl)) ?ps s1 = (Ok (), s')
      \<and> ms_effect used lay1 s1 lay' s' (vs_abs s1 ++ map_of ?ps) \<and> can_alloc fa n (w_alloc (ms_world s'))
    else fst (sr_iter (\<lambda>(va, f, fl). ms_map fa canon (area_page va f fl)) ?ps s1) = Inl Panics"
    using 1(4) by (intro map_pages_iter [OF fa canon 1(2) data _ dist]) simp
  then obtain lay' s' where 2: "sr_iter (\<lambda>(va, f, fl). ms_map fa canon (area_page va f fl)) ?ps s1 = (Ok (), s')"
    "ms_effect used lay1 s1 lay' s' (vs_abs s)" "can_alloc fa n (w_alloc (ms_world s'))" by (auto simp: empty map)
  note e = 2(2) [unfolded ms_effect_def]
  have new: "t div PAGE_SIZE \<notin> used (w_alloc ?w)" if "t \<in> dom lay'" for t
    using that e 1(5,6) by (cases "t \<in> dom lay1") auto
  have tab: "t mod PAGE_SIZE = 0" "t div PAGE_SIZE \<in> used (w_alloc ?w)" if "t \<in> dom lay" for t
    using that pt_inv_tables [OF ms_invD(1) [OF inv]] by blast+
  have tab': "t mod PAGE_SIZE = 0" if "t \<in> dom lay'" for t
    using that pt_inv_tables(1) [OF ms_invD(1) [of used lay' s']] e by blast
  have disj: "dom lay \<inter> dom lay' = {}" using new tab by blast
  have span: "table_span lay \<inter> table_span lay' = {}"
    unfolding table_span_def using frame_table_disjoint [OF tab(1) tab'] disj by (fastforce simp: disjoint_iff)
  have "table_span lay1 \<subseteq> table_span lay'" unfolding table_span_def using e by (intro UN_mono) blast+
  then have out: "w_mem (ms_world s') a = w_mem ?w a" if "a \<notin> table_span lay'" for a using that e 1(7) by auto
  have "ms_inv used lay (s\<lparr>ms_world := ms_world s'\<rparr>)"
    using e 1(5) out span by (intro ms_inv_outside [OF inv]) (auto simp: disjoint_iff)
  moreover have "\<forall>(va, a) \<in> set (ms_areas s). a = area_page va (area_frame a) (ma_flags a)" using areas(3) by blast
  then have "ms_clone fa canon kptes s = (Ok (), s')"
    using 1(1) 2(1) sr_iter_areas [of "ms_areas s" fa canon] by (simp add: ms_clone_def)
  ultimately show ?thesis using e 2(3) new out disj by (intro exI [of _ lay'] exI [of _ s']) simp
qed

section \<open>Byte access to an address space\<close>

definition user_byte :: "'a vms \<Rightarrow> nat \<Rightarrow> u8" where "user_byte s v = w_mem (ms_world s) (uaddr (ms_areas s) v)"

text \<open>No two pages have the same frame; the bytes of a buffer of the kernel are in no page table and in no frame that
  is mapped.\<close>

definition private_frames :: "'a vms \<Rightarrow> bool" where
  "private_frames s \<longleftrightarrow> (\<forall>va va' f f' fl fl'. vs_abs s va = Some (f, fl) \<longrightarrow> vs_abs s va' = Some (f', fl')
     \<longrightarrow> start_paddr f = start_paddr f' \<longrightarrow> va = va')"

definition kernel_buffer :: "layout \<Rightarrow> 'a vms \<Rightarrow> nat \<Rightarrow> nat \<Rightarrow> bool" where
  "kernel_buffer lay s p n \<longleftrightarrow> {p..<p + n} \<inter> table_span lay = {}
     \<and> (\<forall>va f fl. vs_abs s va = Some (f, fl) \<longrightarrow> {p..<p + n} \<inter> frame_span f = {})"

lemma on_page_frame:
  assumes "on_page Q (ms_areas s) v"
  obtains f fl where "vs_abs s (upage v) = Some (f, fl)" "uaddr (ms_areas s) v = frame_ptr f + v mod PAGE_SIZE" "uaddr (ms_areas s) v \<in> frame_span f"
  using assms by (auto simp: on_page_def vs_abs_def uaddr_def frame_span_def)

lemma page_offset_eq:
  fixes a b r r' :: nat
  assumes "r < PAGE_SIZE" "r' < PAGE_SIZE" "a * PAGE_SIZE + r = b * PAGE_SIZE + r'"
  shows "a = b" "r = r'"
proof -
  have "a = (a * PAGE_SIZE + r) div PAGE_SIZE" "b = (b * PAGE_SIZE + r') div PAGE_SIZE" using assms(1,2) by simp_all
  then show "a = b" using assms(3) by simp
  then show "r = r'" using assms(3) by simp
qed

lemma uaddr_inj:
  assumes "private_frames s" "on_page Q (ms_areas s) v" "on_page Q' (ms_areas s) v'" "uaddr (ms_areas s) v = uaddr (ms_areas s) v'"
  shows "v = v'"
proof -
  from on_page_frame [OF assms(2)] obtain f fl where f: "vs_abs s (upage v) = Some (f, fl)" "uaddr (ms_areas s) v = frame_ptr f + v mod PAGE_SIZE" .
  from on_page_frame [OF assms(3)] obtain f' fl' where f': "vs_abs s (upage v') = Some (f', fl')" "uaddr (ms_areas s) v' = frame_ptr f' + v' mod PAGE_SIZE" .
  have "unat (frame_index f) * PAGE_SIZE + v mod PAGE_SIZE = unat (frame_index f') * PAGE_SIZE + v' mod PAGE_SIZE"
    using f(2) f'(2) assms(4) by (simp add: frame_ptr_def paddr_to_vaddr_def start_paddr_def)
  note off = page_offset_eq [OF mod_less_divisor mod_less_divisor this, simplified]
  then have eq: "unat (frame_index f) = unat (frame_index f')" "v mod PAGE_SIZE = v' mod PAGE_SIZE" by blast+
  then have "upage v = upage v'" using f(1) f'(1) assms(1) unfolding private_frames_def start_paddr_def by metis
  with eq(2) show ?thesis unfolding upage_def by (metis div_mult_mod_eq)
qed

lemma uaddr_not_table:
  assumes inv: "ms_inv used lay s" and "on_page Q (ms_areas s) v"
  shows "uaddr (ms_areas s) v \<notin> table_span lay"
proof -
  from on_page_frame [OF assms(2)] obtain f fl where f: "vs_abs s (upage v) = Some (f, fl)" "uaddr (ms_areas s) v \<in> frame_span f" .
  have "start_paddr f \<notin> dom lay" using vs_abs_page(5) [OF inv f(1)] by (simp add: data_frame_def)
  moreover have al: "start_paddr f mod PAGE_SIZE = 0" by (simp add: start_paddr_def)
  ultimately have apart: "paddr_to_vaddr t + PAGE_SIZE \<le> frame_ptr f \<or> frame_ptr f + PAGE_SIZE \<le> paddr_to_vaddr t" if "t \<in> dom lay" for t
    using frame_table_disjoint [OF pt_inv_tables(1) [OF ms_invD(1) [OF inv] that] al] that by (auto simp: frame_ptr_def)
  show ?thesis
  proof
    assume "uaddr (ms_areas s) v \<in> table_span lay"
    then obtain t where "t \<in> dom lay" "paddr_to_vaddr t \<le> uaddr (ms_areas s) v" "uaddr (ms_areas s) v < paddr_to_vaddr t + PAGE_SIZE"
      unfolding table_span_def by force
    with apart [of t] f(2) show False by (auto simp: frame_span_def)
  qed
qed

lemma buffer_sep:
  assumes "kernel_buffer lay s p n"
  shows "uaddr (ms_areas s) ` touched Q (ms_areas s) cur k \<inter> {p..<p + n} = {}"
proof -
  have "uaddr (ms_areas s) v \<notin> {p..<p + n}" if on: "on_page Q (ms_areas s) v" for v
  proof -
    from on_page_frame [OF on] obtain f fl where "vs_abs s (upage v) = Some (f, fl)" and x: "uaddr (ms_areas s) v \<in> frame_span f" .
    with assms have "{p..<p + n} \<inter> frame_span f = {}" unfolding kernel_buffer_def by metis
    with x show ?thesis unfolding disjoint_iff by metis
  qed
  then show ?thesis by (auto simp: touched_def)
qed

lemma ms_write_bytes_spec:
  assumes inv: "ms_inv used lay s" and priv: "private_frames s" and buf: "kernel_buffer lay s p n"
  shows "\<exists>s'. ms_write_bytes addr (p, n) s
      = (if covered writable_area (ms_areas s) addr n then Ok () else Inl (Throws PageFault), s')
    \<and> ms_inv used lay s' \<and> ms_areas s' = ms_areas s
    \<and> (\<forall>x. x \<notin> uaddr (ms_areas s) ` touched writable_area (ms_areas s) addr n \<longrightarrow> w_mem (ms_world s') x = w_mem (ms_world s) x)
    \<and> (covered writable_area (ms_areas s) addr n \<longrightarrow> (\<forall>i < n. user_byte s' (addr + i) = w_mem (ms_world s) (p + i)))"
proof -
  let ?xs = "ms_areas s" and ?m = "w_mem (ms_world s)" and ?W = writable_area
  have "inj_on (uaddr ?xs) (touched ?W ?xs addr n)" using uaddr_inj [OF priv] by (auto simp: inj_on_def touched_def)
  then obtain m' where m': "ms_write_loop ?xs addr 0 n (p, n) ?m = (if covered ?W ?xs addr n then Ok () else Inl (Throws PageFault), m')"
    "\<And>x. x \<notin> uaddr ?xs ` touched ?W ?xs addr n \<Longrightarrow> m' x = ?m x"
    "\<And>i. covered ?W ?xs addr n \<Longrightarrow> i < n \<Longrightarrow> m' (uaddr ?xs (addr + i)) = ?m (p + i)"
    using ms_write_loop_spec [OF ms_inv_areas_ok [OF inv], of addr n "(p, n)" 0 ?m] buffer_sep [OF buf] by auto
  let ?w = "(ms_world s)\<lparr>w_mem := m'\<rparr>"
  have "a \<notin> uaddr ?xs ` touched ?W ?xs addr n" if "a \<in> table_span lay" for a
    using that uaddr_not_table [OF inv] by (auto simp: touched_def)
  then have "ms_inv used lay (s\<lparr>ms_world := ?w\<rparr>)" using m'(2) by (intro ms_inv_outside [OF inv]) auto
  with m' show ?thesis
    by (intro exI [of _ "s\<lparr>ms_world := ?w\<rparr>"]) (auto simp: ms_write_bytes_def user_byte_def)
qed

lemma ms_read_bytes_spec:
  assumes inv: "ms_inv used lay s" and buf: "kernel_buffer lay s q n"
  shows "\<exists>s'. ms_read_bytes addr (q, n) s
      = (if covered (\<lambda>_. True) (ms_areas s) addr n then Ok () else Inl (Throws PageFault), s')
    \<and> ms_inv used lay s' \<and> ms_areas s' = ms_areas s
    \<and> (\<forall>x. x < q \<or> q + n \<le> x \<longrightarrow> w_mem (ms_world s') x = w_mem (ms_world s) x)
    \<and> (covered (\<lambda>_. True) (ms_areas s) addr n \<longrightarrow> (\<forall>i < n. w_mem (ms_world s') (q + i) = user_byte s (addr + i)))"
proof -
  let ?xs = "ms_areas s" and ?m = "w_mem (ms_world s)" and ?T = "\<lambda>_ :: map_area. True"
  have sep: "uaddr ?xs ` touched ?T ?xs addr n \<inter> {fst (q, n) + 0..<fst (q, n) + 0 + n} = {}" using buffer_sep [OF buf] by simp
  from ms_read_loop_spec [OF ms_inv_areas_ok [OF inv] sep, of ?m] obtain m' where
    m': "ms_read_loop ?xs addr 0 n (q, n) ?m = (if covered ?T ?xs addr n then Ok () else Inl (Throws PageFault), m')"
    "\<And>x. x < q \<or> q + n \<le> x \<Longrightarrow> m' x = ?m x"
    "\<And>i. covered ?T ?xs addr n \<Longrightarrow> i < n \<Longrightarrow> m' (q + i) = ?m (uaddr ?xs (addr + i))"
    unfolding fst_conv add_0_right by blast
  let ?w = "(ms_world s)\<lparr>w_mem := m'\<rparr>"
  have "a < q \<or> q + n \<le> a" if "a \<in> table_span lay" for a
  proof -
    have "{q..<q + n} \<inter> table_span lay = {}" using buf by (simp add: kernel_buffer_def)
    with that have "a \<notin> {q..<q + n}" unfolding disjoint_iff by metis
    then show ?thesis unfolding atLeastLessThan_iff by linarith
  qed
  then have "ms_inv used lay (s\<lparr>ms_world := ?w\<rparr>)" using m'(2) by (intro ms_inv_outside [OF inv]) auto
  with m' show ?thesis
    by (intro exI [of _ "s\<lparr>ms_world := ?w\<rparr>"]) (auto simp: ms_read_bytes_def user_byte_def)
qed

section \<open>Properties\<close>

text \<open>(C5) An address space is a map from pages to frames with flags. For a range of pages of the user's half and as many
  allocated frames, with three frames left for new tables for each:
  \<^item> \<open>map\<close> gives exactly these pages these frames when no page of the range is mapped, and otherwise panics;
  \<^item> \<open>map\<close> with \<open>can_overwrite\<close> does so when the mapped pages of the range come before the others, and otherwise panics;
  \<^item> \<open>unmap\<close> removes the pages up to the first one that is not mapped, where it fails with \<open>PageFault\<close>;
  \<^item> \<open>protect\<close> changes the flags of exactly these pages when all are mapped, and otherwise panics.

  Each operation that returns leaves a page table that maps exactly these pages and changes no other memory.\<close>

theorem vm_space_refines_pages:
  assumes "frame_alloc_ok fa used" and "canon_ok canon" and "ms_inv used lay s"
    and "base mod PAGE_SIZE = 0" and "base + length fs * PAGE_SIZE \<le> 2 ^ 47"
    and "\<forall>f \<in> set fs. data_frame used lay (ms_world s) f" and "can_alloc fa (3 * length fs) (w_alloc (ms_world s))"
    and "mo_addr opts = Some base"
  shows "let ps = pages base (length fs); fl = flags_of_perm (mo_perm opts);
             new = vs_abs s ++ map_of (zip ps (map (\<lambda>f. (f, fl)) fs));
             mapped = (\<lambda>va. vs_abs s va \<noteq> None); unmapped = (\<lambda>va. vs_abs s va = None)
      in (\<not> mo_can_overwrite opts \<longrightarrow>
           (if list_all unmapped ps then \<exists>lay' s'. vs_map fa canon fs opts s = (Ok base, s') \<and> ms_effect used lay s lay' s' new
            else fst (vs_map fa canon fs opts s) = Inl Panics))
       \<and> (mo_can_overwrite opts \<longrightarrow>
           (if list_all unmapped (dropWhile mapped ps)
            then \<exists>lay' s'. vs_map fa canon fs opts s = (Ok base, s') \<and> ms_effect used lay s lay' s' new
            else fst (vs_map fa canon fs opts s) = Inl Panics))
       \<and> (\<exists>s'. vs_unmap fa canon base (base + length fs * PAGE_SIZE) s
             = (if list_all mapped ps then Ok () else Inl (Throws PageFault), s')
           \<and> ms_effect used lay s lay s' (drop_pages (set (takeWhile mapped ps)) (vs_abs s)))
       \<and> (if list_all mapped ps
          then \<exists>s'. vs_protect fa canon base (base + length fs * PAGE_SIZE) perm s = (Ok (), s')
            \<and> ms_effect used lay s lay s' (flag_pages (set ps) (flags_of_perm perm) (vs_abs s))
          else fst (vs_protect fa canon base (base + length fs * PAGE_SIZE) perm s) = Inl Panics)"
proof -
  note canon = assms(2) and inv = assms(3) and range = assms(4,5)
  let ?ps = "pages base (length fs)" and ?fl = "flags_of_perm (mo_perm opts)"
  have small: "base + length fs * PAGE_SIZE < USIZE_RANGE" using range(2) by simp
  have plain: "vs_map fa canon fs opts s = sr_bind (vs_map_loop fa canon ?fl base fs) (\<lambda>_. sr_return base) s" if "\<not> mo_can_overwrite opts"
    using that assms(8) small by (simp add: vs_map_def)
  note loop = vs_map_loop_spec [OF assms(1) canon inv range assms(6) flags_of_perm_ok [of "mo_perm opts"] assms(7)]
  note un = unmap_pages_iter [where canon = canon and fa = fa, OF canon inv distinct_pages [of base "length fs"]]
  note prot = protect_pages_iter [where canon = canon and fa = fa, OF canon flags_of_perm_ok [of perm] inv distinct_pages pages_user [OF range]]
  show ?thesis
    unfolding Let_def
  proof (intro conjI impI)
    assume "\<not> mo_can_overwrite opts"
    then show "if list_all (\<lambda>va. vs_abs s va = None) ?ps
      then \<exists>lay' s'. vs_map fa canon fs opts s = (Ok base, s')
        \<and> ms_effect used lay s lay' s' (vs_abs s ++ map_of (zip ?ps (map (\<lambda>f. (f, ?fl)) fs)))
      else fst (vs_map fa canon fs opts s) = Inl Panics"
      unfolding list_all_iff plain [OF \<open>\<not> mo_can_overwrite opts\<close>] using loop
      by (auto simp: sr_bind_def sr_return_def split: if_splits prod.splits)
  next
    assume "mo_can_overwrite opts"
    from vs_map_overwrite_spec [OF assms(1) canon inv range assms(6,7,8) this]
    show "if list_all (\<lambda>va. vs_abs s va = None) (dropWhile (\<lambda>va. vs_abs s va \<noteq> None) ?ps)
      then \<exists>lay' s'. vs_map fa canon fs opts s = (Ok base, s')
        \<and> ms_effect used lay s lay' s' (vs_abs s ++ map_of (zip ?ps (map (\<lambda>f. (f, ?fl)) fs)))
      else fst (vs_map fa canon fs opts s) = Inl Panics" unfolding list_all_iff .
  next
    show "\<exists>s'. vs_unmap fa canon base (base + length fs * PAGE_SIZE) s
        = (if list_all (\<lambda>va. vs_abs s va \<noteq> None) ?ps then Ok () else Inl (Throws PageFault), s')
      \<and> ms_effect used lay s lay s' (drop_pages (set (takeWhile (\<lambda>va. vs_abs s va \<noteq> None) ?ps)) (vs_abs s))"
      unfolding list_all_iff vs_unmap_pages [OF range(1) small] using un by blast
  next
    show "if list_all (\<lambda>va. vs_abs s va \<noteq> None) ?ps
      then \<exists>s'. vs_protect fa canon base (base + length fs * PAGE_SIZE) perm s = (Ok (), s')
        \<and> ms_effect used lay s lay s' (flag_pages (set ?ps) (flags_of_perm perm) (vs_abs s))
      else fst (vs_protect fa canon base (base + length fs * PAGE_SIZE) perm s) = Inl Panics"
      unfolding list_all_iff vs_protect_pages [OF range(1)] by (rule prot)
  qed
qed

text \<open>For examples: a new address space, and one that maps the frames 3 and 4 for writing at \<open>0x400000\<close>, in a memory
  whose first five frames are in use.\<close>

definition example_flags :: u64 where "example_flags = flags_of_perm VM_PERM_W"

definition example_pages :: "(nat \<times> vm_frame \<times> u64) list" where
  "example_pages = [(0x400000, 3, example_flags), (0x401000, 4, example_flags)]"

lemma start_paddr_examples: "start_paddr 3 = 12288" "start_paddr 4 = 16384"
  by (simp_all add: start_paddr_def frame_index_def NEED_DEALLOC_def)

lemma bump_avail: "can_alloc bump n s \<longleftrightarrow> n = 0 \<or> s + n \<le> 1000"
  by (induction n arbitrary: s) (auto simp: bump_def)

lemma example_space:
  "\<exists>s lay. ms_new bump [] \<lparr>w_mem = (\<lambda>a. word_of_nat a), w_alloc = 5\<rparr> = (Ok s, ms_world s) \<and> ms_inv (\<lambda>s. {..<s}) lay s \<and> ms_areas s = []
    \<and> can_alloc bump 90 (w_alloc (ms_world s)) \<and> 0 < w_alloc (ms_world s) \<and> (\<forall>f \<in> {3, 4}. data_frame (\<lambda>s. {..<s}) lay (ms_world s) f)
    \<and> (\<forall>t \<in> dom lay. 5 * PAGE_SIZE \<le> t) \<and> (\<forall>a. a \<notin> table_span lay \<longrightarrow> w_mem (ms_world s) a = word_of_nat a)"
proof -
  let ?w = "\<lparr>w_mem = (\<lambda>a. word_of_nat a), w_alloc = 5\<rparr> :: nat world"
  have "can_alloc bump (Suc 90) (w_alloc ?w)" "0 \<in> {..<w_alloc ?w}" "\<forall>(i, e) \<in> set []. 256 \<le> i \<and> i < 512" by (simp_all add: bump_avail)
  from ms_new_spec [OF bump_ok this] obtain s lay where
    s: "ms_new bump [] ?w = (Ok s, ms_world s)" "ms_inv (\<lambda>s. {..<s}) lay s" "ms_areas s = []" "can_alloc bump 90 (w_alloc (ms_world s))"
      "{..<5} \<subseteq> {..<w_alloc (ms_world s)}" "\<forall>t \<in> dom lay. t div PAGE_SIZE \<notin> {..<5}"
      "\<forall>a. a \<notin> table_span lay \<longrightarrow> w_mem (ms_world s) a = word_of_nat a" by auto
  have far: "5 * PAGE_SIZE \<le> t" if "t \<in> dom lay" for t using s(6) that by (auto simp: not_less dest!: bspec)
  have "12288 \<notin> dom lay" "16384 \<notin> dom lay" using far by fastforce+
  moreover have "5 \<le> w_alloc (ms_world s)" using s(5) by (simp add: lessThan_subset_iff)
  ultimately have "data_frame (\<lambda>s. {..<s}) lay (ms_world s) f" if "f \<in> {3, 4}" for f
    using that by (auto simp: data_frame_def start_paddr_examples)
  with s far \<open>5 \<le> w_alloc (ms_world s)\<close> show ?thesis by (intro exI [of _ s] exI [of _ lay]) auto
qed

lemma example_mapped:
  "\<exists>s lay. ms_inv (\<lambda>s. {..<s}) lay s \<and> vs_abs s = map_of example_pages \<and> can_alloc bump 84 (w_alloc (ms_world s))
    \<and> 0 < w_alloc (ms_world s) \<and> (\<forall>t \<in> dom lay. 5 * PAGE_SIZE \<le> t) \<and> (\<forall>a. a \<notin> table_span lay \<longrightarrow> w_mem (ms_world s) a = word_of_nat a)"
proof -
  from example_space obtain s lay where
    s: "ms_inv (\<lambda>s. {..<s}) lay s" "ms_areas s = []" "can_alloc bump 90 (w_alloc (ms_world s))"
      "\<forall>f \<in> {3, 4}. data_frame (\<lambda>s. {..<s}) lay (ms_world s) f" "0 < w_alloc (ms_world s)" "\<forall>t \<in> dom lay. 5 * PAGE_SIZE \<le> t"
      "\<forall>a. a \<notin> table_span lay \<longrightarrow> w_mem (ms_world s) a = word_of_nat a" by blast
  have empty: "vs_abs s = Map.empty" using s(2) by (simp add: vs_abs_def fun_eq_iff)
  have five: "5 \<le> w_alloc (ms_world s)" using s(4) by (simp add: data_frame_def start_paddr_examples)
  have "\<forall>(va, f, fl) \<in> set example_pages. user_page va \<and> data_frame (\<lambda>s. {..<s}) lay (ms_world s) f \<and> flags_ok fl"
    using s(4) by (simp add: example_pages_def user_page_def example_flags_def flags_of_perm_ok)
  moreover have "canon_ok (\<lambda>_. True)" "distinct (map fst example_pages)" "can_alloc bump (3 * length example_pages + 84) (w_alloc (ms_world s))"
    using s(3) by (simp_all add: canon_ok_def example_pages_def)
  ultimately obtain lay' s' where 1: "ms_effect (\<lambda>s. {..<s}) lay s lay' s' (map_of example_pages)" "can_alloc bump 84 (w_alloc (ms_world s'))"
    using map_pages_iter [OF bump_ok _ s(1), of "\<lambda>_. True" example_pages 84] by (auto simp: empty)
  note e = 1(1) [unfolded ms_effect_def]
  have far: "5 * PAGE_SIZE \<le> t" if "t \<in> dom lay'" for t
  proof (cases "t \<in> dom lay")
    case False
    then have "w_alloc (ms_world s) \<le> t div PAGE_SIZE" using e that by (auto simp: not_less)
    then have "5 \<le> t div PAGE_SIZE" using five by simp
    then show ?thesis by (simp add: less_eq_div_iff_mult_less_eq mult.commute)
  qed (use s(6) in blast)
  have "table_span lay \<subseteq> table_span lay'" unfolding table_span_def using e by (intro UN_mono) blast+
  then have out: "w_mem (ms_world s') a = word_of_nat a" if "a \<notin> table_span lay'" for a using that e s(7) by auto
  have "0 < w_alloc (ms_world s')" using e s(5) by (auto simp: lessThan_subset_iff)
  with e 1(2) far out show ?thesis by blast
qed

theorem vm_space_refines_pages_witness:
  "\<exists>s s'. ms_new bump [] \<lparr>w_mem = (\<lambda>a. word_of_nat a), w_alloc = 5\<rparr> = (Ok s, ms_world s)
    \<and> vs_map bump (\<lambda>_. True) [3, 4] (vm_map_options_new\<lparr>mo_addr := Some 0x400000, mo_perm := VM_PERM_W\<rparr>) s = (Ok 0x400000, s')
    \<and> vs_abs s' 0x400000 = Some (3, example_flags) \<and> vs_abs s' 0x401000 = Some (4, example_flags) \<and> vs_abs s' 0x402000 = None"
proof -
  let ?o = "vm_map_options_new\<lparr>mo_addr := Some 0x400000, mo_perm := VM_PERM_W\<rparr>"
  from example_space obtain s lay where
    s: "ms_new bump [] \<lparr>w_mem = (\<lambda>a. word_of_nat a), w_alloc = 5\<rparr> = (Ok s, ms_world s)" "ms_inv (\<lambda>s. {..<s}) lay s" "ms_areas s = []"
      "can_alloc bump 90 (w_alloc (ms_world s))" "\<forall>f \<in> {3, 4}. data_frame (\<lambda>s. {..<s}) lay (ms_world s) f" by blast
  have empty: "vs_abs s = Map.empty" using s(3) by (simp add: vs_abs_def fun_eq_iff)
  have "canon_ok (\<lambda>_. True)" "(0x400000 :: nat) mod PAGE_SIZE = 0" "0x400000 + length [3 :: vm_frame, 4] * PAGE_SIZE \<le> 2 ^ 47"
    "\<forall>f \<in> set [3, 4]. data_frame (\<lambda>s. {..<s}) lay (ms_world s) f" "can_alloc bump (3 * length [3 :: vm_frame, 4]) (w_alloc (ms_world s))"
    "mo_addr ?o = Some 0x400000"
    using s(4,5) by (simp_all add: canon_ok_def bump_avail)
  note p = vm_space_refines_pages [where perm = VM_PERM_W, OF bump_ok this(1) s(2) this(2-6)]
  have "\<not> mo_can_overwrite ?o" by (simp add: vm_map_options_new_def)
  with p obtain lay' s' where 1: "vs_map bump (\<lambda>_. True) [3, 4] ?o s = (Ok 0x400000, s')"
    "ms_effect (\<lambda>s. {..<s}) lay s lay' s' (Map.empty ++ map_of (zip (pages 0x400000 (Suc (Suc 0))) (map (\<lambda>f. (f, flags_of_perm VM_PERM_W)) [3, 4])))"
    by (auto simp: empty list_all_iff Let_def)
  have "pages 0x400000 (Suc (Suc 0)) = [0x400000, 0x401000]" by (simp add: pages_def)
  then have "vs_abs s' = map_of example_pages"
    using 1(2) by (simp add: ms_effect_def example_pages_def example_flags_def)
  with s(1) 1(1) show ?thesis by (auto simp: example_pages_def)
qed

text \<open>(C2) Writing to an address space and reading back. The kernel writes the \<open>n\<close> bytes of a buffer at a user address: the
  call succeeds exactly when every page of the range is mapped writable, and otherwise fails with \<open>PageFault\<close>. Whatever
  the result, only bytes of the range in writable pages change: read-only pages, other pages, page tables and the rest of
  the memory stay as they are. Reading the range then succeeds exactly when every page is mapped, changes nothing but the
  buffer, and returns the bytes of the range; after a successful write these are the bytes written.\<close>

theorem vm_space_io:
  assumes "ms_inv used lay s" and "private_frames s" and "kernel_buffer lay s p n" and "kernel_buffer lay s q n"
  shows "\<exists>s' s''. ms_write_bytes addr (p, n) s
        = (if covered writable_area (ms_areas s) addr n then Ok () else Inl (Throws PageFault), s')
    \<and> ms_inv used lay s' \<and> vs_abs s' = vs_abs s
    \<and> (\<forall>x. x \<notin> uaddr (ms_areas s) ` touched writable_area (ms_areas s) addr n \<longrightarrow> w_mem (ms_world s') x = w_mem (ms_world s) x)
    \<and> (\<forall>v. on_page (\<lambda>_. True) (ms_areas s) v \<and> v \<notin> touched writable_area (ms_areas s) addr n \<longrightarrow> user_byte s' v = user_byte s v)
    \<and> ms_read_bytes addr (q, n) s' = (if covered (\<lambda>_. True) (ms_areas s) addr n then Ok () else Inl (Throws PageFault), s'')
    \<and> ms_inv used lay s'' \<and> vs_abs s'' = vs_abs s
    \<and> (\<forall>x. x < q \<or> q + n \<le> x \<longrightarrow> w_mem (ms_world s'') x = w_mem (ms_world s') x)
    \<and> (covered (\<lambda>_. True) (ms_areas s) addr n \<longrightarrow> bytes_at (w_mem (ms_world s'')) q n = map (user_byte s') [addr..<addr + n])
    \<and> (covered writable_area (ms_areas s) addr n \<longrightarrow> bytes_at (w_mem (ms_world s'')) q n = bytes_at (w_mem (ms_world s)) p n)"
proof -
  let ?W = writable_area and ?T = "\<lambda>_ :: map_area. True" and ?xs = "ms_areas s"
  from ms_write_bytes_spec [OF assms(1-3), of addr] obtain s' where
    w: "ms_write_bytes addr (p, n) s = (if covered ?W ?xs addr n then Ok () else Inl (Throws PageFault), s')"
      "ms_inv used lay s'" "ms_areas s' = ?xs"
      "\<And>x. x \<notin> uaddr ?xs ` touched ?W ?xs addr n \<Longrightarrow> w_mem (ms_world s') x = w_mem (ms_world s) x"
      "\<And>i. covered ?W ?xs addr n \<Longrightarrow> i < n \<Longrightarrow> user_byte s' (addr + i) = w_mem (ms_world s) (p + i)" by blast
  have abs': "vs_abs s' = vs_abs s" using w(3) by (simp add: vs_abs_def fun_eq_iff)
  have "kernel_buffer lay s' q n" using assms(4) by (simp add: kernel_buffer_def abs')
  from ms_read_bytes_spec [OF w(2) this, of addr] obtain t where
    r: "ms_read_bytes addr (q, n) s' = (if covered ?T ?xs addr n then Ok () else Inl (Throws PageFault), t)"
      "ms_inv used lay t" "ms_areas t = ?xs" "\<And>x. x < q \<or> q + n \<le> x \<Longrightarrow> w_mem (ms_world t) x = w_mem (ms_world s') x"
      "\<And>i. covered ?T ?xs addr n \<Longrightarrow> i < n \<Longrightarrow> w_mem (ms_world t) (q + i) = user_byte s' (addr + i)" unfolding w(3) by blast
  have abs2: "vs_abs t = vs_abs s" using r(3) by (simp add: vs_abs_def fun_eq_iff)
  have keep: "user_byte s' v = user_byte s v" if "on_page ?T ?xs v" "v \<notin> touched ?W ?xs addr n" for v
  proof -
    have "uaddr ?xs v \<notin> uaddr ?xs ` touched ?W ?xs addr n"
      using that uaddr_inj [OF assms(2) that(1)] by (auto simp: touched_def)
    then show ?thesis using w(3,4) by (simp add: user_byte_def)
  qed
  have weak: "covered ?T ?xs addr n" if "covered ?W ?xs addr n" using that by (auto simp: covered_def on_page_def)
  have reread: "bytes_at (w_mem (ms_world t)) q n = map (user_byte s') [addr..<addr + n]" if "covered ?T ?xs addr n"
    using r(5) [OF that] by (intro nth_equalityI) simp_all
  have "bytes_at (w_mem (ms_world t)) q n = bytes_at (w_mem (ms_world s)) p n" if "covered ?W ?xs addr n"
    using r(5) [OF weak [OF that]] w(5) [OF that] by (intro nth_equalityI) simp_all
  with w(1,2,4) r(1,2,4) abs' abs2 keep reread show ?thesis by (intro exI [of _ s'] exI [of _ t]) blast
qed

theorem vm_space_io_witness:
  "\<exists>(s :: nat vms) s' s''. vs_abs s = map_of example_pages \<and> ms_write_bytes 0x400ffe (100, 4) s = (Ok (), s')
    \<and> ms_read_bytes 0x400ffe (200, 4) s' = (Ok (), s'') \<and> bytes_at (w_mem (ms_world s'')) 200 4 = bytes_at (w_mem (ms_world s)) 100 4"
proof -
  from example_mapped obtain s lay where s: "ms_inv (\<lambda>s. {..<s}) lay s" "vs_abs s = map_of example_pages" by blast
  have span: "{p..<p + n} \<inter> table_span lay = {}" if "p + n \<le> 1000" for p n
    using that by (auto simp: table_span_def paddr_to_vaddr_def PHYS_MEM_BASE_VADDR_def)
  have priv: "private_frames s" by (simp add: private_frames_def s(2) example_pages_def start_paddr_examples)
  have buf: "kernel_buffer lay s p n" if "p + n \<le> 1000" for p n
    using that span [OF that]
    by (auto simp: kernel_buffer_def s(2) example_pages_def frame_span_def frame_ptr_def paddr_to_vaddr_def PHYS_MEM_BASE_VADDR_def split: if_splits)
  have "on_page writable_area (ms_areas s) v" if "0x400ffe \<le> v" "v < 0x401002" for v
  proof -
    have "upage v = 0x400000 \<or> upage v = 0x401000"
      using that upage_iff [of "0x400000" v] upage_iff [of "0x401000" v] by auto
    then obtain f where "vs_abs s (upage v) = Some (f, example_flags)" by (auto simp: s(2) example_pages_def)
    then show ?thesis using flags_of_perm_writable [of VM_PERM_W] by (auto simp: on_page_def vs_abs_def writable_area_def example_flags_def)
  qed
  then have cov: "covered writable_area (ms_areas s) 0x400ffe 4" by (simp add: covered_def)
  then have "covered (\<lambda>_. True) (ms_areas s) 0x400ffe 4" by (auto simp: covered_def on_page_def)
  moreover obtain s' s'' where
    "ms_write_bytes 0x400ffe (100, 4) s = (if covered writable_area (ms_areas s) 0x400ffe 4 then Ok () else Inl (Throws PageFault), s')"
    "ms_read_bytes 0x400ffe (200, 4) s' = (if covered (\<lambda>_. True) (ms_areas s) 0x400ffe 4 then Ok () else Inl (Throws PageFault), s'')"
    "covered writable_area (ms_areas s) 0x400ffe 4 \<longrightarrow> bytes_at (w_mem (ms_world s'')) 200 4 = bytes_at (w_mem (ms_world s)) 100 4"
    using vm_space_io [OF s(1) priv buf [of 100 4] buf [of 200 4], of "0x400ffe"] by auto
  ultimately show ?thesis using cov s(2) by (intro exI [of _ s] exI [of _ s'] exI [of _ s'']) simp
qed

text \<open>(C17) A deep copy of an address space maps the same pages to the same frames with the same flags, so that every user
  address reads the same byte in both. Its tables are frames that were not in use before, none of them a table of the
  original, whose own page table and memory stay as they are: both satisfy the invariant in the new state, and unmapping
  a page of the copy leaves the original as it is.\<close>

theorem vm_space_deep_copy:
  assumes "frame_alloc_ok fa used" and "canon_ok canon" and "ms_inv used lay s"
    and "can_alloc fa (Suc (3 * length (ms_areas s))) (w_alloc (ms_world s))" and "0 \<in> used (w_alloc (ms_world s))"
    and "\<forall>(i, e) \<in> set kptes. 256 \<le> i \<and> i < 512"
  shows "\<exists>lay' s'. ms_clone fa canon kptes s = (Ok (), s') \<and> ms_inv used lay' s' \<and> vs_abs s' = vs_abs s
    \<and> ms_inv used lay (s\<lparr>ms_world := ms_world s'\<rparr>) \<and> dom lay \<inter> dom lay' = {}
    \<and> (\<forall>t \<in> dom lay'. t div PAGE_SIZE \<notin> used (w_alloc (ms_world s)))
    \<and> (\<forall>v. on_page (\<lambda>_. True) (ms_areas s) v \<longrightarrow> user_byte s' v = user_byte s v)
    \<and> (\<forall>va s2. fst (ms_unmap fa canon va s') = Ok () \<and> s2 = snd (ms_unmap fa canon va s')
         \<longrightarrow> vs_abs s2 = (vs_abs s)(va := None) \<and> ms_inv used lay (s\<lparr>ms_world := ms_world s2\<rparr>))"
proof -
  have "can_alloc fa (Suc (3 * length (ms_areas s) + 0)) (w_alloc (ms_world s))" using assms(4) by simp
  from ms_clone_spec [OF assms(1-3) this assms(5,6)] obtain lay' s' where
    1: "ms_clone fa canon kptes s = (Ok (), s')" "ms_inv used lay' s'" "vs_abs s' = vs_abs s"
      "ms_inv used lay (s\<lparr>ms_world := ms_world s'\<rparr>)" "dom lay \<inter> dom lay' = {}"
      "\<forall>a. a \<notin> table_span lay' \<longrightarrow> w_mem (ms_world s') a = w_mem (ms_world s) a"
      "\<forall>t \<in> dom lay'. t div PAGE_SIZE \<notin> used (w_alloc (ms_world s))" by blast
  have bytes: "user_byte s' v = user_byte s v" if on: "on_page (\<lambda>_. True) (ms_areas s) v" for v
  proof -
    from on_page_frame [OF on] obtain f fl where f: "vs_abs s (upage v) = Some (f, fl)" "uaddr (ms_areas s) v = frame_ptr f + v mod PAGE_SIZE" .
    have f': "vs_abs s' (upage v) = Some (f, fl)" using f(1) 1(3) by simp
    then have "on_page (\<lambda>_. True) (ms_areas s') v" by (auto simp: on_page_def vs_abs_def)
    moreover from f' have "uaddr (ms_areas s') v = frame_ptr f + v mod PAGE_SIZE" by (auto simp: uaddr_def vs_abs_def)
    ultimately have "uaddr (ms_areas s') v \<notin> table_span lay'" "uaddr (ms_areas s') v = uaddr (ms_areas s) v"
      using uaddr_not_table [OF 1(2)] f(2) by metis+
    then show ?thesis using 1(6) by (simp add: user_byte_def)
  qed
  have span: "a \<notin> table_span lay'" if "a \<in> table_span lay" for a
  proof
    assume "a \<in> table_span lay'"
    with that obtain t t' where t: "t \<in> dom lay" "t' \<in> dom lay'" "paddr_to_vaddr t \<le> a" "a < paddr_to_vaddr t + PAGE_SIZE"
      "paddr_to_vaddr t' \<le> a" "a < paddr_to_vaddr t' + PAGE_SIZE" unfolding table_span_def by force
    with frame_table_disjoint [OF pt_inv_tables(1) [OF ms_invD(1) [OF assms(3)] t(1)] pt_inv_tables(1) [OF ms_invD(1) [OF 1(2)] t(2)]] 1(5)
    show False by fastforce
  qed
  have "vs_abs s2 = (vs_abs s)(va := None) \<and> ms_inv used lay (s\<lparr>ms_world := ms_world s2\<rparr>)"
    if "ms_unmap fa canon va s' = (Ok (), s2)" for va s2
  proof -
    from ms_unmap_page [where canon = canon and fa = fa and va = va, OF 1(2) assms(2)] that
    have e: "ms_effect used lay' s' lay' s2 ((vs_abs s')(va := None))" by (auto split: option.splits if_splits)
    have "used (w_alloc (ms_world s')) \<subseteq> used (w_alloc (ms_world s2))"
      "\<And>a. a \<in> table_span lay \<Longrightarrow> w_mem (ms_world s2) a = w_mem (ms_world s') a"
      using e span by (auto simp: ms_effect_def)
    then have "ms_inv used lay (s\<lparr>ms_world := ms_world s', ms_world := ms_world s2\<rparr>)"
      by (intro ms_inv_outside [OF 1(4)]) simp_all
    with e 1(3) show ?thesis by (simp add: ms_effect_def)
  qed
  then have "\<forall>va s2. fst (ms_unmap fa canon va s') = Ok () \<and> s2 = snd (ms_unmap fa canon va s')
      \<longrightarrow> vs_abs s2 = (vs_abs s)(va := None) \<and> ms_inv used lay (s\<lparr>ms_world := ms_world s2\<rparr>)"
    by (metis prod.collapse)
  with 1 bytes show ?thesis by (intro exI [of _ lay'] exI [of _ s']) blast
qed

theorem vm_space_deep_copy_witness:
  "\<exists>s s'. vs_abs s = map_of example_pages \<and> ms_clone bump (\<lambda>_. True) [(256, 99)] s = (Ok (), s') \<and> vs_abs s' = map_of example_pages
    \<and> user_byte s' 0x400ffe = user_byte s 0x400ffe"
proof -
  from example_mapped obtain s lay where s: "ms_inv (\<lambda>s. {..<s}) lay s" "vs_abs s = map_of example_pages" "can_alloc bump 84 (w_alloc (ms_world s))"
    "0 < w_alloc (ms_world s)" by blast
  have "fst ` set (ms_areas s) = dom (vs_abs s)"
    by (auto simp: vs_abs_def dom_map_of_conv_image_fst [symmetric] domIff)
  then have "length (ms_areas s) = card (dom (vs_abs s))"
    using bt_ok_distinct [OF ms_invD(2) [OF s(1)]] by (metis distinct_card length_map list.set_map)
  also have "dom (vs_abs s) = {0x400000, 0x401000}" by (auto simp: s(2) example_pages_def split: if_splits)
  finally have "can_alloc bump (Suc (3 * length (ms_areas s))) (w_alloc (ms_world s))" using s(3) by (simp add: bump_avail)
  from vm_space_deep_copy [where canon = "\<lambda>_. True" and kptes = "[(256, 99)]", OF bump_ok _ s(1) this]
  obtain s' where "ms_clone bump (\<lambda>_. True) [(256, 99)] s = (Ok (), s')" "vs_abs s' = vs_abs s"
    "on_page (\<lambda>_. True) (ms_areas s) 0x400ffe \<longrightarrow> user_byte s' 0x400ffe = user_byte s 0x400ffe" using s(4) by (auto simp: canon_ok_def)
  moreover have "on_page (\<lambda>_. True) (ms_areas s) 0x400ffe"
    using s(2) [THEN fun_cong, of "0x400000"] by (auto simp: on_page_def upage_def vs_abs_def example_pages_def)
  ultimately show ?thesis using s(2) by auto
qed

end
