(* ===== verification/Ramfs.thy ===== *)
theory Ramfs
  imports Slot_Vec
begin

text \<open>
  \<open>kernel/aster-nix/src/fs/ramfs/fs.rs\<close>: the directories of the in-memory file system. The state is the file system's
  inodes by number; an inode is never removed from it, since a directory entry, the dentry cache or an open file may
  hold a reference, and no number is given twice, so an inode's number stands for its \<open>Arc\<close>. Names are byte strings,
  the bytes of a Rust \<open>str\<close>. The page cache of a regular file is a parameter \<open>'pc\<close>, a device is \<open>'dev\<close>.
  Every operation runs under the write lock of its inodes, so it is one step here.
\<close>

section \<open>Names\<close>

type_synonym name = "u8 list"

definition cont_byte :: "u8 \<Rightarrow> bool" where "cont_byte b \<longleftrightarrow> 0x80 \<le> b \<and> b \<le> 0xBF"

text \<open>The byte strings that \<open>core::str::from_utf8\<close> accepts.\<close>

fun utf8_valid :: "u8 list \<Rightarrow> bool" where
  "utf8_valid [] = True"
| "utf8_valid (a # bs) =
    (if a < 0x80 then utf8_valid bs
     else case bs of
       [] \<Rightarrow> False
     | b # cs \<Rightarrow>
         if 0xC2 \<le> a \<and> a \<le> 0xDF then cont_byte b \<and> utf8_valid cs
         else case cs of
           [] \<Rightarrow> False
         | c # ds \<Rightarrow>
             if 0xE0 \<le> a \<and> a \<le> 0xEF
             then cont_byte b \<and> (a = 0xE0 \<longrightarrow> 0xA0 \<le> b) \<and> (a = 0xED \<longrightarrow> b \<le> 0x9F) \<and> cont_byte c \<and> utf8_valid ds
             else case ds of
               [] \<Rightarrow> False
             | d # es \<Rightarrow>
                 0xF0 \<le> a \<and> a \<le> 0xF4 \<and> cont_byte b \<and> (a = 0xF0 \<longrightarrow> 0x90 \<le> b) \<and> (a = 0xF4 \<longrightarrow> b \<le> 0x8F)
                 \<and> cont_byte c \<and> cont_byte d \<and> utf8_valid es)"

text \<open>\<open>CStr256::from\<close> keeps the bytes before the first NUL and at most 255 of them; \<open>as_str().unwrap()\<close> panics on bytes
  that are not UTF-8.\<close>

definition cstr256 :: "name \<Rightarrow> name" where "cstr256 bs = take 255 (takeWhile (\<lambda>b. b \<noteq> 0) bs)"

definition as_str :: "name \<Rightarrow> name res" where "as_str c = (if utf8_valid c then Ok c else panic)"

definition DOT :: name where "DOT = [46]"
definition DOTDOT :: name where "DOTDOT = [46, 46]"

definition NAME_MAX :: nat where "NAME_MAX = 255"
definition BLOCK_SIZE :: nat where "BLOCK_SIZE = 4096"
definition ROOT_INO :: nat where "ROOT_INO = 1"

section \<open>Inodes\<close>

datatype inode_type = NamedPipe | CharDevice | Dir | BlockDevice | File | SymLink | Socket

datatype device_type = CharDev | BlockDev | MiscDev

fun inode_type_of_device :: "device_type \<Rightarrow> inode_type" where
  "inode_type_of_device CharDev = CharDevice"
| "inode_type_of_device BlockDev = BlockDevice"
| "inode_type_of_device MiscDev = CharDevice"

record metadata =
  md_ino :: nat
  md_size :: nat
  md_blk_size :: nat
  md_blocks :: nat
  md_atime :: nat
  md_mtime :: nat
  md_ctime :: nat
  md_type :: inode_type
  md_mode :: u16
  md_nlinks :: nat
  md_uid :: u32
  md_gid :: u32
  md_rdev :: u64

definition metadata_new_dir :: "nat \<Rightarrow> u16 \<Rightarrow> metadata" where
  "metadata_new_dir ino mode = \<lparr>md_ino = ino, md_size = 2, md_blk_size = BLOCK_SIZE, md_blocks = 1, md_atime = 0,
     md_mtime = 0, md_ctime = 0, md_type = Dir, md_mode = mode, md_nlinks = 2, md_uid = 0, md_gid = 0, md_rdev = 0\<rparr>"

definition metadata_new_file :: "nat \<Rightarrow> u16 \<Rightarrow> metadata" where
  "metadata_new_file ino mode = \<lparr>md_ino = ino, md_size = 0, md_blk_size = BLOCK_SIZE, md_blocks = 0, md_atime = 0,
     md_mtime = 0, md_ctime = 0, md_type = File, md_mode = mode, md_nlinks = 1, md_uid = 0, md_gid = 0, md_rdev = 0\<rparr>"

definition metadata_new_symlink :: "nat \<Rightarrow> u16 \<Rightarrow> metadata" where
  "metadata_new_symlink ino mode = \<lparr>md_ino = ino, md_size = 0, md_blk_size = BLOCK_SIZE, md_blocks = 0, md_atime = 0,
     md_mtime = 0, md_ctime = 0, md_type = SymLink, md_mode = mode, md_nlinks = 1, md_uid = 0, md_gid = 0, md_rdev = 0\<rparr>"

definition metadata_new_device :: "nat \<Rightarrow> u16 \<Rightarrow> device_type \<Rightarrow> u64 \<Rightarrow> metadata" where
  "metadata_new_device ino mode dtype did = \<lparr>md_ino = ino, md_size = 0, md_blk_size = BLOCK_SIZE, md_blocks = 0, md_atime = 0,
     md_mtime = 0, md_ctime = 0, md_type = inode_type_of_device dtype, md_mode = mode, md_nlinks = 1, md_uid = 0, md_gid = 0,
     md_rdev = did\<rparr>"

definition metadata_new_socket :: "nat \<Rightarrow> u16 \<Rightarrow> metadata" where
  "metadata_new_socket ino mode = \<lparr>md_ino = ino, md_size = 0, md_blk_size = BLOCK_SIZE, md_blocks = 0, md_atime = 0,
     md_mtime = 0, md_ctime = 0, md_type = Socket, md_mode = mode, md_nlinks = 1, md_uid = 0, md_gid = 0, md_rdev = 0\<rparr>"

text \<open>A weak reference is the number of the inode, or none before \<open>init\<close>.\<close>

record dir_entry =
  de_children :: "(name \<times> nat) slot_vec"
  de_this :: "nat option"
  de_parent :: "nat option"

datatype ('pc, 'dev) inner =
  DirInner dir_entry | FileInner 'pc | SymLinkInner name | DeviceInner 'dev | SocketInner

record ('pc, 'dev) ram_inode =
  in_inner :: "('pc, 'dev) inner"
  in_meta :: metadata
  in_this :: "nat option"

record ('pc, 'dev) ramfs =
  rf_inodes :: "nat \<rightharpoonup> ('pc, 'dev) ram_inode"
  rf_next :: nat
  rf_files :: nat

definition inc_size :: "('pc, 'dev) ram_inode \<Rightarrow> ('pc, 'dev) ram_inode" where
  "inc_size n = (let sz = md_size (in_meta n) + 1
     in n\<lparr>in_meta := (in_meta n)\<lparr>md_size := sz, md_blocks := (sz + BLOCK_SIZE - 1) div BLOCK_SIZE\<rparr>\<rparr>)"

definition dec_size :: "('pc, 'dev) ram_inode \<Rightarrow> ('pc, 'dev) ram_inode res" where
  "dec_size n = (if \<not> md_size (in_meta n) > 0 then panic
     else let sz = md_size (in_meta n) - 1
          in Ok (n\<lparr>in_meta := (in_meta n)\<lparr>md_size := sz, md_blocks := (sz + BLOCK_SIZE - 1) div BLOCK_SIZE\<rparr>\<rparr>))"

definition inc_nlinks :: "('pc, 'dev) ram_inode \<Rightarrow> ('pc, 'dev) ram_inode" where
  "inc_nlinks n = n\<lparr>in_meta := (in_meta n)\<lparr>md_nlinks := md_nlinks (in_meta n) + 1\<rparr>\<rparr>"

definition dec_nlinks :: "('pc, 'dev) ram_inode \<Rightarrow> ('pc, 'dev) ram_inode res" where
  "dec_nlinks n = (if \<not> md_nlinks (in_meta n) > 0 then panic
     else Ok (n\<lparr>in_meta := (in_meta n)\<lparr>md_nlinks := md_nlinks (in_meta n) - 1\<rparr>\<rparr>))"

text \<open>\<open>as_direntry().unwrap()\<close>, and an update of the directory behind it.\<close>

definition as_direntry :: "('pc, 'dev) ram_inode \<Rightarrow> dir_entry res" where
  "as_direntry n = (case in_inner n of DirInner d \<Rightarrow> Ok d | _ \<Rightarrow> panic)"

definition upd_dir :: "(dir_entry \<Rightarrow> dir_entry res) \<Rightarrow> ('pc, 'dev) ram_inode \<Rightarrow> ('pc, 'dev) ram_inode res" where
  "upd_dir f n = bind_res (as_direntry n) (\<lambda>d. bind_res (f d) (\<lambda>d'. Ok (n\<lparr>in_inner := DirInner d'\<rparr>)))"

section \<open>Directory entries\<close>

definition dir_entry_new :: dir_entry where
  "dir_entry_new = \<lparr>de_children = sv_new, de_this = None, de_parent = None\<rparr>"

definition set_parent :: "nat option \<Rightarrow> dir_entry \<Rightarrow> dir_entry" where
  "set_parent parent d = d\<lparr>de_parent := parent\<rparr>"

definition dir_init :: "nat option \<Rightarrow> nat option \<Rightarrow> dir_entry \<Rightarrow> dir_entry" where
  "dir_init this parent d = set_parent parent (d\<lparr>de_this := this\<rparr>)"

fun any_entry :: "name \<Rightarrow> (name \<times> nat) list \<Rightarrow> bool res" where
  "any_entry nm [] = Ok False"
| "any_entry nm ((child, _) # rest) =
    bind_res (as_str child) (\<lambda>c. if c = nm then Ok True else any_entry nm rest)"

definition contains_entry :: "name \<Rightarrow> dir_entry \<Rightarrow> bool res" where
  "contains_entry nm d = (if nm = DOT \<or> nm = DOTDOT then Ok True else any_entry nm (sv_iter (de_children d)))"

fun find_entry :: "name \<Rightarrow> (nat \<times> name \<times> nat) list \<Rightarrow> (nat \<times> nat) option res" where
  "find_entry nm [] = Ok None"
| "find_entry nm ((idx, child, i) # rest) =
    bind_res (as_str child) (\<lambda>c. if c = nm then Ok (Some (idx + 2, i)) else find_entry nm rest)"

definition upgrade :: "nat option \<Rightarrow> nat res" where
  "upgrade r = (case r of None \<Rightarrow> panic | Some i \<Rightarrow> Ok i)"

definition dir_get_entry :: "name \<Rightarrow> dir_entry \<Rightarrow> (nat \<times> nat) option res" where
  "dir_get_entry nm d =
    (if nm = DOT then bind_res (upgrade (de_this d)) (\<lambda>i. Ok (Some (0, i)))
     else if nm = DOTDOT then bind_res (upgrade (de_parent d)) (\<lambda>i. Ok (Some (1, i)))
     else find_entry nm (idxes_and_items (de_children d)))"

definition append_entry :: "name \<Rightarrow> nat \<Rightarrow> dir_entry \<Rightarrow> dir_entry res" where
  "append_entry nm i d = (case sv_put (cstr256 nm, i) (de_children d) of
     None \<Rightarrow> panic | Some (_, v) \<Rightarrow> Ok (d\<lparr>de_children := v\<rparr>))"

definition remove_entry :: "nat \<Rightarrow> dir_entry \<Rightarrow> dir_entry res" where
  "remove_entry idx d = (if \<not> idx \<ge> 2 then panic else Ok (d\<lparr>de_children := snd (sv_remove (idx - 2) (de_children d))\<rparr>))"

definition substitute_entry :: "nat \<Rightarrow> name \<times> nat \<Rightarrow> dir_entry \<Rightarrow> dir_entry res" where
  "substitute_entry idx e d = (if \<not> idx \<ge> 2 then panic else Ok (d\<lparr>de_children := snd (sv_put_at (idx - 2) e (de_children d))\<rparr>))"

definition is_empty_children :: "dir_entry \<Rightarrow> bool" where
  "is_empty_children d = sv_is_empty (de_children d)"

section \<open>Access to the inodes\<close>

text \<open>The inode behind a reference, which is always there, and an update of it.\<close>

definition rd :: "nat \<Rightarrow> (('pc, 'dev) ramfs, ('pc, 'dev) ram_inode) sr" where
  "rd i s = (case rf_inodes s i of None \<Rightarrow> (panic, s) | Some n \<Rightarrow> (Ok n, s))"

definition wr :: "nat \<Rightarrow> (('pc, 'dev) ram_inode \<Rightarrow> ('pc, 'dev) ram_inode res) \<Rightarrow> (('pc, 'dev) ramfs, unit) sr" where
  "wr i f s = (case rf_inodes s i of
     None \<Rightarrow> (panic, s)
   | Some n \<Rightarrow> (case f n of Inl e \<Rightarrow> (Inl e, s) | Inr n' \<Rightarrow> (Ok (), s\<lparr>rf_inodes := (rf_inodes s)(i \<mapsto> n')\<rparr>)))"

definition alloc_id :: "(('pc, 'dev) ramfs, nat) sr" where
  "alloc_id s = (Ok (rf_next s), s\<lparr>rf_next := (rf_next s + 1) mod USIZE_RANGE, rf_files := rf_files s + 1\<rparr>)"

definition new_inode :: "(nat \<Rightarrow> ('pc, 'dev) ram_inode) \<Rightarrow> (('pc, 'dev) ramfs, nat) sr" where
  "new_inode f = sr_bind alloc_id (\<lambda>ino. sr_bind (sr_mod (\<lambda>s. s\<lparr>rf_inodes := (rf_inodes s)(ino \<mapsto> f ino)\<rparr>)) (\<lambda>_. sr_return ino))"

definition new_dir :: "u16 \<Rightarrow> nat option \<Rightarrow> (('pc, 'dev) ramfs, nat) sr" where
  "new_dir mode parent = new_inode (\<lambda>ino. \<lparr>in_inner = DirInner (dir_init (Some ino) parent dir_entry_new),
     in_meta = metadata_new_dir ino mode, in_this = Some ino\<rparr>)"

definition new_file :: "'pc \<Rightarrow> u16 \<Rightarrow> (('pc, 'dev) ramfs, nat) sr" where
  "new_file pc mode = new_inode (\<lambda>ino. \<lparr>in_inner = FileInner pc, in_meta = metadata_new_file ino mode, in_this = Some ino\<rparr>)"

definition new_socket :: "u16 \<Rightarrow> (('pc, 'dev) ramfs, nat) sr" where
  "new_socket mode = new_inode (\<lambda>ino. \<lparr>in_inner = SocketInner, in_meta = metadata_new_socket ino mode, in_this = Some ino\<rparr>)"

definition new_symlink :: "u16 \<Rightarrow> (('pc, 'dev) ramfs, nat) sr" where
  "new_symlink mode = new_inode (\<lambda>ino. \<lparr>in_inner = SymLinkInner [], in_meta = metadata_new_symlink ino mode, in_this = Some ino\<rparr>)"

definition new_device :: "u16 \<Rightarrow> 'dev \<Rightarrow> device_type \<Rightarrow> u64 \<Rightarrow> (('pc, 'dev) ramfs, nat) sr" where
  "new_device mode dev dtype did = new_inode (\<lambda>ino. \<lparr>in_inner = DeviceInner dev, in_meta = metadata_new_device ino mode dtype did,
     in_this = Some ino\<rparr>)"

definition ramfs_new :: "('pc, 'dev) ramfs" where
  "ramfs_new = \<lparr>rf_inodes = [ROOT_INO \<mapsto> \<lparr>in_inner = DirInner (dir_init (Some ROOT_INO) (Some ROOT_INO) dir_entry_new),
      in_meta = metadata_new_dir ROOT_INO 0x1ED, in_this = Some ROOT_INO\<rparr>], rf_next = ROOT_INO + 1, rf_files = 0\<rparr>"

section \<open>Operations of an inode\<close>

definition ri_type :: "('pc, 'dev) ram_inode \<Rightarrow> inode_type" where "ri_type n = md_type (in_meta n)"

text \<open>The checks at the start of the operations of a directory: its type, then its entries under the lock.\<close>

definition dir_of :: "nat \<Rightarrow> (('pc, 'dev) ramfs, dir_entry) sr" where
  "dir_of i = sr_bind (rd i) (\<lambda>n. sr_lift (as_direntry n))"

definition add_child :: "nat \<Rightarrow> name \<Rightarrow> nat \<Rightarrow> (('pc, 'dev) ramfs, unit) sr" where
  "add_child self nm i = sr_bind (wr self (upd_dir (append_entry nm i))) (\<lambda>_. wr self (\<lambda>n. Ok (inc_size n)))"

definition ri_create :: "'pc \<Rightarrow> nat \<Rightarrow> name \<Rightarrow> inode_type \<Rightarrow> u16 \<Rightarrow> (('pc, 'dev) ramfs, nat) sr" where
  "ri_create pc self nm ty mode =
    sr_bind (rd self) (\<lambda>n.
    if ri_type n \<noteq> Dir then sr_lift (Err ENOTDIR)
    else if length nm > NAME_MAX then sr_lift (Err ENAMETOOLONG)
    else sr_bind (dir_of self) (\<lambda>d. sr_bind (sr_lift (contains_entry nm d)) (\<lambda>found.
    if found then sr_lift (Err EEXIST)
    else sr_bind (case ty of
             File \<Rightarrow> new_file pc mode
           | SymLink \<Rightarrow> new_symlink mode
           | Socket \<Rightarrow> new_socket mode
           | Dir \<Rightarrow> sr_bind (new_dir mode (in_this n)) (\<lambda>i. sr_bind (wr self (\<lambda>n. Ok (inc_nlinks n))) (\<lambda>_. sr_return i))
           | _ \<Rightarrow> sr_lift panic) (\<lambda>i.
         sr_bind (add_child self nm i) (\<lambda>_. sr_return i)))))"

definition ri_mknod :: "nat \<Rightarrow> name \<Rightarrow> u16 \<Rightarrow> 'dev \<Rightarrow> device_type \<Rightarrow> u64 \<Rightarrow> (('pc, 'dev) ramfs, nat) sr" where
  "ri_mknod self nm mode dev dtype did =
    sr_bind (rd self) (\<lambda>n.
    if ri_type n \<noteq> Dir then sr_lift (Err ENOTDIR)
    else if length nm > NAME_MAX then sr_lift (Err ENAMETOOLONG)
    else sr_bind (dir_of self) (\<lambda>d. sr_bind (sr_lift (contains_entry nm d)) (\<lambda>found.
    if found then sr_lift (Err EEXIST)
    else sr_bind (new_device mode dev dtype did) (\<lambda>i. sr_bind (add_child self nm i) (\<lambda>_. sr_return i)))))"

text \<open>The inode an operation names besides its own: one of this file system, or of another one.\<close>

datatype inode_ref = Local nat | Foreign

definition ri_link :: "nat \<Rightarrow> inode_ref \<Rightarrow> name \<Rightarrow> (('pc, 'dev) ramfs, unit) sr" where
  "ri_link self old nm =
    sr_bind (rd self) (\<lambda>n.
    if ri_type n \<noteq> Dir then sr_lift (Err ENOTDIR)
    else case old of
      Foreign \<Rightarrow> sr_lift (Err EXDEV)
    | Local i \<Rightarrow> sr_bind (rd i) (\<lambda>old_n.
        if ri_type old_n = Dir then sr_lift (Err EPERM)
        else sr_bind (dir_of self) (\<lambda>d. sr_bind (sr_lift (contains_entry nm d)) (\<lambda>found.
        if found then sr_lift (Err EEXIST)
        else sr_bind (sr_lift (upgrade (in_this old_n))) (\<lambda>t.
             sr_bind (add_child self nm t) (\<lambda>_. wr i (\<lambda>n. Ok (inc_nlinks n))))))))"

definition entry_or_enoent :: "name \<Rightarrow> dir_entry \<Rightarrow> (nat \<times> nat) res" where
  "entry_or_enoent nm d = bind_res (dir_get_entry nm d) (\<lambda>r. case r of None \<Rightarrow> Err ENOENT | Some p \<Rightarrow> Ok p)"

definition del_child :: "nat \<Rightarrow> nat \<Rightarrow> (('pc, 'dev) ramfs, unit) sr" where
  "del_child self idx = sr_bind (wr self (upd_dir (remove_entry idx))) (\<lambda>_. wr self dec_size)"

definition ri_unlink :: "nat \<Rightarrow> name \<Rightarrow> (('pc, 'dev) ramfs, unit) sr" where
  "ri_unlink self nm =
    sr_bind (rd self) (\<lambda>n.
    if ri_type n \<noteq> Dir then sr_lift (Err ENOTDIR)
    else if nm = DOT \<or> nm = DOTDOT then sr_lift (Err EISDIR)
    else sr_bind (dir_of self) (\<lambda>d. sr_bind (sr_lift (entry_or_enoent nm d)) (\<lambda>(idx, target).
         sr_bind (rd target) (\<lambda>t.
         if ri_type t = Dir then sr_lift (Err EISDIR)
         else sr_bind (del_child self idx) (\<lambda>_. wr target dec_nlinks)))))"

definition ri_rmdir :: "nat \<Rightarrow> name \<Rightarrow> (('pc, 'dev) ramfs, unit) sr" where
  "ri_rmdir self nm =
    sr_bind (rd self) (\<lambda>n.
    if ri_type n \<noteq> Dir then sr_lift (Err ENOTDIR)
    else if nm = DOT then sr_lift (Err EINVAL)
    else if nm = DOTDOT then sr_lift (Err ENOTEMPTY)
    else sr_bind (dir_of self) (\<lambda>d. sr_bind (sr_lift (entry_or_enoent nm d)) (\<lambda>(idx, target).
         sr_bind (rd target) (\<lambda>t.
         if ri_type t \<noteq> Dir then sr_lift (Err ENOTDIR)
         else sr_bind (sr_lift (as_direntry t)) (\<lambda>td.
         if \<not> is_empty_children td then sr_lift (Err ENOTEMPTY)
         else sr_bind (del_child self idx) (\<lambda>_. sr_bind (wr self dec_nlinks) (\<lambda>_.
              sr_bind (wr target dec_nlinks) (\<lambda>_. wr target dec_nlinks))))))))"

definition ri_lookup :: "nat \<Rightarrow> name \<Rightarrow> (('pc, 'dev) ramfs, nat) sr" where
  "ri_lookup self nm =
    sr_bind (rd self) (\<lambda>n.
    if ri_type n \<noteq> Dir then sr_lift (Err ENOTDIR)
    else sr_bind (dir_of self) (\<lambda>d. sr_bind (sr_lift (entry_or_enoent nm d)) (\<lambda>(_, i). sr_return i)))"

definition check_replace_inode :: "nat \<Rightarrow> nat \<Rightarrow> (('pc, 'dev) ramfs, unit) sr" where
  "check_replace_inode src dst =
    sr_bind (rd src) (\<lambda>a. sr_bind (rd dst) (\<lambda>b.
    if md_ino (in_meta a) = md_ino (in_meta b) then sr_return ()
    else case (ri_type a, ri_type b) of
      (Dir, Dir) \<Rightarrow> sr_bind (sr_lift (as_direntry b)) (\<lambda>d. if \<not> is_empty_children d then sr_lift (Err ENOTEMPTY) else sr_return ())
    | (Dir, _) \<Rightarrow> sr_lift (Err ENOTDIR)
    | (_, Dir) \<Rightarrow> sr_lift (Err EISDIR)
    | _ \<Rightarrow> sr_return ()))"

definition rename_same :: "nat \<Rightarrow> name \<Rightarrow> name \<Rightarrow> (('pc, 'dev) ramfs, unit) sr" where
  "rename_same self old_name new_name =
    sr_bind (dir_of self) (\<lambda>d.
    sr_bind (sr_lift (entry_or_enoent old_name d)) (\<lambda>(src_idx, src).
    sr_bind (rd src) (\<lambda>sn.
    sr_bind (sr_lift (dir_get_entry new_name d)) (\<lambda>r.
    case r of
      Some (dst_idx, dst) \<Rightarrow>
        sr_bind (check_replace_inode src dst) (\<lambda>_.
        sr_bind (wr self (upd_dir (remove_entry dst_idx))) (\<lambda>_.
        sr_bind (wr self (upd_dir (substitute_entry src_idx (cstr256 new_name, src)))) (\<lambda>_.
        sr_bind (wr self dec_size) (\<lambda>_.
        if ri_type sn = Dir then wr self dec_nlinks else sr_return ()))))
    | None \<Rightarrow> wr self (upd_dir (substitute_entry src_idx (cstr256 new_name, src)))))))"

definition rename_across :: "nat \<Rightarrow> name \<Rightarrow> nat \<Rightarrow> name \<Rightarrow> (('pc, 'dev) ramfs, unit) sr" where
  "rename_across self old_name target new_name =
    sr_bind (rd self) (\<lambda>n. sr_bind (sr_lift (upgrade (in_this n))) (\<lambda>self_arc.
    sr_bind (rd target) (\<lambda>tn. sr_bind (sr_lift (upgrade (in_this tn))) (\<lambda>target_arc.
    sr_bind (dir_of self) (\<lambda>d.
    sr_bind (sr_lift (entry_or_enoent old_name d)) (\<lambda>(src_idx, src).
    if src = target_arc then sr_lift (Err EINVAL)
    else sr_bind (rd src) (\<lambda>sn.
    sr_bind (dir_of target) (\<lambda>td. sr_bind (sr_lift (dir_get_entry new_name td)) (\<lambda>r.
    sr_bind (case r of
      Some (dst_idx, dst) \<Rightarrow>
        if self_arc = dst then sr_lift (Err ENOTEMPTY)
        else sr_bind (check_replace_inode src dst) (\<lambda>_.
             sr_bind (wr self (upd_dir (remove_entry src_idx))) (\<lambda>_.
             sr_bind (wr target (upd_dir (remove_entry dst_idx))) (\<lambda>_.
             sr_bind (wr target (upd_dir (append_entry new_name src))) (\<lambda>_.
             sr_bind (wr self dec_size) (\<lambda>_.
             if ri_type sn = Dir then wr self dec_nlinks else sr_return ())))))
    | None \<Rightarrow>
        sr_bind (wr self (upd_dir (remove_entry src_idx))) (\<lambda>_.
        sr_bind (wr target (upd_dir (append_entry new_name src))) (\<lambda>_.
        sr_bind (wr self dec_size) (\<lambda>_. sr_bind (wr target (\<lambda>n. Ok (inc_size n))) (\<lambda>_.
        if ri_type sn = Dir
        then sr_bind (wr self dec_nlinks) (\<lambda>_. wr target (\<lambda>n. Ok (inc_nlinks n))) else sr_return ())))))
      (\<lambda>_. if ri_type sn = Dir then wr src (upd_dir (\<lambda>d. Ok (set_parent (in_this tn) d))) else sr_return ()))))))))))"

definition ri_rename :: "nat \<Rightarrow> name \<Rightarrow> inode_ref \<Rightarrow> name \<Rightarrow> (('pc, 'dev) ramfs, unit) sr" where
  "ri_rename self old_name tref new_name =
    sr_bind (rd self) (\<lambda>n.
    if ri_type n \<noteq> Dir then sr_lift (Err ENOTDIR)
    else case tref of
      Foreign \<Rightarrow> sr_lift (Err EXDEV)
    | Local target \<Rightarrow> sr_bind (rd target) (\<lambda>tn.
        if ri_type tn \<noteq> Dir then sr_lift (Err ENOTDIR)
        else if old_name = DOT \<or> old_name = DOTDOT then sr_lift (Err EISDIR)
        else if new_name = DOT \<or> new_name = DOTDOT then sr_lift (Err EISDIR)
        else if md_ino (in_meta n) = md_ino (in_meta tn) then rename_same self old_name new_name
        else rename_across self old_name target new_name))"

definition ri_read_link :: "nat \<Rightarrow> (('pc, 'dev) ramfs, name) sr" where
  "ri_read_link self = sr_bind (rd self) (\<lambda>n.
    if ri_type n \<noteq> SymLink then sr_lift (Err EINVAL)
    else case in_inner n of SymLinkInner l \<Rightarrow> sr_return l | _ \<Rightarrow> sr_lift panic)"

definition ri_write_link :: "nat \<Rightarrow> name \<Rightarrow> (('pc, 'dev) ramfs, unit) sr" where
  "ri_write_link self target = sr_bind (rd self) (\<lambda>n.
    if ri_type n \<noteq> SymLink then sr_lift (Err EINVAL)
    else wr self (\<lambda>n. case in_inner n of
      SymLinkInner _ \<Rightarrow> Ok (n\<lparr>in_inner := SymLinkInner target, in_meta := (in_meta n)\<lparr>md_size := length target\<rparr>\<rparr>)
    | _ \<Rightarrow> panic))"

text \<open>The setters of the metadata: \<open>set_mode\<close>, \<open>set_owner\<close>, \<open>set_group\<close>, \<open>set_atime\<close> and \<open>set_mtime\<close>.\<close>

datatype attr = Mode u16 | Owner u32 | Group u32 | Atime nat | Mtime nat

fun set_attr :: "attr \<Rightarrow> metadata \<Rightarrow> metadata" where
  "set_attr (Mode x) md = md\<lparr>md_mode := x\<rparr>"
| "set_attr (Owner x) md = md\<lparr>md_uid := x\<rparr>"
| "set_attr (Group x) md = md\<lparr>md_gid := x\<rparr>"
| "set_attr (Atime x) md = md\<lparr>md_atime := x\<rparr>"
| "set_attr (Mtime x) md = md\<lparr>md_mtime := x\<rparr>"

definition ri_set_attr :: "nat \<Rightarrow> attr \<Rightarrow> (('pc, 'dev) ramfs, unit) sr" where
  "ri_set_attr self a = wr self (\<lambda>n. Ok (n\<lparr>in_meta := set_attr a (in_meta n)\<rparr>))"

section \<open>Reading a directory\<close>

text \<open>A visitor is a state \<open>'v\<close> and a function that takes one entry: its name, number, type and offset.\<close>

type_synonym dirent = "name \<times> nat \<times> inode_type \<times> nat"
type_synonym 'v visitor = "dirent \<Rightarrow> 'v \<Rightarrow> unit res \<times> 'v"

definition type_at :: "nat \<Rightarrow> ('pc, 'dev) ramfs \<Rightarrow> (nat \<times> inode_type) res" where
  "type_at i s = (case rf_inodes s i of None \<Rightarrow> panic | Some n \<Rightarrow> Ok (md_ino (in_meta n), ri_type n))"

text \<open>\<open>try_visit\<close>: the result, the next index and the visitor.\<close>

definition visit_one :: "'v visitor \<Rightarrow> name \<Rightarrow> nat \<Rightarrow> ('pc, 'dev) ramfs \<Rightarrow> nat \<Rightarrow> 'v \<Rightarrow> unit res \<times> 'v" where
  "visit_one visit nm i s off v = (case type_at i s of Inl e \<Rightarrow> (Inl e, v) | Inr (ino, ty) \<Rightarrow> visit (nm, ino, ty, off) v)"

fun visit_children :: "'v visitor \<Rightarrow> ('pc, 'dev) ramfs \<Rightarrow> (nat \<times> name \<times> nat) list \<Rightarrow> nat \<Rightarrow> 'v \<Rightarrow> unit res \<times> nat \<times> 'v" where
  "visit_children visit s [] idx v = (Ok (), idx, v)"
| "visit_children visit s ((off, child, i) # rest) idx v =
    (case as_str child of
       Inl e \<Rightarrow> (Inl e, idx, v)
     | Inr nm \<Rightarrow> (case visit_one visit nm i s off v of
         (Inl e, v') \<Rightarrow> (Inl e, idx, v')
       | (Inr _, v') \<Rightarrow> visit_children visit s rest (off + 1) v'))"

definition child_offsets :: "dir_entry \<Rightarrow> (nat \<times> name \<times> nat) list" where
  "child_offsets d = map (\<lambda>(off, e). (off + 2, e)) (idxes_and_items (de_children d))"

definition visit_special :: "'v visitor \<Rightarrow> name \<Rightarrow> nat option \<Rightarrow> ('pc, 'dev) ramfs \<Rightarrow> nat \<Rightarrow> 'v \<Rightarrow> unit res \<times> 'v" where
  "visit_special visit nm r s off v = (case upgrade r of Inl e \<Rightarrow> (Inl e, v) | Inr i \<Rightarrow> visit_one visit nm i s off v)"

definition try_visit :: "'v visitor \<Rightarrow> ('pc, 'dev) ramfs \<Rightarrow> dir_entry \<Rightarrow> nat \<Rightarrow> 'v \<Rightarrow> unit res \<times> nat \<times> 'v" where
  "try_visit visit s d idx v =
    (let (r0, idx0, v0) = (if idx = 0 then case visit_special visit DOT (de_this d) s idx v of
                             (Inl e, v') \<Rightarrow> (Inl e, idx, v') | (Inr _, v') \<Rightarrow> (Ok (), idx + 1, v')
                           else (Ok (), idx, v))
     in case r0 of Inl e \<Rightarrow> (Inl e, idx0, v0) | Inr _ \<Rightarrow>
     (let (r1, idx1, v1) = (if idx0 = 1 then case visit_special visit DOTDOT (de_parent d) s idx0 v0 of
                             (Inl e, v') \<Rightarrow> (Inl e, idx0, v') | (Inr _, v') \<Rightarrow> (Ok (), idx0 + 1, v')
                            else (Ok (), idx0, v0))
      in case r1 of Inl e \<Rightarrow> (Inl e, idx1, v1) | Inr _ \<Rightarrow>
         visit_children visit s (dropWhile (\<lambda>(off, _). off < idx1) (child_offsets d)) idx1 v1))"

definition visit_entry :: "'v visitor \<Rightarrow> ('pc, 'dev) ramfs \<Rightarrow> dir_entry \<Rightarrow> nat \<Rightarrow> 'v \<Rightarrow> nat res \<times> 'v" where
  "visit_entry visit s d idx v =
    (case try_visit visit s d idx v of
       (Inl Panic, _, v') \<Rightarrow> (panic, v')
     | (Inl e, idx', v') \<Rightarrow> (if idx = idx' then Inl e else Ok (idx' - idx), v')
     | (Inr _, idx', v') \<Rightarrow> (Ok (idx' - idx), v'))"

definition ri_readdir_at :: "'v visitor \<Rightarrow> nat \<Rightarrow> nat \<Rightarrow> ('pc, 'dev) ramfs \<Rightarrow> 'v \<Rightarrow> nat res \<times> 'v" where
  "ri_readdir_at visit self offset s v =
    (case rf_inodes s self of
       None \<Rightarrow> (panic, v)
     | Some n \<Rightarrow> if ri_type n \<noteq> Dir then (Err ENOTDIR, v)
                 else case as_direntry n of Inl e \<Rightarrow> (Inl e, v) | Inr d \<Rightarrow> visit_entry visit s d offset v)"

end
