(* ===== verification/Ramfs_Inv.thy ===== *)
theory Ramfs_Inv
  imports Ramfs
begin

text \<open>
  The in-memory file system keeps its inodes well typed: what an inode holds agrees with its type, its references are
  set and name inodes that exist, and the names in a directory are distinct. Each step of an operation keeps this and
  changes one thing of what the file system shows.
\<close>

section \<open>What a file system shows\<close>

text \<open>The types of the inodes, the entries of the directories by slot, link counts, parents and sizes, and the next number.\<close>

record fsview =
  v_kind :: "nat \<rightharpoonup> inode_type"
  v_slots :: "nat \<Rightarrow> nat \<rightharpoonup> name \<times> nat"
  v_nlinks :: "nat \<Rightarrow> nat"
  v_parent :: "nat \<Rightarrow> nat option"
  v_size :: "nat \<Rightarrow> nat"
  v_next :: nat

definition kind :: "('pc, 'dev) ramfs \<Rightarrow> nat \<rightharpoonup> inode_type" where
  "kind s i = map_option ri_type (rf_inodes s i)"

definition inner_slots :: "('pc, 'dev) inner \<Rightarrow> nat \<rightharpoonup> name \<times> nat" where
  "inner_slots x = (case x of DirInner d \<Rightarrow> sv_lookup (de_children d) | _ \<Rightarrow> Map.empty)"

definition inner_parent :: "('pc, 'dev) inner \<Rightarrow> nat option" where
  "inner_parent x = (case x of DirInner d \<Rightarrow> de_parent d | _ \<Rightarrow> None)"

definition view :: "('pc, 'dev) ramfs \<Rightarrow> fsview" where
  "view s = \<lparr>v_kind = kind s,
     v_slots = (\<lambda>i. case rf_inodes s i of Some n \<Rightarrow> inner_slots (in_inner n) | None \<Rightarrow> Map.empty),
     v_nlinks = (\<lambda>i. case rf_inodes s i of Some n \<Rightarrow> md_nlinks (in_meta n) | None \<Rightarrow> 0),
     v_parent = (\<lambda>i. case rf_inodes s i of Some n \<Rightarrow> inner_parent (in_inner n) | None \<Rightarrow> None),
     v_size = (\<lambda>i. case rf_inodes s i of Some n \<Rightarrow> md_size (in_meta n) | None \<Rightarrow> 0),
     v_next = rf_next s\<rparr>"

section \<open>Well-typed inodes\<close>

definition str_ok :: "name \<Rightarrow> bool" where "str_ok nm \<longleftrightarrow> utf8_valid nm \<and> 0 \<notin> set nm"

definition entry_name :: "name \<Rightarrow> bool" where "entry_name nm \<longleftrightarrow> utf8_valid nm \<and> nm \<noteq> DOT \<and> nm \<noteq> DOTDOT"

definition slots_ok :: "(nat \<rightharpoonup> inode_type) \<Rightarrow> (nat \<rightharpoonup> name \<times> nat) \<Rightarrow> bool" where
  "slots_ok K S \<longleftrightarrow> (\<forall>k nm c. S k = Some (nm, c) \<longrightarrow> entry_name nm \<and> K c \<noteq> None)
     \<and> (\<forall>k k' nm c c'. S k = Some (nm, c) \<longrightarrow> S k' = Some (nm, c') \<longrightarrow> k = k')"

definition dir_ok :: "(nat \<rightharpoonup> inode_type) \<Rightarrow> nat \<Rightarrow> dir_entry \<Rightarrow> bool" where
  "dir_ok K i d \<longleftrightarrow> sv_inv (de_children d) \<and> de_this d = Some i \<and> (\<exists>p. de_parent d = Some p \<and> K p = Some Dir)
     \<and> slots_ok K (sv_lookup (de_children d))"

definition inner_ok :: "(nat \<rightharpoonup> inode_type) \<Rightarrow> nat \<Rightarrow> ('pc, 'dev) inner \<Rightarrow> metadata \<Rightarrow> bool" where
  "inner_ok K i x md \<longleftrightarrow> (case x of
     DirInner d \<Rightarrow> md_type md = Dir \<and> dir_ok K i d
   | FileInner _ \<Rightarrow> md_type md = File
   | SymLinkInner _ \<Rightarrow> md_type md = SymLink
   | DeviceInner _ \<Rightarrow> md_type md = CharDevice \<or> md_type md = BlockDevice
   | SocketInner \<Rightarrow> md_type md = Socket)"

definition inode_ok :: "(nat \<rightharpoonup> inode_type) \<Rightarrow> nat \<Rightarrow> ('pc, 'dev) ram_inode \<Rightarrow> bool" where
  "inode_ok K i n \<longleftrightarrow> md_ino (in_meta n) = i \<and> in_this n = Some i \<and> inner_ok K i (in_inner n) (in_meta n)"

definition rf_ok :: "('pc, 'dev) ramfs \<Rightarrow> bool" where
  "rf_ok s \<longleftrightarrow> finite (dom (rf_inodes s)) \<and> kind s ROOT_INO = Some Dir \<and> (\<forall>i \<in> dom (rf_inodes s). i < rf_next s)
     \<and> (\<forall>i n. rf_inodes s i = Some n \<longrightarrow> inode_ok (kind s) i n)"

lemma rf_okD:
  assumes "rf_ok s"
  shows "finite (dom (rf_inodes s))" "kind s ROOT_INO = Some Dir" "rf_inodes s i = Some n \<Longrightarrow> i < rf_next s"
    "rf_inodes s i = Some n \<Longrightarrow> inode_ok (kind s) i n"
  using assms by (auto simp: rf_ok_def)

lemma inode_ok_dir:
  assumes "inode_ok K i n" "ri_type n = Dir"
  obtains d where "in_inner n = DirInner d" "dir_ok K i d"
  using assms by (auto simp: inode_ok_def inner_ok_def ri_type_def split: inner.splits)

lemma inode_ok_ids: "inode_ok K i n \<Longrightarrow> md_ino (in_meta n) = i" "inode_ok K i n \<Longrightarrow> in_this n = Some i"
  by (simp_all add: inode_ok_def)

lemma inode_ok_not_dir: "inode_ok K i n \<Longrightarrow> ri_type n \<noteq> Dir \<Longrightarrow> in_inner n \<noteq> DirInner d"
  by (auto simp: inode_ok_def inner_ok_def ri_type_def)

lemma slots_ok_mono: "slots_ok K S \<Longrightarrow> K \<subseteq>\<^sub>m K' \<Longrightarrow> slots_ok K' S"
  unfolding slots_ok_def map_le_def dom_def by (metis (mono_tags, lifting) mem_Collect_eq)

lemma dir_ok_mono: "dir_ok K i d \<Longrightarrow> K \<subseteq>\<^sub>m K' \<Longrightarrow> dir_ok K' i d"
  unfolding dir_ok_def using slots_ok_mono by (metis domI map_le_def)

lemma inode_ok_mono: "inode_ok K i n \<Longrightarrow> K \<subseteq>\<^sub>m K' \<Longrightarrow> inode_ok K' i n"
  using dir_ok_mono by (auto simp: inode_ok_def inner_ok_def split: inner.splits)

section \<open>Names and entries\<close>

lemma cstr256_id: "str_ok nm \<Longrightarrow> length nm \<le> 255 \<Longrightarrow> cstr256 nm = nm"
  unfolding cstr256_def str_ok_def by (subst takeWhile_eq_all_conv [THEN iffD2]) auto

lemma any_entry_eq:
  assumes "\<forall>e \<in> set xs. utf8_valid (fst e)"
  shows "any_entry nm xs = Ok (nm \<in> fst ` set xs)"
  using assms by (induction xs) (auto simp: as_str_def)

lemma find_entry_eq:
  assumes "\<forall>(k, c, i) \<in> set xs. utf8_valid c"
  shows "(\<exists>k i. (k, nm, i) \<in> set xs \<and> find_entry nm xs = Ok (Some (k + 2, i)))
    \<or> (\<forall>k i. (k, nm, i) \<notin> set xs) \<and> find_entry nm xs = Ok None"
  using assms
proof (induction xs)
  case (Cons x xs)
  obtain k c i where x: "x = (k, c, i)" by (cases x)
  show ?case
  proof (cases "c = nm")
    case True
    then show ?thesis using Cons.prems by (auto simp: x as_str_def)
  next
    case False
    then show ?thesis using Cons by (auto simp: x as_str_def)
  qed
qed simp

lemma contains_entry_eq:
  assumes "dir_ok K i d"
  shows "contains_entry nm d = Ok (nm = DOT \<or> nm = DOTDOT \<or> (\<exists>k c. sv_lookup (de_children d) k = Some (nm, c)))"
proof -
  have "\<forall>e \<in> set (sv_iter (de_children d)). utf8_valid (fst e)"
    using assms by (auto simp: set_sv_iter ran_def dir_ok_def slots_ok_def entry_name_def)
  from any_entry_eq [OF this] show ?thesis by (force simp: contains_entry_def set_sv_iter ran_def)
qed

lemma dir_get_entry_cases:
  assumes "dir_ok K i d" "nm \<noteq> DOT" "nm \<noteq> DOTDOT"
  obtains (found) k c where "sv_lookup (de_children d) k = Some (nm, c)" "dir_get_entry nm d = Ok (Some (k + 2, c))"
  | (absent) "\<And>k c. sv_lookup (de_children d) k \<noteq> Some (nm, c)" "dir_get_entry nm d = Ok None"
proof -
  let ?xs = "idxes_and_items (de_children d)"
  have "\<forall>(k, c, i) \<in> set ?xs. utf8_valid c"
    using assms(1) by (auto simp: idxes_and_items_iff dir_ok_def slots_ok_def entry_name_def)
  from find_entry_eq [OF this, of nm] show ?thesis
    using assms(2,3) found absent by (auto simp: dir_get_entry_def idxes_and_items_iff)
qed

lemma num_occupied_pos: "sv_inv v \<Longrightarrow> sv_lookup v i = Some x \<Longrightarrow> 0 < num_occupied v"
  by (auto simp: sv_inv_def sv_lookup_def filter_empty_conv split: if_splits) (metis nth_mem option.distinct(1))

lemma sv_is_empty_iff: "sv_inv v \<Longrightarrow> sv_is_empty v \<longleftrightarrow> sv_lookup v = Map.empty"
proof
  assume "sv_inv v" "sv_is_empty v"
  then show "sv_lookup v = Map.empty" using num_occupied_pos [of v] by (fastforce simp: sv_is_empty_def)
next
  assume "sv_inv v" "sv_lookup v = Map.empty"
  then show "sv_is_empty v"
    by (auto simp: sv_is_empty_def sv_inv_def sv_lookup_def filter_empty_conv in_set_conv_nth fun_eq_iff split: if_splits)
qed

section \<open>Steps on the state\<close>

abbreviation set_inode :: "nat \<Rightarrow> ('pc, 'dev) ram_inode \<Rightarrow> ('pc, 'dev) ramfs \<Rightarrow> ('pc, 'dev) ramfs" where
  "set_inode i n s \<equiv> s\<lparr>rf_inodes := (rf_inodes s)(i \<mapsto> n)\<rparr>"

lemma rd_eq: "rf_inodes s i = Some n \<Longrightarrow> rd i s = (Ok n, s)"
  by (simp add: rd_def)

lemma wr_eq: "rf_inodes s i = Some n \<Longrightarrow> f n = Ok n' \<Longrightarrow> wr i f s = (Ok (), set_inode i n' s)"
  by (simp add: wr_def)

lemma dir_of_eq: "rf_inodes s i = Some n \<Longrightarrow> in_inner n = DirInner d \<Longrightarrow> dir_of i s = (Ok d, s)"
  by (simp add: dir_of_def rd_eq as_direntry_def)

lemma upd_dir_eq: "in_inner n = DirInner d \<Longrightarrow> f d = Ok d' \<Longrightarrow> upd_dir f n = Ok (n\<lparr>in_inner := DirInner d'\<rparr>)"
  by (simp add: upd_dir_def as_direntry_def)

lemma view_set_inode:
  "view (set_inode i n s) = (view s)\<lparr>v_kind := (v_kind (view s))(i \<mapsto> ri_type n),
     v_slots := (v_slots (view s))(i := inner_slots (in_inner n)), v_nlinks := (v_nlinks (view s))(i := md_nlinks (in_meta n)),
     v_parent := (v_parent (view s))(i := inner_parent (in_inner n)), v_size := (v_size (view s))(i := md_size (in_meta n))\<rparr>"
  by (auto simp: view_def kind_def fun_eq_iff)

lemma view_at:
  assumes "rf_inodes s i = Some n"
  shows "v_kind (view s) i = Some (ri_type n)" "v_nlinks (view s) i = md_nlinks (in_meta n)" "v_size (view s) i = md_size (in_meta n)"
    "v_slots (view s) i = inner_slots (in_inner n)" "v_parent (view s) i = inner_parent (in_inner n)"
  using assms by (simp_all add: view_def kind_def)

lemma v_kind_view [simp]: "v_kind (view s) = kind s"
  by (simp add: view_def)

lemma inner_simps [simp]: "inner_slots (DirInner d) = sv_lookup (de_children d)" "inner_parent (DirInner d) = de_parent d"
  by (simp_all add: inner_slots_def inner_parent_def)

lemma rf_ok_set:
  assumes ok: "rf_ok s" and i: "kind s i = Some (ri_type n)" and n: "inode_ok (kind s) i n"
  shows "rf_ok (set_inode i n s)"
proof -
  have k: "kind (set_inode i n s) = kind s" using i by (auto simp: kind_def)
  have "i \<in> dom (rf_inodes s)" using i by (auto simp: kind_def)
  then show "rf_ok (set_inode i n s)" using ok n unfolding rf_ok_def k by (auto simp: insert_absorb)
qed

lemma slots_ok_put:
  assumes "slots_ok K S" "entry_name nm" "K c \<noteq> None" "\<And>k' c'. k' \<noteq> k \<Longrightarrow> S k' \<noteq> Some (nm, c')"
  shows "slots_ok K (S(k \<mapsto> (nm, c)))"
  unfolding slots_ok_def
proof (intro conjI allI impI)
  show "entry_name nm'" "K c' \<noteq> None" if "(S(k \<mapsto> (nm, c))) k' = Some (nm', c')" for k' nm' c'
    using that assms by (auto simp: slots_ok_def split: if_splits)
  show "k1 = k2" if "(S(k \<mapsto> (nm, c))) k1 = Some (nm', c1)" "(S(k \<mapsto> (nm, c))) k2 = Some (nm', c2)" for k1 k2 nm' c1 c2
    using that assms(1,4) by (auto simp: slots_ok_def split: if_splits)
qed

lemma slots_ok_remove: "slots_ok K S \<Longrightarrow> slots_ok K (S(k := None))"
  unfolding slots_ok_def by (metis fun_upd_apply option.distinct(1))

lemma dir_ok_children:
  "dir_ok K i d \<Longrightarrow> sv_inv v \<Longrightarrow> slots_ok K (sv_lookup v) \<Longrightarrow> dir_ok K i (d\<lparr>de_children := v\<rparr>)"
  by (simp add: dir_ok_def)

lemma append_entry_spec:
  assumes d: "dir_ok K i d" and nm: "entry_name nm" "cstr256 nm = nm" and c: "K c \<noteq> None"
    and fresh: "\<And>k c'. sv_lookup (de_children d) k \<noteq> Some (nm, c')"
  shows "\<exists>k d'. append_entry nm c d = Ok d' \<and> dir_ok K i d' \<and> sv_lookup (de_children d) k = None \<and> de_parent d' = de_parent d
    \<and> sv_lookup (de_children d') = (sv_lookup (de_children d))(k \<mapsto> (nm, c))"
proof -
  have inv: "sv_inv (de_children d)" "slots_ok K (sv_lookup (de_children d))" using d by (simp_all add: dir_ok_def)
  from sv_put_total [OF inv(1)] obtain k v where p: "sv_put (nm, c) (de_children d) = Some (k, v)" .
  note sp = sv_put_spec [OF inv(1) p]
  have "slots_ok K (sv_lookup v)" unfolding sp(2) by (rule slots_ok_put [OF inv(2) nm(1) c fresh])
  with p sp d show ?thesis
    by (intro exI [of _ k] exI [of _ "d\<lparr>de_children := v\<rparr>"]) (simp add: append_entry_def nm(2) dir_ok_children)
qed

lemma remove_entry_spec:
  assumes d: "dir_ok K i d" and k: "sv_lookup (de_children d) k = Some e"
  shows "\<exists>d'. remove_entry (k + 2) d = Ok d' \<and> dir_ok K i d' \<and> de_parent d' = de_parent d
    \<and> sv_lookup (de_children d') = (sv_lookup (de_children d))(k := None)"
proof -
  have inv: "sv_inv (de_children d)" "slots_ok K (sv_lookup (de_children d))" using d by (simp_all add: dir_ok_def)
  let ?v = "snd (sv_remove k (de_children d))"
  have "sv_remove k (de_children d) = (fst (sv_remove k (de_children d)), ?v)" by simp
  note sp = sv_remove_spec [OF inv(1) this]
  have "slots_ok K (sv_lookup ?v)" unfolding sp(2) by (rule slots_ok_remove [OF inv(2)])
  with sp d show ?thesis
    by (intro exI [of _ "d\<lparr>de_children := ?v\<rparr>"]) (simp add: remove_entry_def dir_ok_children)
qed

lemma substitute_entry_spec:
  assumes d: "dir_ok K i d" and k: "sv_lookup (de_children d) k = Some e" and nm: "entry_name nm" and c: "K c \<noteq> None"
    and fresh: "\<And>k' c'. k' \<noteq> k \<Longrightarrow> sv_lookup (de_children d) k' \<noteq> Some (nm, c')"
  shows "\<exists>d'. substitute_entry (k + 2) (nm, c) d = Ok d' \<and> dir_ok K i d' \<and> de_parent d' = de_parent d
    \<and> sv_lookup (de_children d') = (sv_lookup (de_children d))(k \<mapsto> (nm, c))"
proof -
  have inv: "sv_inv (de_children d)" "slots_ok K (sv_lookup (de_children d))" using d by (simp_all add: dir_ok_def)
  let ?v = "snd (sv_put_at k (nm, c) (de_children d))"
  have "sv_put_at k (nm, c) (de_children d) = (fst (sv_put_at k (nm, c) (de_children d)), ?v)" by simp
  note sp = sv_put_at_spec [OF inv(1) this]
  have "slots_ok K (sv_lookup ?v)" unfolding sp(2) by (rule slots_ok_put [OF inv(2) nm c fresh])
  with sp d show ?thesis
    by (intro exI [of _ "d\<lparr>de_children := ?v\<rparr>"]) (simp add: substitute_entry_def dir_ok_children)
qed

section \<open>Effects in terms of what is shown\<close>

lemma dir_inode:
  assumes "rf_ok s" "kind s i = Some Dir"
  obtains n d where "rf_inodes s i = Some n" "in_inner n = DirInner d" "ri_type n = Dir" "dir_ok (kind s) i d"
    "v_slots (view s) i = sv_lookup (de_children d)" "v_parent (view s) i = de_parent d" "in_this n = Some i" "md_ino (in_meta n) = i"
proof -
  from assms(2) obtain n where n: "rf_inodes s i = Some n" "ri_type n = Dir" by (auto simp: kind_def)
  note ok = rf_okD(4) [OF assms(1) n(1)]
  from inode_ok_dir [OF ok n(2)] obtain d where d: "in_inner n = DirInner d" "dir_ok (kind s) i d" .
  show ?thesis
    using that [OF n(1) d(1) n(2) d(2)] view_at(4,5) [OF n(1)] d(1) inode_ok_ids [OF ok] by simp
qed

text \<open>An update of an inode that keeps its type and number.\<close>

definition keeps_inode :: "('pc, 'dev) ram_inode \<Rightarrow> ('pc, 'dev) ram_inode \<Rightarrow> bool" where
  "keeps_inode n n' \<longleftrightarrow> ri_type n' = ri_type n \<and> md_ino (in_meta n') = md_ino (in_meta n) \<and> in_this n' = in_this n"

lemma wr_spec:
  assumes ok: "rf_ok s" and n: "rf_inodes s i = Some n" and f: "f n = Ok n'" and keep: "keeps_inode n n'"
    and inner: "inner_ok (kind s) i (in_inner n') (in_meta n')"
  shows "wr i f s = (Ok (), set_inode i n' s)" "rf_ok (set_inode i n' s)"
    "view (set_inode i n' s) = (view s)\<lparr>v_slots := (v_slots (view s))(i := inner_slots (in_inner n')),
       v_nlinks := (v_nlinks (view s))(i := md_nlinks (in_meta n')), v_parent := (v_parent (view s))(i := inner_parent (in_inner n')),
       v_size := (v_size (view s))(i := md_size (in_meta n'))\<rparr>"
proof -
  have "inode_ok (kind s) i n'" using rf_okD(4) [OF ok n] keep inner by (simp add: inode_ok_def keeps_inode_def)
  moreover have k: "kind s i = Some (ri_type n')" using n keep by (simp add: kind_def keeps_inode_def)
  ultimately show "rf_ok (set_inode i n' s)" using ok by (intro rf_ok_set)
  show "wr i f s = (Ok (), set_inode i n' s)" using n f by (simp add: wr_def)
  show "view (set_inode i n' s) = (view s)\<lparr>v_slots := (v_slots (view s))(i := inner_slots (in_inner n')),
       v_nlinks := (v_nlinks (view s))(i := md_nlinks (in_meta n')), v_parent := (v_parent (view s))(i := inner_parent (in_inner n')),
       v_size := (v_size (view s))(i := md_size (in_meta n'))\<rparr>"
    using k by (simp add: view_set_inode fun_upd_idem)
qed

lemma wr_meta:
  assumes ok: "rf_ok s" and n: "rf_inodes s i = Some n" and f: "f n = Ok (n\<lparr>in_meta := md\<rparr>)"
    and md: "md_type md = ri_type n" "md_ino md = md_ino (in_meta n)"
  shows "\<exists>s'. wr i f s = (Ok (), s') \<and> rf_ok s' \<and> view s' = (view s)\<lparr>v_nlinks := (v_nlinks (view s))(i := md_nlinks md),
    v_size := (v_size (view s))(i := md_size md)\<rparr>"
proof -
  let ?n = "n\<lparr>in_meta := md\<rparr>"
  have "inner_ok (kind s) i (in_inner ?n) (in_meta ?n)"
    using rf_okD(4) [OF ok n] md by (auto simp: inode_ok_def inner_ok_def ri_type_def split: inner.splits)
  moreover have "keeps_inode n ?n" using md by (simp add: keeps_inode_def ri_type_def)
  ultimately show ?thesis
    using wr_spec [where n' = ?n and f = f, OF ok n f] view_at(4,5) [OF n] by (auto simp: fun_upd_idem)
qed

lemma wr_inc_nlinks:
  assumes "rf_ok s" "kind s i \<noteq> None"
  shows "\<exists>s'. wr i (\<lambda>n. Ok (inc_nlinks n)) s = (Ok (), s') \<and> rf_ok s'
    \<and> view s' = (view s)\<lparr>v_nlinks := (v_nlinks (view s))(i := v_nlinks (view s) i + 1)\<rparr>"
proof -
  from assms obtain n where n: "rf_inodes s i = Some n" by (auto simp: kind_def)
  show ?thesis
    using wr_meta [OF assms(1) n, of "\<lambda>n. Ok (inc_nlinks n)" "(in_meta n)\<lparr>md_nlinks := md_nlinks (in_meta n) + 1\<rparr>"] view_at(2,3) [OF n]
    by (auto simp: inc_nlinks_def ri_type_def fun_upd_idem)
qed

lemma wr_dec_nlinks:
  assumes "rf_ok s" "kind s i \<noteq> None" "0 < v_nlinks (view s) i"
  shows "\<exists>s'. wr i dec_nlinks s = (Ok (), s') \<and> rf_ok s'
    \<and> view s' = (view s)\<lparr>v_nlinks := (v_nlinks (view s))(i := v_nlinks (view s) i - 1)\<rparr>"
proof -
  from assms obtain n where n: "rf_inodes s i = Some n" by (auto simp: kind_def)
  show ?thesis
    using wr_meta [OF assms(1) n, of dec_nlinks "(in_meta n)\<lparr>md_nlinks := md_nlinks (in_meta n) - 1\<rparr>"] view_at(2,3) [OF n] assms(3)
    by (auto simp: dec_nlinks_def ri_type_def fun_upd_idem)
qed

lemma wr_inc_size:
  assumes "rf_ok s" "kind s i \<noteq> None"
  shows "\<exists>s'. wr i (\<lambda>n. Ok (inc_size n)) s = (Ok (), s') \<and> rf_ok s'
    \<and> view s' = (view s)\<lparr>v_size := (v_size (view s))(i := v_size (view s) i + 1)\<rparr>"
proof -
  from assms obtain n where n: "rf_inodes s i = Some n" by (auto simp: kind_def)
  show ?thesis
    using wr_meta [OF assms(1) n, of "\<lambda>n. Ok (inc_size n)" "in_meta (inc_size n)"] view_at(2,3) [OF n]
    by (auto simp: inc_size_def ri_type_def Let_def fun_upd_idem)
qed

lemma wr_dec_size:
  assumes "rf_ok s" "kind s i \<noteq> None" "0 < v_size (view s) i"
  shows "\<exists>s'. wr i dec_size s = (Ok (), s') \<and> rf_ok s'
    \<and> view s' = (view s)\<lparr>v_size := (v_size (view s))(i := v_size (view s) i - 1)\<rparr>"
proof -
  from assms obtain n where n: "rf_inodes s i = Some n" by (auto simp: kind_def)
  have "0 < md_size (in_meta n)" using assms(3) view_at(3) [OF n] by simp
  then show ?thesis
    using wr_meta [OF assms(1) n, of dec_size "(in_meta n)\<lparr>md_size := md_size (in_meta n) - 1,
      md_blocks := (md_size (in_meta n) - 1 + BLOCK_SIZE - 1) div BLOCK_SIZE\<rparr>"] view_at(2,3) [OF n]
    by (auto simp: dec_size_def ri_type_def Let_def fun_upd_idem)
qed

text \<open>An update of the entries of a directory.\<close>

lemma wr_dir:
  assumes ok: "rf_ok s" and n: "rf_inodes s i = Some n" "in_inner n = DirInner d" and f: "f d = Ok d'" and d': "dir_ok (kind s) i d'"
  shows "\<exists>s'. wr i (upd_dir f) s = (Ok (), s') \<and> rf_ok s' \<and> view s' = (view s)\<lparr>v_slots := (v_slots (view s))(i := sv_lookup (de_children d')),
    v_parent := (v_parent (view s))(i := de_parent d')\<rparr>"
proof -
  let ?n = "n\<lparr>in_inner := DirInner d'\<rparr>"
  have "ri_type n = Dir" using rf_okD(4) [OF ok n(1)] n(2) by (simp add: inode_ok_def inner_ok_def ri_type_def)
  then have "inner_ok (kind s) i (in_inner ?n) (in_meta ?n)" using d' by (simp add: inner_ok_def ri_type_def)
  moreover have "keeps_inode n ?n" by (simp add: keeps_inode_def ri_type_def)
  moreover have "upd_dir f n = Ok ?n" using upd_dir_eq [OF n(2)] f by simp
  ultimately show ?thesis
    using wr_spec [where n' = ?n and f = "upd_dir f", OF ok n(1)] view_at(2,3) [OF n(1)] by (auto simp: fun_upd_idem)
qed

lemma wr_append:
  assumes ok: "rf_ok s" and i: "kind s i = Some Dir" and nm: "entry_name nm" "cstr256 nm = nm" and c: "kind s c \<noteq> None"
    and fresh: "\<And>k c'. v_slots (view s) i k \<noteq> Some (nm, c')"
  shows "\<exists>k s'. wr i (upd_dir (append_entry nm c)) s = (Ok (), s') \<and> rf_ok s' \<and> v_slots (view s) i k = None
    \<and> view s' = (view s)\<lparr>v_slots := (v_slots (view s))(i := (v_slots (view s) i)(k \<mapsto> (nm, c)))\<rparr>"
proof -
  from dir_inode [OF ok i] obtain n d where n: "rf_inodes s i = Some n" "in_inner n = DirInner d" "dir_ok (kind s) i d"
    "v_slots (view s) i = sv_lookup (de_children d)" "v_parent (view s) i = de_parent d" by metis
  from append_entry_spec [OF n(3) nm c] fresh n(4) obtain k d' where
    a: "append_entry nm c d = Ok d'" "dir_ok (kind s) i d'" "sv_lookup (de_children d) k = None" "de_parent d' = de_parent d"
      "sv_lookup (de_children d') = (sv_lookup (de_children d))(k \<mapsto> (nm, c))" by auto
  from wr_dir [where f = "append_entry nm c", OF ok n(1,2) a(1,2)] a(3-5) n(4,5) show ?thesis by (auto simp: fun_upd_idem)
qed

lemma wr_remove:
  assumes ok: "rf_ok s" and i: "kind s i = Some Dir" and k: "v_slots (view s) i k = Some e"
  shows "\<exists>s'. wr i (upd_dir (remove_entry (k + 2))) s = (Ok (), s') \<and> rf_ok s'
    \<and> view s' = (view s)\<lparr>v_slots := (v_slots (view s))(i := (v_slots (view s) i)(k := None))\<rparr>"
proof -
  from dir_inode [OF ok i] obtain n d where n: "rf_inodes s i = Some n" "in_inner n = DirInner d" "dir_ok (kind s) i d"
    "v_slots (view s) i = sv_lookup (de_children d)" "v_parent (view s) i = de_parent d" by metis
  from remove_entry_spec [OF n(3), of k e] k n(4) obtain d' where
    a: "remove_entry (k + 2) d = Ok d'" "dir_ok (kind s) i d'" "de_parent d' = de_parent d"
      "sv_lookup (de_children d') = (sv_lookup (de_children d))(k := None)" by auto
  from wr_dir [where f = "remove_entry (k + 2)", OF ok n(1,2) a(1,2)] a(3,4) n(4,5) show ?thesis by (auto simp: fun_upd_idem)
qed

lemma wr_substitute:
  assumes ok: "rf_ok s" and i: "kind s i = Some Dir" and k: "v_slots (view s) i k = Some e" and nm: "entry_name nm" and c: "kind s c \<noteq> None"
    and fresh: "\<And>k' c'. k' \<noteq> k \<Longrightarrow> v_slots (view s) i k' \<noteq> Some (nm, c')"
  shows "\<exists>s'. wr i (upd_dir (substitute_entry (k + 2) (nm, c))) s = (Ok (), s') \<and> rf_ok s'
    \<and> view s' = (view s)\<lparr>v_slots := (v_slots (view s))(i := (v_slots (view s) i)(k \<mapsto> (nm, c)))\<rparr>"
proof -
  from dir_inode [OF ok i] obtain n d where n: "rf_inodes s i = Some n" "in_inner n = DirInner d" "dir_ok (kind s) i d"
    "v_slots (view s) i = sv_lookup (de_children d)" "v_parent (view s) i = de_parent d" by metis
  from substitute_entry_spec [OF n(3), of k e nm c] k fresh nm c n(4) obtain d' where
    a: "substitute_entry (k + 2) (nm, c) d = Ok d'" "dir_ok (kind s) i d'" "de_parent d' = de_parent d"
      "sv_lookup (de_children d') = (sv_lookup (de_children d))(k \<mapsto> (nm, c))" by auto
  from wr_dir [where f = "substitute_entry (k + 2) (nm, c)", OF ok n(1,2) a(1,2)] a(3,4) n(4,5) show ?thesis by (auto simp: fun_upd_idem)
qed

lemma wr_set_parent:
  assumes ok: "rf_ok s" and i: "kind s i = Some Dir" and p: "kind s p = Some Dir"
  shows "\<exists>s'. wr i (upd_dir (\<lambda>d. Ok (set_parent (Some p) d))) s = (Ok (), s') \<and> rf_ok s'
    \<and> view s' = (view s)\<lparr>v_parent := (v_parent (view s))(i := Some p)\<rparr>"
proof -
  from dir_inode [OF ok i] obtain n d where n: "rf_inodes s i = Some n" "in_inner n = DirInner d" "dir_ok (kind s) i d"
    "v_slots (view s) i = sv_lookup (de_children d)" by metis
  have "dir_ok (kind s) i (set_parent (Some p) d)" using n(3) p by (auto simp: dir_ok_def set_parent_def)
  from wr_dir [where f = "\<lambda>d. Ok (set_parent (Some p) d)", OF ok n(1,2) refl this] n(4) show ?thesis
    by (auto simp: set_parent_def fun_upd_idem)
qed

end
