(* ===== verification/Ramfs_Spec.thy ===== *)
theory Ramfs_Spec
  imports Ramfs_Inv
begin

text \<open>
  What the directories of the in-memory file system promise, on name spaces: a directory is a finite map from names to
  inodes. Every operation of \<open>RamInode\<close> has an abstract counterpart here with the errors in the order of the code, and
  the abstract operations keep the tree well formed and the link counts right. A count is at least the number of
  references, and it is that number as long as no rename has replaced an entry, since \<open>rename\<close> leaves the count of
  the inode it replaces.
\<close>

section \<open>Name spaces\<close>

record afs =
  a_kind :: "nat \<rightharpoonup> inode_type"
  a_names :: "nat \<Rightarrow> name \<rightharpoonup> nat"
  a_nlinks :: "nat \<Rightarrow> nat"
  a_parent :: "nat \<Rightarrow> nat option"
  a_size :: "nat \<Rightarrow> nat"
  a_next :: nat

type_synonym names = "nat \<Rightarrow> name \<rightharpoonup> nat"

definition bind_name :: "nat \<Rightarrow> name \<Rightarrow> nat \<Rightarrow> names \<Rightarrow> names" where
  "bind_name d nm c M = M(d := (M d)(nm \<mapsto> c))"

definition unbind_name :: "nat \<Rightarrow> name \<Rightarrow> names \<Rightarrow> names" where
  "unbind_name d nm M = M(d := (M d)(nm := None))"

definition special :: "name \<Rightarrow> bool" where "special nm \<longleftrightarrow> nm = DOT \<or> nm = DOTDOT"

section \<open>Abstract operations\<close>

definition raise_by :: "nat \<Rightarrow> nat \<Rightarrow> (nat \<Rightarrow> nat) \<Rightarrow> nat \<Rightarrow> nat" where "raise_by i k f = f(i := f i + k)"
definition drop_by :: "nat \<Rightarrow> nat \<Rightarrow> (nat \<Rightarrow> nat) \<Rightarrow> nat \<Rightarrow> nat" where "drop_by i k f = f(i := f i - k)"

definition a_new :: "inode_type \<Rightarrow> nat \<Rightarrow> afs \<Rightarrow> afs" where
  "a_new ty p a = a\<lparr>a_kind := (a_kind a)(a_next a \<mapsto> ty), a_names := (a_names a)(a_next a := Map.empty),
     a_nlinks := (a_nlinks a)(a_next a := if ty = Dir then 2 else 1),
     a_parent := (a_parent a)(a_next a := if ty = Dir then Some p else None),
     a_size := (a_size a)(a_next a := if ty = Dir then 2 else 0), a_next := a_next a + 1\<rparr>"

definition a_add :: "nat \<Rightarrow> name \<Rightarrow> nat \<Rightarrow> afs \<Rightarrow> afs" where
  "a_add d nm c a = a\<lparr>a_names := bind_name d nm c (a_names a), a_size := raise_by d 1 (a_size a)\<rparr>"

definition a_del :: "nat \<Rightarrow> name \<Rightarrow> afs \<Rightarrow> afs" where
  "a_del d nm a = a\<lparr>a_names := unbind_name d nm (a_names a), a_size := drop_by d 1 (a_size a)\<rparr>"

definition spec_create :: "nat \<Rightarrow> name \<Rightarrow> inode_type \<Rightarrow> afs \<Rightarrow> nat res \<times> afs" where
  "spec_create self nm ty a =
    (if a_kind a self \<noteq> Some Dir then (Err ENOTDIR, a)
     else if length nm > NAME_MAX then (Err ENAMETOOLONG, a)
     else if special nm \<or> a_names a self nm \<noteq> None then (Err EEXIST, a)
     else let a' = a_add self nm (a_next a) (a_new ty self a)
          in (Ok (a_next a), if ty = Dir then a'\<lparr>a_nlinks := raise_by self 1 (a_nlinks a')\<rparr> else a'))"

definition spec_link :: "nat \<Rightarrow> inode_ref \<Rightarrow> name \<Rightarrow> afs \<Rightarrow> unit res \<times> afs" where
  "spec_link self old nm a =
    (if a_kind a self \<noteq> Some Dir then (Err ENOTDIR, a)
     else case old of Foreign \<Rightarrow> (Err EXDEV, a)
     | Local i \<Rightarrow>
         if a_kind a i = Some Dir then (Err EPERM, a)
         else if special nm \<or> a_names a self nm \<noteq> None then (Err EEXIST, a)
         else let a' = a_add self nm i a in (Ok (), a'\<lparr>a_nlinks := raise_by i 1 (a_nlinks a')\<rparr>))"

definition spec_lookup :: "nat \<Rightarrow> name \<Rightarrow> afs \<Rightarrow> nat res" where
  "spec_lookup self nm a =
    (if a_kind a self \<noteq> Some Dir then Err ENOTDIR
     else if nm = DOT then Ok self
     else if nm = DOTDOT then (case a_parent a self of Some p \<Rightarrow> Ok p | None \<Rightarrow> panic)
     else case a_names a self nm of Some i \<Rightarrow> Ok i | None \<Rightarrow> Err ENOENT)"

definition spec_unlink :: "nat \<Rightarrow> name \<Rightarrow> afs \<Rightarrow> unit res \<times> afs" where
  "spec_unlink self nm a =
    (if a_kind a self \<noteq> Some Dir then (Err ENOTDIR, a)
     else if special nm then (Err EISDIR, a)
     else case a_names a self nm of None \<Rightarrow> (Err ENOENT, a)
     | Some c \<Rightarrow>
         if a_kind a c = Some Dir then (Err EISDIR, a)
         else let a' = a_del self nm a in (Ok (), a'\<lparr>a_nlinks := drop_by c 1 (a_nlinks a')\<rparr>))"

definition spec_rmdir :: "nat \<Rightarrow> name \<Rightarrow> afs \<Rightarrow> unit res \<times> afs" where
  "spec_rmdir self nm a =
    (if a_kind a self \<noteq> Some Dir then (Err ENOTDIR, a)
     else if nm = DOT then (Err EINVAL, a)
     else if nm = DOTDOT then (Err ENOTEMPTY, a)
     else case a_names a self nm of None \<Rightarrow> (Err ENOENT, a)
     | Some c \<Rightarrow>
         if a_kind a c \<noteq> Some Dir then (Err ENOTDIR, a)
         else if a_names a c \<noteq> Map.empty then (Err ENOTEMPTY, a)
         else let a' = a_del self nm a in (Ok (), a'\<lparr>a_nlinks := drop_by c 2 (drop_by self 1 (a_nlinks a'))\<rparr>))"

text \<open>Whether one inode may take the place of another in a directory.\<close>

definition replaceable :: "nat \<Rightarrow> nat \<Rightarrow> afs \<Rightarrow> unit res" where
  "replaceable src dst a =
    (if src = dst then Ok ()
     else if a_kind a src = Some Dir
     then if a_kind a dst \<noteq> Some Dir then Err ENOTDIR else if a_names a dst \<noteq> Map.empty then Err ENOTEMPTY else Ok ()
     else if a_kind a dst = Some Dir then Err EISDIR else Ok ())"

definition a_move :: "nat \<Rightarrow> name \<Rightarrow> nat \<Rightarrow> name \<Rightarrow> nat \<Rightarrow> afs \<Rightarrow> afs" where
  "a_move self old target new src a =
    (let a' = a\<lparr>a_names := bind_name target new src (unbind_name self old (a_names a)),
                a_size := raise_by target 1 (drop_by self 1 (a_size a))\<rparr>
     in if a_kind a src = Some Dir
        then a'\<lparr>a_nlinks := raise_by target 1 (drop_by self 1 (a_nlinks a)), a_parent := (a_parent a)(src \<mapsto> target)\<rparr> else a')"

definition a_replace :: "nat \<Rightarrow> name \<Rightarrow> nat \<Rightarrow> name \<Rightarrow> nat \<Rightarrow> afs \<Rightarrow> afs" where
  "a_replace self old target new src a =
    (let a' = a\<lparr>a_names := bind_name target new src (unbind_name self old (a_names a)), a_size := drop_by self 1 (a_size a)\<rparr>
     in if a_kind a src = Some Dir
        then a'\<lparr>a_nlinks := drop_by self 1 (a_nlinks a), a_parent := (a_parent a)(src \<mapsto> target)\<rparr> else a')"

definition spec_rename :: "nat \<Rightarrow> name \<Rightarrow> inode_ref \<Rightarrow> name \<Rightarrow> afs \<Rightarrow> unit res \<times> afs" where
  "spec_rename self old tref new a =
    (if a_kind a self \<noteq> Some Dir then (Err ENOTDIR, a)
     else case tref of Foreign \<Rightarrow> (Err EXDEV, a)
     | Local target \<Rightarrow>
         if a_kind a target \<noteq> Some Dir then (Err ENOTDIR, a)
         else if special old \<or> special new then (Err EISDIR, a)
         else case a_names a self old of None \<Rightarrow> (Err ENOENT, a)
         | Some src \<Rightarrow>
             if self \<noteq> target \<and> src = target then (Err EINVAL, a)
             else case a_names a target new of None \<Rightarrow> (Ok (), a_move self old target new src a)
             | Some dst \<Rightarrow>
                 if self \<noteq> target \<and> dst = self then (Err ENOTEMPTY, a)
                 else case replaceable src dst a of Inl e \<Rightarrow> (Inl e, a) | Inr _ \<Rightarrow> (Ok (), a_replace self old target new src a))"

section \<open>References\<close>

definition refs :: "names \<Rightarrow> nat \<Rightarrow> (nat \<times> name) set" where "refs M c = {(d, nm). M d nm = Some c}"

definition subdirs :: "(nat \<rightharpoonup> inode_type) \<Rightarrow> names \<Rightarrow> nat \<Rightarrow> name set" where
  "subdirs K M d = {nm. \<exists>c. M d nm = Some c \<and> K c = Some Dir}"

text \<open>The links of an inode: for a directory its own entry \<open>.\<close>, the entry in its parent and the \<open>..\<close> of each subdirectory.\<close>

definition links :: "(nat \<rightharpoonup> inode_type) \<Rightarrow> names \<Rightarrow> nat \<Rightarrow> nat" where
  "links K M c = (if K c = Some Dir then card (subdirs K M c) + (if c = ROOT_INO \<or> refs M c \<noteq> {} then 2 else 0) else card (refs M c))"

definition tree_ok :: "(nat \<rightharpoonup> inode_type) \<Rightarrow> names \<Rightarrow> (nat \<Rightarrow> nat option) \<Rightarrow> bool" where
  "tree_ok K M P \<longleftrightarrow> finite {(d, nm). M d nm \<noteq> None} \<and> K ROOT_INO = Some Dir
    \<and> (\<forall>d nm c. M d nm = Some c \<longrightarrow> K d = Some Dir \<and> K c \<noteq> None \<and> (K c = Some Dir \<longrightarrow> c \<noteq> ROOT_INO \<and> P c = Some d))
    \<and> (\<forall>c. K c = Some Dir \<longrightarrow> (\<forall>x \<in> refs M c. \<forall>y \<in> refs M c. x = y))"

definition sized :: "(nat \<rightharpoonup> inode_type) \<Rightarrow> names \<Rightarrow> (nat \<Rightarrow> nat) \<Rightarrow> bool" where
  "sized K M Z \<longleftrightarrow> (\<forall>d. K d = Some Dir \<longrightarrow> Z d = 2 + card (dom (M d)))"

text \<open>With \<open>exact\<close> the counts are the numbers of links, without it they are upper bounds.\<close>

definition counted :: "bool \<Rightarrow> (nat \<rightharpoonup> inode_type) \<Rightarrow> names \<Rightarrow> (nat \<Rightarrow> nat) \<Rightarrow> bool" where
  "counted exact K M N \<longleftrightarrow> (\<forall>c. K c \<noteq> None \<longrightarrow> links K M c \<le> N c \<and> (exact \<longrightarrow> N c = links K M c))"

definition ainv :: "bool \<Rightarrow> afs \<Rightarrow> bool" where
  "ainv exact a \<longleftrightarrow> tree_ok (a_kind a) (a_names a) (a_parent a) \<and> sized (a_kind a) (a_names a) (a_size a)
    \<and> counted exact (a_kind a) (a_names a) (a_nlinks a) \<and> (\<forall>i. a_kind a i \<noteq> None \<longrightarrow> i < a_next a)"

lemma tree_okD:
  assumes "tree_ok K M P"
  shows "finite {(d, nm). M d nm \<noteq> None}" "K ROOT_INO = Some Dir"
    "M d nm = Some c \<Longrightarrow> K d = Some Dir" "M d nm = Some c \<Longrightarrow> K c \<noteq> None"
    "M d nm = Some c \<Longrightarrow> K c = Some Dir \<Longrightarrow> c \<noteq> ROOT_INO" "M d nm = Some c \<Longrightarrow> K c = Some Dir \<Longrightarrow> P c = Some d"
    "M d nm = Some c \<Longrightarrow> M d' nm' = Some c \<Longrightarrow> K c = Some Dir \<Longrightarrow> d' = d \<and> nm' = nm"
  using assms unfolding tree_ok_def refs_def by blast+

lemma refs_bind: "M d nm = None \<Longrightarrow> refs (bind_name d nm c M) x = (if x = c then insert (d, nm) (refs M c) else refs M x)"
  by (auto simp: refs_def bind_name_def split: if_splits)

lemma subdirs_bind:
  "M d nm = None \<Longrightarrow> subdirs K (bind_name d nm c M) x = (if x = d \<and> K c = Some Dir then insert nm (subdirs K M d) else subdirs K M x)"
  by (auto simp: subdirs_def bind_name_def split: if_splits)

lemma finite_refs: "finite {(d, nm). M d nm \<noteq> None} \<Longrightarrow> finite (refs M c)"
  by (rule finite_subset [of _ "{(d, nm). M d nm \<noteq> None}"]) (auto simp: refs_def)

lemma finite_names: "finite {(d, nm). M d nm \<noteq> None} \<Longrightarrow> finite (dom (M d))"
  by (rule finite_subset [of _ "snd ` {(d, nm). M d nm \<noteq> None}"]) force+

lemma finite_subdirs: "finite {(d, nm). M d nm \<noteq> None} \<Longrightarrow> finite (subdirs K M d)"
  by (rule finite_subset [OF _ finite_names]) (auto simp: subdirs_def)

text \<open>What a new entry adds to the links.\<close>

lemma links_bind_file:
  assumes fin: "finite {(d, nm). M d nm \<noteq> None}" and new: "M d nm = None" and c: "K c \<noteq> Some Dir"
  shows "links K (bind_name d nm c M) = raise_by c 1 (links K M)"
proof
  fix x
  have "(d, nm) \<notin> refs M c" using new by (simp add: refs_def)
  then show "links K (bind_name d nm c M) x = raise_by c 1 (links K M) x"
    using c finite_refs [OF fin] by (auto simp: links_def raise_by_def refs_bind [where M = M, OF new] subdirs_bind [where M = M, OF new])
qed

lemma links_bind_dir:
  assumes fin: "finite {(d, nm). M d nm \<noteq> None}" and new: "M d nm = None" and c: "K c = Some Dir" "refs M c = {}" "c \<noteq> ROOT_INO"
    and d: "K d = Some Dir"
  shows "links K (bind_name d nm c M) = raise_by c 2 (raise_by d 1 (links K M))"
proof
  fix x
  have "nm \<notin> subdirs K M d" using new by (simp add: subdirs_def)
  then show "links K (bind_name d nm c M) x = raise_by c 2 (raise_by d 1 (links K M)) x"
    using c d finite_subdirs [OF fin]
    by (auto simp: links_def raise_by_def refs_bind [where M = M, OF new] subdirs_bind [where M = M, OF new])
qed

lemma bind_unbind: "M d nm = Some c \<Longrightarrow> bind_name d nm c (unbind_name d nm M) = M"
  by (simp add: bind_name_def unbind_name_def fun_upd_idem)

lemma unbind_at: "unbind_name d nm M d nm = None"
  by (simp add: unbind_name_def)

lemma unbind_Some: "unbind_name d nm M d' nm' = Some c \<longleftrightarrow> M d' nm' = Some c \<and> (d', nm') \<noteq> (d, nm)"
  by (auto simp: unbind_name_def)

lemma unbind_finite: "finite {(d, nm). M d nm \<noteq> None} \<Longrightarrow> finite {(d, nm). unbind_name e m M d nm \<noteq> None}"
  by (erule rev_finite_subset) (auto simp: unbind_name_def split: if_splits)

lemma refs_unbind:
  assumes "tree_ok K M P" "M d nm = Some c" "K c = Some Dir"
  shows "refs (unbind_name d nm M) c = {}"
  using tree_okD(7) [OF assms(1,2) _ assms(3)] by (auto simp: refs_def unbind_Some)

lemma tree_unbind: "tree_ok K M P \<Longrightarrow> tree_ok K (unbind_name d nm M) P"
  unfolding tree_ok_def refs_def by (auto simp: unbind_Some intro: unbind_finite simp del: not_None_eq)

lemma tree_bind:
  assumes t: "tree_ok K M P" and d: "K d = Some Dir" and new: "M d nm = None" and c: "K c \<noteq> None"
    and dir: "K c = Some Dir \<Longrightarrow> c \<noteq> ROOT_INO \<and> P c = Some d \<and> refs M c = {}"
  shows "tree_ok K (bind_name d nm c M) P"
proof -
  let ?M = "bind_name d nm c M"
  have "{(d', nm'). ?M d' nm' \<noteq> None} = insert (d, nm) {(d', nm'). M d' nm' \<noteq> None}"
    by (auto simp: bind_name_def split: if_splits)
  then have "finite {(d', nm'). ?M d' nm' \<noteq> None}" using tree_okD(1) [OF t] by simp
  moreover have "K d' = Some Dir \<and> K c' \<noteq> None \<and> (K c' = Some Dir \<longrightarrow> c' \<noteq> ROOT_INO \<and> P c' = Some d')"
    if "?M d' nm' = Some c'" for d' nm' c'
    using that c d dir tree_okD(3-6) [OF t, of d' nm' c'] by (auto simp: bind_name_def split: if_splits)
  moreover have "x = y" if "K c' = Some Dir" "x \<in> refs ?M c'" "y \<in> refs ?M c'" for c' x y
    using that t dir unfolding tree_ok_def refs_bind [where M = M, OF new] by (auto split: if_splits)
  ultimately show ?thesis using tree_okD(2) [OF t] unfolding tree_ok_def by blast
qed

lemma tree_parent: "tree_ok K M P \<Longrightarrow> refs M c = {} \<Longrightarrow> tree_ok K M (P(c := p))"
  unfolding tree_ok_def refs_def by (auto simp: set_eq_iff)

lemma card_bind: "M d nm = None \<Longrightarrow> finite (dom (M d)) \<Longrightarrow> card (dom (bind_name d nm c M x)) = raise_by d 1 (\<lambda>x. card (dom (M x))) x"
  by (auto simp: bind_name_def raise_by_def domIff)

section \<open>The operations keep the tree and the counts\<close>

lemma fresh_inode:
  assumes t: "tree_ok K M P" and i: "K i = None"
  shows "M i = Map.empty" "refs M i = {}" "M(i := Map.empty) = M" "tree_ok (K(i \<mapsto> ty)) M (P(i := p))" "links (K(i \<mapsto> ty)) M = links K M"
proof -
  show Mi: "M i = Map.empty" using tree_okD(3) [OF t, of i] i by fastforce
  show refs: "refs M i = {}" using tree_okD(4) [OF t, of _ _ i] i by (auto simp: refs_def)
  show "M(i := Map.empty) = M" using Mi by (simp add: fun_upd_idem)
  have root: "i \<noteq> ROOT_INO" using i tree_okD(2) [OF t] by auto
  have no: "M d nm \<noteq> Some i" for d nm using refs by (auto simp: refs_def)
  have subs: "subdirs (K(i \<mapsto> ty)) M d = subdirs K M d" for d
    unfolding subdirs_def using no by (metis (no_types, lifting) fun_upd_other)
  show "links (K(i \<mapsto> ty)) M = links K M"
    by (rule ext) (use i refs root Mi in \<open>auto simp: links_def subs\<close>, auto simp: subdirs_def)
  have "K d \<noteq> None" if "M d nm = Some c" for d nm c using tree_okD(3) [OF t that] by simp
  then have ne: "d \<noteq> i \<and> c \<noteq> i" if "M d nm = Some c" for d nm c using that no i by metis
  show "tree_ok (K(i \<mapsto> ty)) M (P(i := p))"
    unfolding tree_ok_def
  proof (intro conjI allI impI ballI)
    show "finite {(d, nm). M d nm \<noteq> None}" by (rule tree_okD(1) [OF t])
    show "(K(i \<mapsto> ty)) ROOT_INO = Some Dir" using root tree_okD(2) [OF t] by simp
  qed (use ne tree_okD [OF t] refs in \<open>auto simp: refs_def split: if_splits\<close>)
qed

lemma sized_bind:
  assumes "tree_ok K M P" "sized K M Z" "M d nm = None"
  shows "sized K (bind_name d nm c M) (raise_by d 1 Z)"
  using assms(2) card_bind [where M = M, OF assms(3) finite_names [OF tree_okD(1) [OF assms(1)]]]
  by (auto simp: sized_def raise_by_def)

lemma sized_unbind:
  assumes "tree_ok K M P" "sized K M Z" "M d nm = Some c"
  shows "sized K (unbind_name d nm M) (drop_by d 1 Z)" "2 < Z d"
proof -
  note fin = finite_names [OF tree_okD(1) [OF assms(1)], of d]
  have d: "Z d = 2 + card (dom (M d))" using assms(2) tree_okD(3) [OF assms(1,3)] by (simp add: sized_def)
  have nm: "nm \<in> dom (M d)" using assms(3) by blast
  have "dom (unbind_name d nm M d) = dom (M d) - {nm}" by (auto simp: unbind_name_def)
  moreover have "0 < card (dom (M d))" using nm fin card_gt_0_iff by blast
  ultimately show "sized K (unbind_name d nm M) (drop_by d 1 Z)" "2 < Z d"
    using d nm assms(2) by (auto simp: sized_def drop_by_def card_Diff_singleton unbind_name_def)
qed

lemma counted_step:
  assumes "counted exact K M N" "exact' \<Longrightarrow> exact"
    and "\<And>c. links K M c \<le> N c \<Longrightarrow> links K M' c \<le> N' c"
    and "\<And>c. exact' \<Longrightarrow> N c = links K M c \<Longrightarrow> N' c = links K M' c"
  shows "counted exact' K M' N'"
  using assms unfolding counted_def by blast

lemma ainvD:
  assumes "ainv exact a"
  shows "tree_ok (a_kind a) (a_names a) (a_parent a)" "sized (a_kind a) (a_names a) (a_size a)"
    "counted exact (a_kind a) (a_names a) (a_nlinks a)" "a_kind a i \<noteq> None \<Longrightarrow> i < a_next a"
  using assms by (auto simp: ainv_def)

text \<open>The links of an entry that is taken away.\<close>

lemma links_unbind_file:
  assumes t: "tree_ok K M P" and m: "M d nm = Some c" and c: "K c \<noteq> Some Dir"
  shows "links K M = raise_by c 1 (links K (unbind_name d nm M))"
  using links_bind_file [where M = "unbind_name d nm M" and d = d and nm = nm and c = c and K = K, OF unbind_finite [OF tree_okD(1) [OF t]] unbind_at c]
  by (simp only: bind_unbind [where M = M, OF m])

lemma links_unbind_dir:
  assumes t: "tree_ok K M P" and m: "M d nm = Some c" and c: "K c = Some Dir"
  shows "links K M = raise_by c 2 (raise_by d 1 (links K (unbind_name d nm M)))"
  using links_bind_dir [where M = "unbind_name d nm M" and d = d and nm = nm and c = c and K = K,
      OF unbind_finite [OF tree_okD(1) [OF t]] unbind_at c refs_unbind [OF t m c] tree_okD(5) [OF t m c] tree_okD(3) [OF t m]]
  by (simp only: bind_unbind [where M = M, OF m])

lemma links_pos:
  assumes "tree_ok K M P" "M d nm = Some c"
  shows "K c \<noteq> Some Dir \<Longrightarrow> 1 \<le> links K M c" "K c = Some Dir \<Longrightarrow> 2 \<le> links K M c" "K c = Some Dir \<Longrightarrow> 1 \<le> links K M d"
    "K c = Some Dir \<Longrightarrow> d = c \<Longrightarrow> 3 \<le> links K M c"
  using links_unbind_file [OF assms] links_unbind_dir [OF assms] by (auto simp: raise_by_def)

lemma ainv_create:
  assumes inv: "ainv exact a"
  shows "ainv exact (snd (spec_create self nm ty a))"
proof (cases "a_kind a self = Some Dir \<and> \<not> length nm > NAME_MAX \<and> \<not> (special nm \<or> a_names a self nm \<noteq> None)")
  case False
  then show ?thesis using inv by (auto simp: spec_create_def)
next
  case True
  let ?i = "a_next a" let ?K = "(a_kind a)(?i \<mapsto> ty)" and ?M = "a_names a" and ?P = "(a_parent a)(?i := if ty = Dir then Some self else None)"
  let ?N = "(a_nlinks a)(?i := if ty = Dir then 2 else 1)" and ?Z = "(a_size a)(?i := if ty = Dir then 2 else 0)"
  let ?N' = "if ty = Dir then raise_by self 1 ?N else ?N"
  note i = ainvD [OF inv]
  have K: "a_kind a ?i = None" using i(4) [of ?i] by (cases "a_kind a ?i") auto
  note f = fresh_inode [OF i(1) K]
  have self: "self \<noteq> ?i" "?K self = Some Dir" using True K by auto
  have new: "?M self nm = None" using True by simp
  have t: "tree_ok ?K ?M ?P" by (rule f(4))
  have dir: "?K ?i = Some Dir \<Longrightarrow> ?i \<noteq> ROOT_INO \<and> ?P ?i = Some self \<and> refs ?M ?i = {}"
    using K tree_okD(2) [OF i(1)] f(2) by auto
  have t': "tree_ok ?K (bind_name self nm ?i ?M) ?P" by (rule tree_bind [OF t self(2) new _ dir]) simp
  have z: "sized ?K ?M ?Z" using i(2) f(1) by (auto simp: sized_def)
  have l0: "links (a_kind a) ?M ?i = 0" using K f(2) by (simp add: links_def)
  have c: "links (a_kind a) ?M x \<le> a_nlinks a x \<and> (exact \<longrightarrow> a_nlinks a x = links (a_kind a) ?M x)" if "a_kind a x \<noteq> None" for x
    using i(3) that by (simp add: counted_def)
  have "counted exact ?K (bind_name self nm ?i ?M) ?N'"
  proof (cases "ty = Dir")
    case True
    have "links ?K (bind_name self nm ?i ?M) = raise_by ?i 2 (raise_by self 1 (links ?K ?M))"
      by (rule links_bind_dir [where M = ?M, OF tree_okD(1) [OF t] new _ f(2)]) (use True dir self in auto)
    then show ?thesis using True c l0 self unfolding f(5) counted_def by (auto simp: raise_by_def)
  next
    case False
    have "links ?K (bind_name self nm ?i ?M) = raise_by ?i 1 (links ?K ?M)"
      by (rule links_bind_file [where M = ?M, OF tree_okD(1) [OF t] new]) (use False in auto)
    then show ?thesis using False c l0 self unfolding f(5) counted_def by (auto simp: raise_by_def)
  qed
  moreover have "\<forall>x. ?K x \<noteq> None \<longrightarrow> x < ?i + 1" using i(4) by (auto simp: less_Suc_eq)
  ultimately show ?thesis
    using True t' sized_bind [OF t z new] f(3) by (auto simp: spec_create_def ainv_def a_add_def a_new_def Let_def)
qed

lemma ainv_link:
  assumes inv: "ainv exact a" and old: "\<And>i. old = Local i \<Longrightarrow> a_kind a i \<noteq> None"
  shows "ainv exact (snd (spec_link self old nm a))"
proof (cases "\<exists>i. old = Local i \<and> a_kind a self = Some Dir \<and> a_kind a i \<noteq> Some Dir \<and> \<not> (special nm \<or> a_names a self nm \<noteq> None)")
  case False
  then show ?thesis using inv by (auto simp: spec_link_def split: inode_ref.splits)
next
  case True
  then obtain i where g: "old = Local i" "a_kind a self = Some Dir" "a_kind a i \<noteq> Some Dir" "\<not> special nm" "a_names a self nm = None" by auto
  note f = ainvD [OF inv]
  have "tree_ok (a_kind a) (bind_name self nm i (a_names a)) (a_parent a)"
    by (rule tree_bind [OF f(1) g(2,5) old [OF g(1)]]) (use g in auto)
  moreover have "counted exact (a_kind a) (bind_name self nm i (a_names a)) (raise_by i 1 (a_nlinks a))"
    using links_bind_file [where M = "a_names a" and K = "a_kind a" and c = i, OF tree_okD(1) [OF f(1)] g(5,3)]
    by (intro counted_step [OF f(3)]) (auto simp: raise_by_def)
  ultimately show ?thesis
    using g f(4) sized_bind [OF f(1,2) g(5)] by (auto simp: spec_link_def ainv_def a_add_def Let_def)
qed

lemma ainv_unlink:
  assumes inv: "ainv exact a"
  shows "ainv exact (snd (spec_unlink self nm a))"
proof (cases "\<exists>c. a_kind a self = Some Dir \<and> \<not> special nm \<and> a_names a self nm = Some c \<and> a_kind a c \<noteq> Some Dir")
  case False
  then show ?thesis using inv by (auto simp: spec_unlink_def split: option.splits)
next
  case True
  then obtain c where g: "a_kind a self = Some Dir" "\<not> special nm" "a_names a self nm = Some c" "a_kind a c \<noteq> Some Dir" by auto
  note f = ainvD [OF inv]
  have "counted exact (a_kind a) (unbind_name self nm (a_names a)) (drop_by c 1 (a_nlinks a))"
    using links_unbind_file [OF f(1) g(3,4)] by (intro counted_step [OF f(3)]) (auto simp: raise_by_def drop_by_def)
  then show ?thesis
    using g f(4) sized_unbind [OF f(1,2) g(3)] tree_unbind [OF f(1)] by (auto simp: spec_unlink_def ainv_def a_del_def Let_def)
qed

lemma ainv_rmdir:
  assumes inv: "ainv exact a"
  shows "ainv exact (snd (spec_rmdir self nm a))"
proof (cases "\<exists>c. a_kind a self = Some Dir \<and> nm \<noteq> DOT \<and> nm \<noteq> DOTDOT \<and> a_names a self nm = Some c \<and> a_kind a c = Some Dir
    \<and> a_names a c = Map.empty")
  case False
  then show ?thesis using inv by (auto simp: spec_rmdir_def split: option.splits)
next
  case True
  then obtain c where g: "a_kind a self = Some Dir" "nm \<noteq> DOT" "nm \<noteq> DOTDOT" "a_names a self nm = Some c" "a_kind a c = Some Dir"
    "a_names a c = Map.empty" by auto
  note f = ainvD [OF inv]
  have "counted exact (a_kind a) (unbind_name self nm (a_names a)) (drop_by c 2 (drop_by self 1 (a_nlinks a)))"
    using links_unbind_dir [OF f(1) g(4,5)] by (intro counted_step [OF f(3)]) (auto simp: raise_by_def drop_by_def)
  then show ?thesis
    using g f(4) sized_unbind [OF f(1,2) g(4)] tree_unbind [OF f(1)] by (auto simp: spec_rmdir_def ainv_def a_del_def Let_def)
qed

text \<open>An entry that moves to a free name.\<close>

lemma ainv_move:
  assumes inv: "ainv exact a" and src: "a_names a self old = Some src" and new: "a_names a target new = None"
    and tgt: "a_kind a target = Some Dir"
  shows "ainv exact (a_move self old target new src a)"
proof -
  let ?K = "a_kind a" and ?M = "a_names a"
  let ?U = "unbind_name self old ?M"
  let ?P = "if ?K src = Some Dir then (a_parent a)(src \<mapsto> target) else a_parent a"
  let ?N = "if ?K src = Some Dir then raise_by target 1 (drop_by self 1 (a_nlinks a)) else a_nlinks a"
  note f = ainvD [OF inv]
  have u: "tree_ok ?K ?U (a_parent a)" by (rule tree_unbind [OF f(1)])
  have free: "?U target new = None" using new by (auto simp: unbind_name_def)
  have dir: "?K src = Some Dir \<Longrightarrow> src \<noteq> ROOT_INO \<and> ?P src = Some target \<and> refs ?U src = {}"
    using tree_okD(5) [OF f(1) src] refs_unbind [OF f(1) src] by simp
  have p: "tree_ok ?K ?U ?P" using u tree_parent [OF u, of src "Some target"] dir by simp
  have t: "tree_ok ?K (bind_name target new src ?U) ?P"
    by (rule tree_bind [OF p tgt free tree_okD(4) [OF f(1) src] dir])
  have z: "sized ?K (bind_name target new src ?U) (raise_by target 1 (drop_by self 1 (a_size a)))"
    by (rule sized_bind [OF u sized_unbind(1) [OF f(1,2) src] free])
  have "counted exact ?K (bind_name target new src ?U) ?N"
  proof (cases "?K src = Some Dir")
    case True
    have "links ?K (bind_name target new src ?U) = raise_by src 2 (raise_by target 1 (links ?K ?U))"
      by (rule links_bind_dir [where M = ?U and K = ?K and c = src, OF tree_okD(1) [OF u] free True]) (use dir True tgt in auto)
    then show ?thesis
      using True links_unbind_dir [OF f(1) src True] by (intro counted_step [OF f(3)]) (auto simp: raise_by_def drop_by_def split: if_splits)
  next
    case False
    have "links ?K (bind_name target new src ?U) = raise_by src 1 (links ?K ?U)"
      by (rule links_bind_file [where M = ?U and K = ?K and c = src, OF tree_okD(1) [OF u] free False])
    then show ?thesis
      using False links_unbind_file [OF f(1) src False] by (intro counted_step [OF f(3)]) simp_all
  qed
  with t z f(4) show ?thesis by (auto simp: ainv_def a_move_def Let_def)
qed

text \<open>An entry that takes the place of another: the inode that was there keeps its count, so only the bounds remain.\<close>

lemma ainv_replace:
  assumes inv: "ainv exact a" and src: "a_names a self old = Some src" and dst: "a_names a target new = Some dst"
    and tgt: "a_kind a target = Some Dir" and ne: "(self, old) \<noteq> (target, new)" and ok: "replaceable src dst a = Ok ()"
  shows "ainv False (a_replace self old target new src a)"
proof -
  let ?K = "a_kind a" and ?M = "a_names a"
  let ?U = "unbind_name self old ?M" let ?V = "unbind_name target new ?U"
  let ?P = "if ?K src = Some Dir then (a_parent a)(src \<mapsto> target) else a_parent a"
  let ?N = "if ?K src = Some Dir then drop_by self 1 (a_nlinks a) else a_nlinks a"
  note f = ainvD [OF inv]
  have u: "tree_ok ?K ?U (a_parent a)" by (rule tree_unbind [OF f(1)])
  have d: "?U target new = Some dst" using dst ne by (auto simp: unbind_name_def)
  have v: "tree_ok ?K ?V (a_parent a)" by (rule tree_unbind [OF u])
  have dir: "?K src = Some Dir \<Longrightarrow> src \<noteq> ROOT_INO \<and> ?P src = Some target \<and> refs ?V src = {}"
    using tree_okD(5) [OF f(1) src] refs_unbind [OF f(1) src] by (auto simp: refs_def unbind_Some)
  have same: "?K src = Some Dir \<longleftrightarrow> ?K dst = Some Dir" using ok by (auto simp: replaceable_def split: if_splits)
  have eq: "bind_name target new src ?U = bind_name target new src ?V" by (simp add: bind_name_def unbind_name_def)
  have p: "tree_ok ?K ?V ?P" using v tree_parent [OF v, of src "Some target"] dir by simp
  have t: "tree_ok ?K (bind_name target new src ?U) ?P"
    unfolding eq by (rule tree_bind [OF p tgt unbind_at tree_okD(4) [OF f(1) src] dir])
  note z1 = sized_unbind [OF f(1,2) src]
  note z2 = sized_unbind [OF u z1(1) d]
  have "raise_by target 1 (drop_by target 1 (drop_by self 1 (a_size a))) = drop_by self 1 (a_size a)"
    using z2(2) by (auto simp: raise_by_def drop_by_def)
  then have z: "sized ?K (bind_name target new src ?U) (drop_by self 1 (a_size a))"
    unfolding eq using sized_bind [OF v z2(1), of target new src] by (simp add: unbind_at)
  have "counted False ?K (bind_name target new src ?U) ?N"
  proof (cases "?K src = Some Dir")
    case True
    then have D: "?K dst = Some Dir" using same by simp
    have "links ?K (bind_name target new src ?V) = raise_by src 2 (raise_by target 1 (links ?K ?V))"
      by (rule links_bind_dir [where M = ?V and K = ?K and c = src, OF tree_okD(1) [OF v] unbind_at True]) (use dir True tgt in auto)
    then show ?thesis
      using True links_unbind_dir [OF f(1) src True] links_unbind_dir [OF u d D] unfolding eq
      by (intro counted_step [OF f(3)]) (auto simp: raise_by_def drop_by_def split: if_splits)
  next
    case False
    then have D: "?K dst \<noteq> Some Dir" using same by simp
    have "links ?K (bind_name target new src ?V) = raise_by src 1 (links ?K ?V)"
      by (rule links_bind_file [where M = ?V and K = ?K and c = src, OF tree_okD(1) [OF v] unbind_at False])
    then show ?thesis
      using False links_unbind_file [OF f(1) src False] links_unbind_file [OF u d D] unfolding eq
      by (intro counted_step [OF f(3)]) (auto simp: raise_by_def split: if_splits)
  qed
  with t z f(4) show ?thesis by (auto simp: ainv_def a_replace_def Let_def)
qed

lemma ainv_weaken: "ainv exact a \<Longrightarrow> ainv (exact \<and> b) a"
  by (auto simp: ainv_def counted_def)

text \<open>Whether a rename puts its entry in the place of another one.\<close>

definition replaces :: "nat \<Rightarrow> name \<Rightarrow> inode_ref \<Rightarrow> name \<Rightarrow> afs \<Rightarrow> bool" where
  "replaces self old tref new a \<longleftrightarrow> (case tref of Foreign \<Rightarrow> False | Local target \<Rightarrow>
     fst (spec_rename self old tref new a) = Ok () \<and> a_names a target new \<noteq> None)"

lemma ainv_rename:
  assumes inv: "ainv exact a" and ne: "tref \<noteq> Local self \<or> old \<noteq> new"
  shows "ainv (exact \<and> \<not> replaces self old tref new a) (snd (spec_rename self old tref new a))"
proof (cases "\<exists>target src. tref = Local target \<and> a_kind a self = Some Dir \<and> a_kind a target = Some Dir \<and> \<not> special old \<and> \<not> special new
    \<and> a_names a self old = Some src \<and> \<not> (self \<noteq> target \<and> src = target)")
  case False
  then have "snd (spec_rename self old tref new a) = a"
    by (cases tref; cases "a_names a self old") (simp_all add: spec_rename_def, blast)
  then show ?thesis using ainv_weaken [OF inv] by simp
next
  case True
  then obtain target src where g: "tref = Local target" "a_kind a self = Some Dir" "a_kind a target = Some Dir" "\<not> special old" "\<not> special new"
    "a_names a self old = Some src" "\<not> (self \<noteq> target \<and> src = target)" by blast
  show ?thesis
  proof (cases "a_names a target new")
    case None
    then show ?thesis using g ainv_move [OF inv g(6) None g(3)] by (auto simp: spec_rename_def replaces_def)
  next
    case (Some dst)
    have ne': "(self, old) \<noteq> (target, new)" using ne g(1) by auto
    show ?thesis
    proof (cases "(self \<noteq> target \<and> dst = self) \<or> replaceable src dst a \<noteq> Ok ()")
      case True
      then have "snd (spec_rename self old tref new a) = a"
        using g Some by (cases "replaceable src dst a") (auto simp: spec_rename_def)
      then show ?thesis using ainv_weaken [OF inv] by simp
    next
      case False
      then have "replaceable src dst a = Ok ()" by simp
      from ainv_replace [OF inv g(6) Some g(3) ne' this] g Some False show ?thesis
        by (auto simp: spec_rename_def replaces_def)
    qed
  qed
qed

end
