(* ===== verification/Ramfs_Refine.thy ===== *)
theory Ramfs_Refine
  imports Ramfs_Spec
begin

text \<open>
  The in-memory file system implements name spaces: on a well-typed state whose counts bound the links, each operation
  of \<open>RamInode\<close> returns what the abstract operation returns, and the state it leaves shows what the abstract operation
  leaves. In particular none of its \<open>unwrap\<close>s and assertions panics.
\<close>

section \<open>The name space of a state\<close>

definition abs_names :: "('pc, 'dev) ramfs \<Rightarrow> names" where
  "abs_names s i = (case rf_inodes s i of
     None \<Rightarrow> Map.empty
   | Some n \<Rightarrow> (case in_inner n of DirInner d \<Rightarrow> map_of (sv_iter (de_children d)) | _ \<Rightarrow> Map.empty))"

definition abs_fs :: "('pc, 'dev) ramfs \<Rightarrow> afs" where
  "abs_fs s = \<lparr>a_kind = kind s, a_names = abs_names s, a_nlinks = v_nlinks (view s), a_parent = v_parent (view s),
     a_size = v_size (view s), a_next = rf_next s\<rparr>"

definition names_of :: "(nat \<rightharpoonup> name \<times> nat) \<Rightarrow> name \<rightharpoonup> nat" where
  "names_of S nm = (if \<exists>k c. S k = Some (nm, c) then Some (SOME c. \<exists>k. S k = Some (nm, c)) else None)"

definition absv :: "fsview \<Rightarrow> afs" where
  "absv v = \<lparr>a_kind = v_kind v, a_names = (\<lambda>i. names_of (v_slots v i)), a_nlinks = v_nlinks v, a_parent = v_parent v,
     a_size = v_size v, a_next = v_next v\<rparr>"

text \<open>Every operation keeps the state well typed and agrees with its abstract counterpart.\<close>

definition sim :: "(('pc, 'dev) ramfs, 'a) sr \<Rightarrow> (afs \<Rightarrow> 'a res \<times> afs) \<Rightarrow> ('pc, 'dev) ramfs \<Rightarrow> bool" where
  "sim m f s \<longleftrightarrow> rf_ok (snd (m s)) \<and> (fst (m s), abs_fs (snd (m s))) = f (abs_fs s)"

lemma simI: "m s = (r, s') \<Longrightarrow> rf_ok s' \<Longrightarrow> f (abs_fs s) = (r, abs_fs s') \<Longrightarrow> sim m f s"
  by (simp add: sim_def)

lemma names_of_iff: "slots_ok K S \<Longrightarrow> names_of S nm = Some c \<longleftrightarrow> (\<exists>k. S k = Some (nm, c))"
proof -
  assume S: "slots_ok K S"
  have u: "c = c'" if "S k = Some (nm, c)" "S k' = Some (nm, c')" for k k' c c'
    using S that unfolding slots_ok_def by (metis option.inject prod.inject)
  have "(SOME c. \<exists>k. S k = Some (nm, c)) = c" if "S k = Some (nm, c)" for k c
    by (rule some_equality) (use that u in blast)+
  then show ?thesis by (auto simp: names_of_def)
qed

lemma names_of_None: "names_of S nm = None \<longleftrightarrow> (\<forall>k c. S k \<noteq> Some (nm, c))"
  by (simp add: names_of_def)

lemma slots_ok_view: "rf_ok s \<Longrightarrow> slots_ok (kind s) (v_slots (view s) i)"
proof (cases "kind s i = Some Dir")
  case True
  assume "rf_ok s"
  from dir_inode [OF this True] show ?thesis by (metis dir_ok_def)
next
  case False
  assume ok: "rf_ok s"
  have "v_slots (view s) i = Map.empty"
  proof (cases "rf_inodes s i")
    case (Some n)
    have "ri_type n \<noteq> Dir" using False Some by (simp add: kind_def)
    from inode_ok_not_dir [OF rf_okD(4) [OF ok Some] this] show ?thesis
      using view_at(4) [OF Some] by (auto simp: inner_slots_def split: inner.splits)
  qed (simp add: view_def)
  then show ?thesis by (simp add: slots_ok_def)
qed

lemma names_of_iter:
  assumes "slots_ok K (sv_lookup v)" "sv_inv v"
  shows "map_of (sv_iter v) = names_of (sv_lookup v)"
proof
  fix nm
  show "map_of (sv_iter v) nm = names_of (sv_lookup v) nm"
  proof (cases "map_of (sv_iter v) nm")
    case None
    then have "\<forall>k c. sv_lookup v k \<noteq> Some (nm, c)" by (auto simp: map_of_eq_None_iff image_iff set_sv_iter ran_def)
    then show ?thesis using None names_of_None by metis
  next
    case (Some c)
    then have "\<exists>k. sv_lookup v k = Some (nm, c)" using map_of_SomeD [OF Some] by (auto simp: set_sv_iter ran_def)
    then show ?thesis using Some names_of_iff [OF assms(1)] by metis
  qed
qed

lemma abs_eq: assumes ok: "rf_ok s" shows "abs_fs s = absv (view s)"
proof -
  have "abs_names s i = names_of (v_slots (view s) i)" for i
  proof (cases "rf_inodes s i")
    case (Some n)
    show ?thesis
    proof (cases "in_inner n")
      case (DirInner d)
      have "dir_ok (kind s) i d" using rf_okD(4) [OF ok Some] DirInner by (simp add: inode_ok_def inner_ok_def)
      then show ?thesis
        using Some DirInner view_at(4) [OF Some] names_of_iter by (auto simp: abs_names_def dir_ok_def)
    qed (use Some view_at(4) [OF Some] in \<open>simp_all add: abs_names_def inner_slots_def names_of_def fun_eq_iff\<close>)
  qed (simp add: abs_names_def view_def names_of_def fun_eq_iff)
  then show ?thesis by (simp add: abs_fs_def absv_def fun_eq_iff) (simp add: view_def)
qed

lemma abs_sel [simp]: "a_kind (abs_fs s) = kind s" "a_nlinks (abs_fs s) = v_nlinks (view s)" "a_parent (abs_fs s) = v_parent (view s)"
    "a_size (abs_fs s) = v_size (view s)" "a_next (abs_fs s) = rf_next s"
  by (simp_all add: abs_fs_def)

lemma abs_names_iff: "rf_ok s \<Longrightarrow> a_names (abs_fs s) i nm = Some c \<longleftrightarrow> (\<exists>k. v_slots (view s) i k = Some (nm, c))"
  using names_of_iff [OF slots_ok_view] by (simp add: abs_eq absv_def)

lemma abs_names_None: "rf_ok s \<Longrightarrow> a_names (abs_fs s) i nm = None \<longleftrightarrow> (\<forall>k c. v_slots (view s) i k \<noteq> Some (nm, c))"
  by (simp add: abs_eq absv_def names_of_None)

lemma map_eqI:
  assumes "\<And>m x. f m = Some x \<longleftrightarrow> g m = Some x"
  shows "f = g"
proof
  fix m
  show "f m = g m" using assms [of m "the (f m)"] assms [of m "the (g m)"] by (cases "f m"; cases "g m") simp_all
qed

lemma names_of_other:
  assumes "slots_ok K S"
  shows "(\<exists>j. j \<noteq> k \<and> S j = Some (m, x)) \<longleftrightarrow> names_of S m = Some x \<and> (\<forall>y. S k \<noteq> Some (m, y))"
proof -
  have uniq: "k1 = k2" if "S k1 = Some (m, x)" "S k2 = Some (m, y)" for k1 k2 m x y
    using assms that by (auto simp: slots_ok_def)
  then show ?thesis unfolding names_of_iff [OF assms] by (metis option.inject prod.inject)
qed

lemma names_of_put:
  assumes "slots_ok K S" "\<And>k' c'. k' \<noteq> k \<Longrightarrow> S k' \<noteq> Some (nm, c')" "entry_name nm" "K c \<noteq> None"
  shows "names_of (S(k \<mapsto> (nm, c))) = (case S k of None \<Rightarrow> names_of S | Some (nm', _) \<Rightarrow> (names_of S)(nm' := None))(nm \<mapsto> c)" (is "?l = ?r")
proof -
  have ok: "slots_ok K (S(k \<mapsto> (nm, c)))" by (rule slots_ok_put [OF assms(1,3,4) assms(2)])
  have at: "(\<exists>j. (S(k \<mapsto> (nm, c))) j = Some (m, x)) \<longleftrightarrow> (if m = nm then x = c else \<exists>j. j \<noteq> k \<and> S j = Some (m, x))" for m x
    using assms(2) by (auto split: if_splits)
  have "?l m = Some x \<longleftrightarrow> ?r m = Some x" for m x
    unfolding names_of_iff [OF ok] at names_of_other [OF assms(1)] by (auto split: option.splits)
  then show ?thesis by (rule map_eqI)
qed

lemma names_of_remove:
  assumes "slots_ok K S" "S k = Some (nm, c)"
  shows "names_of (S(k := None)) = (names_of S)(nm := None)" (is "?l = ?r")
proof -
  have at: "(\<exists>j. (S(k := None)) j = Some (m, x)) \<longleftrightarrow> (\<exists>j. j \<noteq> k \<and> S j = Some (m, x))" for m x
    by (auto split: if_splits)
  have "?l m = Some x \<longleftrightarrow> ?r m = Some x" for m x
    unfolding names_of_iff [OF slots_ok_remove [OF assms(1)]] at names_of_other [OF assms(1)] using assms(2) by auto
  then show ?thesis by (rule map_eqI)
qed

section \<open>Steps on the name space\<close>

lemma absv_upd [simp]:
  "absv (v\<lparr>v_slots := (v_slots v)(i := S)\<rparr>) = (absv v)\<lparr>a_names := (a_names (absv v))(i := names_of S)\<rparr>"
  "absv (v\<lparr>v_nlinks := N\<rparr>) = (absv v)\<lparr>a_nlinks := N\<rparr>" "absv (v\<lparr>v_parent := P\<rparr>) = (absv v)\<lparr>a_parent := P\<rparr>"
  "absv (v\<lparr>v_size := Z\<rparr>) = (absv v)\<lparr>a_size := Z\<rparr>"
  by (simp_all add: absv_def fun_eq_iff)

lemma absv_sel [simp]: "a_nlinks (absv v) = v_nlinks v" "a_parent (absv v) = v_parent v" "a_size (absv v) = v_size v"
    "a_kind (absv v) = v_kind v" "a_next (absv v) = v_next v"
  by (simp_all add: absv_def)

lemma step_append:
  assumes ok: "rf_ok s" and i: "kind s i = Some Dir" and nm: "entry_name nm" "cstr256 nm = nm" and c: "kind s c \<noteq> None"
    and fresh: "a_names (abs_fs s) i nm = None"
  shows "\<exists>s'. wr i (upd_dir (append_entry nm c)) s = (Ok (), s') \<and> rf_ok s' \<and> abs_fs s' = (abs_fs s)\<lparr>a_names := bind_name i nm c (a_names (abs_fs s))\<rparr>"
proof -
  have fr: "v_slots (view s) i k \<noteq> Some (nm, c')" for k c' using fresh abs_names_None [OF ok] by simp
  from wr_append [OF ok i nm c fr] obtain k s' where w: "wr i (upd_dir (append_entry nm c)) s = (Ok (), s')" "rf_ok s'" "v_slots (view s) i k = None"
    "view s' = (view s)\<lparr>v_slots := (v_slots (view s))(i := (v_slots (view s) i)(k \<mapsto> (nm, c)))\<rparr>" by blast
  have "names_of ((v_slots (view s) i)(k \<mapsto> (nm, c))) = (names_of (v_slots (view s) i))(nm \<mapsto> c)"
    using names_of_put [OF slots_ok_view [OF ok] fr nm(1) c, where k = k] w(3) by simp
  with w show ?thesis by (simp add: abs_eq ok bind_name_def) (simp add: absv_def)
qed

lemma step_remove:
  assumes ok: "rf_ok s" and i: "kind s i = Some Dir" and k: "v_slots (view s) i k = Some (nm, c)"
  shows "\<exists>s'. wr i (upd_dir (remove_entry (k + 2))) s = (Ok (), s') \<and> rf_ok s' \<and> abs_fs s' = (abs_fs s)\<lparr>a_names := unbind_name i nm (a_names (abs_fs s))\<rparr>
    \<and> v_slots (view s') = (v_slots (view s))(i := (v_slots (view s) i)(k := None))"
proof -
  from wr_remove [OF ok i k] obtain s' where w: "wr i (upd_dir (remove_entry (k + 2))) s = (Ok (), s')" "rf_ok s'"
    "view s' = (view s)\<lparr>v_slots := (v_slots (view s))(i := (v_slots (view s) i)(k := None))\<rparr>" by blast
  with names_of_remove [where S = "v_slots (view s) i", OF slots_ok_view [OF ok] k] show ?thesis
    by (simp add: abs_eq ok unbind_name_def) (simp add: absv_def)
qed

lemma step_substitute:
  assumes ok: "rf_ok s" and i: "kind s i = Some Dir" and k: "v_slots (view s) i k = Some (old, c0)" and nm: "entry_name nm" and c: "kind s c \<noteq> None"
    and fresh: "a_names (abs_fs s) i nm = None"
  shows "\<exists>s'. wr i (upd_dir (substitute_entry (k + 2) (nm, c))) s = (Ok (), s') \<and> rf_ok s'
    \<and> abs_fs s' = (abs_fs s)\<lparr>a_names := bind_name i nm c (unbind_name i old (a_names (abs_fs s)))\<rparr>"
proof -
  have fr: "v_slots (view s) i k' \<noteq> Some (nm, c')" for k' c' using fresh abs_names_None [OF ok] by simp
  from wr_substitute [OF ok i k nm c fr] obtain s' where w: "wr i (upd_dir (substitute_entry (k + 2) (nm, c))) s = (Ok (), s')" "rf_ok s'"
    "view s' = (view s)\<lparr>v_slots := (v_slots (view s))(i := (v_slots (view s) i)(k \<mapsto> (nm, c)))\<rparr>" by blast
  have "names_of ((v_slots (view s) i)(k \<mapsto> (nm, c))) = (names_of (v_slots (view s) i))(old := None, nm \<mapsto> c)"
    using names_of_put [OF slots_ok_view [OF ok] fr nm c, where k = k] k by simp
  with w show ?thesis by (simp add: abs_eq ok bind_name_def unbind_name_def) (simp add: absv_def)
qed

lemma absD: "abs_fs s' = a \<Longrightarrow> kind s' = a_kind a" "abs_fs s' = a \<Longrightarrow> v_nlinks (view s') = a_nlinks a" "abs_fs s' = a \<Longrightarrow> v_size (view s') = a_size a"
  by auto

lemma step_inc_nlinks:
  assumes "rf_ok s" "kind s i \<noteq> None"
  shows "\<exists>s'. wr i (\<lambda>n. Ok (inc_nlinks n)) s = (Ok (), s') \<and> rf_ok s' \<and> abs_fs s' = (abs_fs s)\<lparr>a_nlinks := raise_by i 1 (a_nlinks (abs_fs s))\<rparr>"
  using wr_inc_nlinks [OF assms] assms(1) by (auto simp: abs_eq raise_by_def)

lemma step_dec_nlinks:
  assumes "rf_ok s" "kind s i \<noteq> None" "0 < a_nlinks (abs_fs s) i"
  shows "\<exists>s'. wr i dec_nlinks s = (Ok (), s') \<and> rf_ok s' \<and> abs_fs s' = (abs_fs s)\<lparr>a_nlinks := drop_by i 1 (a_nlinks (abs_fs s))\<rparr>"
  using wr_dec_nlinks [OF assms(1,2)] assms by (auto simp: abs_eq drop_by_def)

lemma step_dec_nlinks2:
  assumes "rf_ok s" "kind s i \<noteq> None" "2 \<le> a_nlinks (abs_fs s) i"
  shows "\<exists>s1 s'. wr i dec_nlinks s = (Ok (), s1) \<and> wr i dec_nlinks s1 = (Ok (), s') \<and> rf_ok s'
    \<and> abs_fs s' = (abs_fs s)\<lparr>a_nlinks := drop_by i 2 (a_nlinks (abs_fs s))\<rparr>"
proof -
  from step_dec_nlinks [OF assms(1,2)] assms(3) obtain s1 where
    s1: "wr i dec_nlinks s = (Ok (), s1)" "rf_ok s1" "abs_fs s1 = (abs_fs s)\<lparr>a_nlinks := drop_by i 1 (a_nlinks (abs_fs s))\<rparr>" by auto
  have "kind s1 i \<noteq> None" "0 < a_nlinks (abs_fs s1) i" using absD(1) [OF s1(3)] assms(2,3) s1(3) by (auto simp: drop_by_def)
  from step_dec_nlinks [OF s1(2) this] s1 show ?thesis by (auto simp: drop_by_def numeral_2_eq_2)
qed

lemma step_inc_size:
  assumes "rf_ok s" "kind s i \<noteq> None"
  shows "\<exists>s'. wr i (\<lambda>n. Ok (inc_size n)) s = (Ok (), s') \<and> rf_ok s' \<and> abs_fs s' = (abs_fs s)\<lparr>a_size := raise_by i 1 (a_size (abs_fs s))\<rparr>"
  using wr_inc_size [OF assms] assms(1) by (auto simp: abs_eq raise_by_def)

lemma step_dec_size:
  assumes "rf_ok s" "kind s i \<noteq> None" "0 < a_size (abs_fs s) i"
  shows "\<exists>s'. wr i dec_size s = (Ok (), s') \<and> rf_ok s' \<and> abs_fs s' = (abs_fs s)\<lparr>a_size := drop_by i 1 (a_size (abs_fs s))\<rparr>"
  using wr_dec_size [OF assms(1,2)] assms by (auto simp: abs_eq drop_by_def)

lemma step_set_parent:
  assumes "rf_ok s" "kind s i = Some Dir" "kind s p = Some Dir"
  shows "\<exists>s'. wr i (upd_dir (\<lambda>d. Ok (set_parent (Some p) d))) s = (Ok (), s') \<and> rf_ok s'
    \<and> abs_fs s' = (abs_fs s)\<lparr>a_parent := (a_parent (abs_fs s))(i \<mapsto> p)\<rparr>"
  using wr_set_parent [OF assms] assms(1) by (auto simp: abs_eq)

section \<open>New inodes\<close>

lemma step_new:
  assumes ok: "rf_ok s" and room: "rf_next s + 1 < USIZE_RANGE" and p: "kind s p = Some Dir"
    and n: "n = f (rf_next s)" "md_ino (in_meta n) = rf_next s" "in_this n = Some (rf_next s)" "ri_type n = ty"
      "md_nlinks (in_meta n) = (if ty = Dir then 2 else 1)" "md_size (in_meta n) = (if ty = Dir then 2 else 0)"
    and dir: "ty = Dir \<Longrightarrow> in_inner n = DirInner (dir_init (Some (rf_next s)) (Some p) dir_entry_new)"
    and other: "ty \<noteq> Dir \<Longrightarrow> (\<forall>K. inner_ok K (rf_next s) (in_inner n) (in_meta n)) \<and> (\<forall>d. in_inner n \<noteq> DirInner d)"
  shows "\<exists>s'. new_inode f s = (Ok (rf_next s), s') \<and> rf_ok s' \<and> abs_fs s' = a_new ty p (abs_fs s)"
proof -
  let ?i = "rf_next s"
  let ?s = "s\<lparr>rf_next := ?i + 1, rf_files := rf_files s + 1, rf_inodes := (rf_inodes s)(?i \<mapsto> n)\<rparr>"
  have free: "rf_inodes s ?i = None" using rf_okD(3) [OF ok, of ?i] by (cases "rf_inodes s ?i") auto
  have K: "kind ?s = (kind s)(?i \<mapsto> ty)" using n(4) by (auto simp: kind_def)
  have le: "kind s \<subseteq>\<^sub>m kind ?s" unfolding K using free by (auto simp: map_le_def kind_def)
  have inner: "inner_ok (kind ?s) ?i (in_inner n) (in_meta n)"
  proof (cases "ty = Dir")
    case True
    have "kind ?s p = Some Dir" using p le by (metis domI map_le_def)
    then have "dir_ok (kind ?s) ?i (dir_init (Some ?i) (Some p) dir_entry_new)"
      by (simp add: dir_ok_def dir_init_def set_parent_def dir_entry_new_def sv_inv_new sv_lookup_new slots_ok_def)
    then show ?thesis using True dir n(4) by (simp add: inner_ok_def ri_type_def)
  qed (use other in blast)
  have "inode_ok (kind ?s) j m" if "rf_inodes ?s j = Some m" for j m
    using that inode_ok_mono [OF rf_okD(4) [OF ok] le] inner n(2,3) by (cases "j = ?i") (auto simp: inode_ok_def)
  moreover have "\<forall>j \<in> dom (rf_inodes ?s). j < rf_next ?s" using rf_okD(3) [OF ok] by (auto simp: less_Suc_eq)
  moreover have "kind ?s ROOT_INO = Some Dir" using rf_okD(2) [OF ok] le by (metis domI map_le_def)
  ultimately have ok': "rf_ok ?s" using rf_okD(1) [OF ok] by (simp add: rf_ok_def)
  have names: "inner_slots (in_inner n) = Map.empty" "inner_parent (in_inner n) = (if ty = Dir then Some p else None)"
      "(case in_inner n of DirInner d \<Rightarrow> map_of (sv_iter (de_children d)) | _ \<Rightarrow> Map.empty) = Map.empty"
    using dir other by (cases "ty = Dir"; cases "in_inner n"; simp add: inner_slots_def inner_parent_def dir_init_def set_parent_def
      dir_entry_new_def sv_lookup_new; simp add: sv_new_def sv_iter_def)+
  have "abs_fs ?s = a_new ty p (abs_fs s)"
    using n(5,6) names unfolding abs_fs_def a_new_def K by (auto simp: abs_names_def view_def fun_eq_iff)
  with ok' show ?thesis
    using room n(1) by (intro exI [of _ ?s]) (simp add: new_inode_def alloc_id_def sr_bind_def sr_mod_def sr_return_def)
qed

lemma new_specs:
  assumes ok: "rf_ok s" and room: "rf_next s + 1 < USIZE_RANGE" and p: "kind s p = Some Dir"
  shows "\<exists>s'. new_dir mode (Some p) s = (Ok (rf_next s), s') \<and> rf_ok s' \<and> abs_fs s' = a_new Dir p (abs_fs s)"
    "\<exists>s'. new_file pc mode s = (Ok (rf_next s), s') \<and> rf_ok s' \<and> abs_fs s' = a_new File p (abs_fs s)"
    "\<exists>s'. new_socket mode s = (Ok (rf_next s), s') \<and> rf_ok s' \<and> abs_fs s' = a_new Socket p (abs_fs s)"
    "\<exists>s'. new_symlink mode s = (Ok (rf_next s), s') \<and> rf_ok s' \<and> abs_fs s' = a_new SymLink p (abs_fs s)"
    "\<exists>s'. new_device mode dev dt did s = (Ok (rf_next s), s') \<and> rf_ok s' \<and> abs_fs s' = a_new (inode_type_of_device dt) p (abs_fs s)"
  unfolding new_dir_def new_file_def new_socket_def new_symlink_def new_device_def
  by (rule step_new [OF ok room p refl]; cases dt; simp add: ri_type_def inner_ok_def metadata_new_dir_def metadata_new_file_def
      metadata_new_socket_def metadata_new_symlink_def metadata_new_device_def)+

section \<open>Access to a directory\<close>

lemma node_access:
  assumes "rf_ok s" "kind s i = Some ty"
  obtains n where "rd i s = (Ok n, s)" "ri_type n = ty" "in_this n = Some i" "md_ino (in_meta n) = i"
proof -
  from assms(2) obtain n where n: "rf_inodes s i = Some n" "ri_type n = ty" by (auto simp: kind_def)
  show ?thesis using that [OF rd_eq [OF n(1)] n(2)] inode_ok_ids [OF rf_okD(4) [OF assms(1) n(1)]] by simp
qed

text \<open>What the code reads of the entries is what the name space holds.\<close>

definition reads_as :: "dir_entry \<Rightarrow> nat \<Rightarrow> ('pc, 'dev) ramfs \<Rightarrow> bool" where
  "reads_as d i s \<longleftrightarrow> (\<forall>nm. contains_entry nm d = Ok (special nm \<or> a_names (abs_fs s) i nm \<noteq> None))
    \<and> (\<forall>nm. \<not> special nm \<longrightarrow> a_names (abs_fs s) i nm = None \<longrightarrow> dir_get_entry nm d = Ok None)
    \<and> (\<forall>nm c. \<not> special nm \<longrightarrow> a_names (abs_fs s) i nm = Some c \<longrightarrow> (\<exists>k. v_slots (view s) i k = Some (nm, c) \<and> dir_get_entry nm d = Ok (Some (k + 2, c))))
    \<and> dir_get_entry DOT d = Ok (Some (0, i)) \<and> (\<exists>p. v_parent (view s) i = Some p \<and> dir_get_entry DOTDOT d = Ok (Some (1, p)))
    \<and> (is_empty_children d \<longleftrightarrow> a_names (abs_fs s) i = Map.empty)"

lemma reads_asD:
  assumes "reads_as d i s"
  shows "contains_entry nm d = Ok (special nm \<or> a_names (abs_fs s) i nm \<noteq> None)"
    "\<not> special nm \<Longrightarrow> a_names (abs_fs s) i nm = None \<Longrightarrow> dir_get_entry nm d = Ok None"
    "\<not> special nm \<Longrightarrow> a_names (abs_fs s) i nm = Some c \<Longrightarrow> \<exists>k. v_slots (view s) i k = Some (nm, c) \<and> dir_get_entry nm d = Ok (Some (k + 2, c))"
    "dir_get_entry DOT d = Ok (Some (0, i))" "\<exists>p. v_parent (view s) i = Some p \<and> dir_get_entry DOTDOT d = Ok (Some (1, p))"
    "is_empty_children d \<longleftrightarrow> a_names (abs_fs s) i = Map.empty"
  using assms unfolding reads_as_def by blast+

lemma dir_access:
  assumes ok: "rf_ok s" and i: "kind s i = Some Dir"
  obtains n d where "rd i s = (Ok n, s)" "ri_type n = Dir" "in_this n = Some i" "md_ino (in_meta n) = i" "dir_of i s = (Ok d, s)"
    "as_direntry n = Ok d" "reads_as d i s"
proof -
  from dir_inode [OF ok i] obtain n d where n: "rf_inodes s i = Some n" "in_inner n = DirInner d" "ri_type n = Dir" "dir_ok (kind s) i d"
    "v_slots (view s) i = sv_lookup (de_children d)" "v_parent (view s) i = de_parent d" "in_this n = Some i" "md_ino (in_meta n) = i" by metis
  have none: "a_names (abs_fs s) i nm = None \<longleftrightarrow> (\<forall>k c. sv_lookup (de_children d) k \<noteq> Some (nm, c))" for nm
    using abs_names_None [OF ok, of i nm] n(5) by simp
  have some: "a_names (abs_fs s) i nm = Some c \<longleftrightarrow> (\<exists>k. sv_lookup (de_children d) k = Some (nm, c))" for nm c
    using abs_names_iff [OF ok, of i nm c] n(5) by simp
  have "contains_entry nm d = Ok (special nm \<or> a_names (abs_fs s) i nm \<noteq> None)" for nm
    unfolding contains_entry_eq [OF n(4)] none special_def by blast
  moreover have "dir_get_entry nm d = Ok None" if "\<not> special nm" "a_names (abs_fs s) i nm = None" for nm
    using dir_get_entry_cases [OF n(4), of nm] that none [of nm] unfolding special_def by metis
  moreover have "\<exists>k. v_slots (view s) i k = Some (nm, c) \<and> dir_get_entry nm d = Ok (Some (k + 2, c))"
    if "\<not> special nm" "a_names (abs_fs s) i nm = Some c" for nm c
  proof -
    from that(1) have ne: "nm \<noteq> DOT" "nm \<noteq> DOTDOT" by (auto simp: special_def)
    show ?thesis
    proof (rule dir_get_entry_cases [OF n(4) ne])
      fix k c' assume a: "sv_lookup (de_children d) k = Some (nm, c')" "dir_get_entry nm d = Ok (Some (k + 2, c'))"
      then have "c' = c" using some [of nm c'] that(2) by auto
      then show ?thesis using a n(5) by auto
    qed (use that(2) some [of nm c] in auto)
  qed
  moreover have "dir_get_entry DOT d = Ok (Some (0, i))" using n(4) by (simp add: dir_get_entry_def upgrade_def dir_ok_def)
  moreover have "\<exists>p. v_parent (view s) i = Some p \<and> dir_get_entry DOTDOT d = Ok (Some (1, p))"
    using n(4,6) by (auto simp: dir_get_entry_def upgrade_def dir_ok_def DOT_def DOTDOT_def)
  moreover have "is_empty_children d \<longleftrightarrow> a_names (abs_fs s) i = Map.empty"
    unfolding is_empty_children_def using sv_is_empty_iff [of "de_children d"] n(4) none
    by (auto simp: dir_ok_def fun_eq_iff)
  ultimately have "reads_as d i s" unfolding reads_as_def by blast
  moreover have "as_direntry n = Ok d" using n(2) by (simp add: as_direntry_def)
  ultimately show ?thesis using that [OF rd_eq [OF n(1)] n(3,7,8) dir_of_eq [OF n(1,2)]] by blast
qed

definition fs_inv :: "bool \<Rightarrow> ('pc, 'dev) ramfs \<Rightarrow> bool" where
  "fs_inv exact s \<longleftrightarrow> rf_ok s \<and> ainv exact (abs_fs s)"

text \<open>A name short enough to be stored as it is.\<close>

definition name_ok :: "name \<Rightarrow> bool" where "name_ok nm \<longleftrightarrow> str_ok nm \<and> length nm \<le> NAME_MAX"

lemma name_okD: "name_ok nm \<Longrightarrow> cstr256 nm = nm" "name_ok nm \<Longrightarrow> \<not> special nm \<Longrightarrow> entry_name nm"
  using cstr256_id by (auto simp: name_ok_def NAME_MAX_def entry_name_def str_ok_def special_def)

lemma add_child_spec:
  assumes ok: "rf_ok s" and i: "kind s i = Some Dir" and nm: "name_ok nm" "\<not> special nm" and c: "kind s c \<noteq> None"
    and fresh: "a_names (abs_fs s) i nm = None"
  shows "\<exists>s'. add_child i nm c s = (Ok (), s') \<and> rf_ok s' \<and> abs_fs s' = a_add i nm c (abs_fs s)"
proof -
  from step_append [OF ok i name_okD(2) [OF nm] name_okD(1) [OF nm(1)] c fresh] obtain s1 where
    s1: "wr i (upd_dir (append_entry nm c)) s = (Ok (), s1)" "rf_ok s1" "abs_fs s1 = (abs_fs s)\<lparr>a_names := bind_name i nm c (a_names (abs_fs s))\<rparr>" by blast
  have "kind s1 i \<noteq> None" using absD(1) [OF s1(3)] i by simp
  from step_inc_size [OF s1(2) this] obtain s2 where
    s2: "wr i (\<lambda>n. Ok (inc_size n)) s1 = (Ok (), s2)" "rf_ok s2" "abs_fs s2 = (abs_fs s1)\<lparr>a_size := raise_by i 1 (a_size (abs_fs s1))\<rparr>" by blast
  show ?thesis using s1 s2 by (simp add: add_child_def a_add_def sr_bind_def)
qed

lemma del_child_spec:
  assumes ok: "rf_ok s" and i: "kind s i = Some Dir" and k: "v_slots (view s) i k = Some (nm, c)" and z: "0 < a_size (abs_fs s) i"
  shows "\<exists>s'. del_child i (k + 2) s = (Ok (), s') \<and> rf_ok s' \<and> abs_fs s' = a_del i nm (abs_fs s)"
proof -
  from step_remove [OF ok i k] obtain s1 where s1: "wr i (upd_dir (remove_entry (k + 2))) s = (Ok (), s1)" "rf_ok s1"
    "abs_fs s1 = (abs_fs s)\<lparr>a_names := unbind_name i nm (a_names (abs_fs s))\<rparr>" by blast
  have "kind s1 i \<noteq> None" using absD(1) [OF s1(3)] i by simp
  moreover have "0 < a_size (abs_fs s1) i" using s1(3) z by simp
  ultimately obtain s2 where
    s2: "wr i dec_size s1 = (Ok (), s2)" "rf_ok s2" "abs_fs s2 = (abs_fs s1)\<lparr>a_size := drop_by i 1 (a_size (abs_fs s1))\<rparr>"
    using step_dec_size [OF s1(2)] by blast
  show ?thesis using s1 s2 by (simp add: del_child_def a_del_def sr_bind_def)
qed

section \<open>The operations\<close>

lemma sr_bind_Ok: "m s = (Ok x, s') \<Longrightarrow> sr_bind m f s = f x s'"
  by (simp add: sr_bind_def)

lemma sr_bind_Inl: "m s = (Inl e, s') \<Longrightarrow> sr_bind m f s = (Inl e, s')"
  by (simp add: sr_bind_def)

lemma lift_eq: "sr_lift r s = (r, s)"
  by (simp add: sr_lift_def)

lemmas exec_simps = sr_bind_Ok sr_bind_Inl lift_eq sr_return_def

text \<open>The start of every operation of a directory.\<close>

lemma not_dir: "rf_ok s \<Longrightarrow> kind s i \<noteq> None \<Longrightarrow> kind s i \<noteq> Some Dir \<Longrightarrow> \<exists>n. rd i s = (Ok n, s) \<and> ri_type n \<noteq> Dir"
  using node_access by (metis option.exhaust)

definition creatable :: "inode_type \<Rightarrow> bool" where "creatable ty \<longleftrightarrow> ty \<in> {File, SymLink, Socket, Dir}"

lemma a_new_names: "a_names (a_new ty p a) = (a_names a)(a_next a := Map.empty)" "a_kind (a_new ty p a) = (a_kind a)(a_next a \<mapsto> ty)"
  by (simp_all add: a_new_def)

lemma fresh_kind: "rf_ok s \<Longrightarrow> kind s (rf_next s) = None"
  using rf_okD(3) [of s "rf_next s"] by (cases "rf_inodes s (rf_next s)") (auto simp: kind_def)

lemma sim_mknod:
  assumes ok: "rf_ok s" and room: "rf_next s + 1 < USIZE_RANGE" and self: "kind s self \<noteq> None" and nm: "str_ok nm"
  shows "sim (ri_mknod self nm mode dev dt did) (spec_create self nm (inode_type_of_device dt)) s"
proof (cases "kind s self = Some Dir")
  case False
  from not_dir [OF ok self False] show ?thesis
    using False ok by (intro simI [where r = "Err ENOTDIR" and s' = s]) (auto simp: ri_mknod_def exec_simps spec_create_def)
next
  case True
  from dir_access [OF ok True] obtain n d where d: "rd self s = (Ok n, s)" "ri_type n = Dir" "dir_of self s = (Ok d, s)" "reads_as d self s" by metis
  note e = reads_asD(1) [OF d(4), of nm]
  have ty: "inode_type_of_device dt \<noteq> Dir" by (cases dt) simp_all
  show ?thesis
  proof (cases "length nm > NAME_MAX \<or> special nm \<or> a_names (abs_fs s) self nm \<noteq> None")
    case err: True
    show ?thesis
    proof (cases "length nm > NAME_MAX")
      case True
      then show ?thesis using \<open>kind s self = Some Dir\<close> d ok
        by (intro simI [where r = "Err ENAMETOOLONG" and s' = s]) (auto simp: ri_mknod_def exec_simps spec_create_def)
    next
      case False
      then show ?thesis using err \<open>kind s self = Some Dir\<close> d ok e
        by (intro simI [where r = "Err EEXIST" and s' = s]) (auto simp: ri_mknod_def exec_simps spec_create_def)
    qed
  next
    case False
    from new_specs(5) [OF ok room True] obtain s1 where
      s1: "new_device mode dev dt did s = (Ok (rf_next s), s1)" "rf_ok s1" "abs_fs s1 = a_new (inode_type_of_device dt) self (abs_fs s)" by blast
    have f: "self \<noteq> rf_next s" using True fresh_kind [OF ok] by auto
    have "kind s1 self = Some Dir" "kind s1 (rf_next s) \<noteq> None" "a_names (abs_fs s1) self nm = None"
      using absD(1) [OF s1(3)] s1(3) True False f by (auto simp: a_new_names)
    from add_child_spec [OF s1(2) this(1) _ _ this(2,3)] obtain s2 where
      s2: "add_child self nm (rf_next s) s1 = (Ok (), s2)" "rf_ok s2" "abs_fs s2 = a_add self nm (rf_next s) (abs_fs s1)"
      using False nm by (auto simp: name_ok_def)
    show ?thesis
      using True False d e s1 s2 ty by (intro simI [where r = "Ok (rf_next s)" and s' = s2]) (auto simp: ri_mknod_def exec_simps spec_create_def)
  qed
qed

lemma sim_create:
  assumes ok: "rf_ok s" and room: "rf_next s + 1 < USIZE_RANGE" and self: "kind s self \<noteq> None" and nm: "str_ok nm" and ty: "creatable ty"
  shows "sim (ri_create pc self nm ty mode) (spec_create self nm ty) s"
proof (cases "kind s self = Some Dir")
  case False
  from not_dir [OF ok self False] show ?thesis
    using False ok by (intro simI [where r = "Err ENOTDIR" and s' = s]) (auto simp: ri_create_def exec_simps spec_create_def)
next
  case True
  from dir_access [OF ok True] obtain n d where d: "rd self s = (Ok n, s)" "ri_type n = Dir" "in_this n = Some self" "dir_of self s = (Ok d, s)"
    "reads_as d self s" by metis
  note e = reads_asD(1) [OF d(5), of nm]
  show ?thesis
  proof (cases "length nm > NAME_MAX \<or> special nm \<or> a_names (abs_fs s) self nm \<noteq> None")
    case err: True
    show ?thesis
    proof (cases "length nm > NAME_MAX")
      case True
      then show ?thesis using \<open>kind s self = Some Dir\<close> d ok
        by (intro simI [where r = "Err ENAMETOOLONG" and s' = s]) (auto simp: ri_create_def exec_simps spec_create_def)
    next
      case False
      then show ?thesis using err \<open>kind s self = Some Dir\<close> d ok e
        by (intro simI [where r = "Err EEXIST" and s' = s]) (auto simp: ri_create_def exec_simps spec_create_def)
    qed
  next
    case False
    let ?new = "case ty of File \<Rightarrow> new_file pc mode | SymLink \<Rightarrow> new_symlink mode | Socket \<Rightarrow> new_socket mode
      | Dir \<Rightarrow> sr_bind (new_dir mode (in_this n)) (\<lambda>i. sr_bind (wr self (\<lambda>n. Ok (inc_nlinks n))) (\<lambda>_. sr_return i)) | _ \<Rightarrow> sr_lift panic"
    let ?a = "a_new ty self (abs_fs s)"
    let ?a1 = "if ty = Dir then ?a\<lparr>a_nlinks := raise_by self 1 (a_nlinks ?a)\<rparr> else ?a"
    have "\<exists>s1. ?new s = (Ok (rf_next s), s1) \<and> rf_ok s1 \<and> abs_fs s1 = ?a1"
    proof (cases "ty = Dir")
      case dir: True
      from new_specs(1) [OF ok room True, of mode] obtain s0 where
        s0: "new_dir mode (Some self) s = (Ok (rf_next s), s0)" "rf_ok s0" "abs_fs s0 = a_new Dir self (abs_fs s)" by blast
      have "kind s0 self \<noteq> None" using absD(1) [OF s0(3)] True by (auto simp: a_new_names)
      from step_inc_nlinks [OF s0(2) this] s0 d(3) dir show ?thesis by (auto simp: exec_simps)
    next
      case False
      then show ?thesis
        using ty new_specs(2-4) [OF ok room True] by (auto simp: creatable_def)
    qed
    then obtain s1 where s1: "?new s = (Ok (rf_next s), s1)" "rf_ok s1" "abs_fs s1 = ?a1" by blast
    have f: "self \<noteq> rf_next s" using True fresh_kind [OF ok] by auto
    have "kind s1 self = Some Dir" "kind s1 (rf_next s) \<noteq> None" "a_names (abs_fs s1) self nm = None"
      using absD(1) [OF s1(3)] s1(3) True False f by (auto simp: a_new_names split: if_splits)
    from add_child_spec [OF s1(2) this(1) _ _ this(2,3)] obtain s2 where
      s2: "add_child self nm (rf_next s) s1 = (Ok (), s2)" "rf_ok s2" "abs_fs s2 = a_add self nm (rf_next s) (abs_fs s1)"
      using False nm by (auto simp: name_ok_def)
    have "spec_create self nm ty (abs_fs s) = (Ok (rf_next s), abs_fs s2)"
      using True False s2(3) s1(3) by (auto simp: spec_create_def a_add_def Let_def)
    moreover have "ri_create pc self nm ty mode s = (Ok (rf_next s), s2)"
      using True False d e s1(1) s2(1) by (auto simp: ri_create_def exec_simps)
    ultimately show ?thesis using s2(2) by (intro simI)
  qed
qed

lemma sim_link:
  assumes ok: "rf_ok s" and self: "kind s self \<noteq> None" and nm: "name_ok nm" and old: "\<And>i. old = Local i \<Longrightarrow> kind s i \<noteq> None"
  shows "sim (ri_link self old nm) (spec_link self old nm) s"
proof (cases "kind s self = Some Dir")
  case False
  from not_dir [OF ok self False] show ?thesis
    using False ok by (intro simI [where r = "Err ENOTDIR" and s' = s]) (auto simp: ri_link_def exec_simps spec_link_def)
next
  case True
  from dir_access [OF ok True] obtain n d where d: "rd self s = (Ok n, s)" "ri_type n = Dir" "dir_of self s = (Ok d, s)" "reads_as d self s" by metis
  note e = reads_asD(1) [OF d(4), of nm]
  show ?thesis
  proof (cases old)
    case Foreign
    then show ?thesis using True d ok by (intro simI [where r = "Err EXDEV" and s' = s]) (auto simp: ri_link_def exec_simps spec_link_def)
  next
    case (Local i)
    from old [OF Local] obtain ty where ty: "kind s i = Some ty" by auto
    from node_access [OF ok ty] obtain m where m: "rd i s = (Ok m, s)" "ri_type m = ty" "in_this m = Some i" by metis
    show ?thesis
    proof (cases "ty = Dir \<or> special nm \<or> a_names (abs_fs s) self nm \<noteq> None")
      case err: True
      then show ?thesis using Local True d ok e ty m
        by (intro simI [where r = "if ty = Dir then Err EPERM else Err EEXIST" and s' = s]) (auto simp: ri_link_def exec_simps spec_link_def)
    next
      case False
      then have g: "ty \<noteq> Dir" "\<not> special nm" "a_names (abs_fs s) self nm = None" by auto
      from add_child_spec [OF ok True nm g(2) old [OF Local] g(3)] obtain s1 where
        s1: "add_child self nm i s = (Ok (), s1)" "rf_ok s1" "abs_fs s1 = a_add self nm i (abs_fs s)" by blast
      have "kind s1 i \<noteq> None" using absD(1) [OF s1(3)] ty by (simp add: a_add_def)
      from step_inc_nlinks [OF s1(2) this] obtain s2 where
        s2: "wr i (\<lambda>n. Ok (inc_nlinks n)) s1 = (Ok (), s2)" "rf_ok s2" "abs_fs s2 = (abs_fs s1)\<lparr>a_nlinks := raise_by i 1 (a_nlinks (abs_fs s1))\<rparr>" by blast
      show ?thesis
        using Local True d e ty m g s1 s2
        by (intro simI [where r = "Ok ()" and s' = s2]) (auto simp: ri_link_def exec_simps spec_link_def upgrade_def Let_def)
    qed
  qed
qed

lemma entry_found: "dir_get_entry nm d = Ok (Some (k, c)) \<Longrightarrow> entry_or_enoent nm d = Ok (k, c)"
  and entry_absent: "dir_get_entry nm d = Ok None \<Longrightarrow> entry_or_enoent nm d = Err ENOENT"
  by (simp_all add: entry_or_enoent_def)

lemma sim_lookup:
  assumes ok: "rf_ok s" and self: "kind s self \<noteq> None"
  shows "sim (ri_lookup self nm) (\<lambda>a. (spec_lookup self nm a, a)) s"
proof (cases "kind s self = Some Dir")
  case False
  from not_dir [OF ok self False] show ?thesis
    using False ok by (intro simI [where r = "Err ENOTDIR" and s' = s]) (auto simp: ri_lookup_def exec_simps spec_lookup_def)
next
  case True
  from dir_access [OF ok True] obtain n d where d: "rd self s = (Ok n, s)" "ri_type n = Dir" "dir_of self s = (Ok d, s)" "reads_as d self s" by metis
  note r = reads_asD [OF d(4)]
  have "entry_or_enoent nm d = Err ENOENT \<and> spec_lookup self nm (abs_fs s) = Err ENOENT
    \<or> (\<exists>k c. entry_or_enoent nm d = Ok (k, c) \<and> spec_lookup self nm (abs_fs s) = Ok c)"
  proof (cases "special nm")
    case sp: True
    then show ?thesis using r(4,5) True
      by (cases "nm = DOT") (auto simp: special_def spec_lookup_def entry_found DOT_def DOTDOT_def)
  next
    case False
    then have ne: "nm \<noteq> DOT" "nm \<noteq> DOTDOT" by (auto simp: special_def)
    show ?thesis
    proof (cases "a_names (abs_fs s) self nm")
      case None
      then show ?thesis using r(2) [OF False None] True ne by (simp add: spec_lookup_def entry_absent)
    next
      case (Some c)
      then show ?thesis using r(3) [OF False Some] True ne by (auto simp: spec_lookup_def dest: entry_found)
    qed
  qed
  then show ?thesis using d ok
    by (intro simI [where r = "spec_lookup self nm (abs_fs s)" and s' = s]) (auto simp: ri_lookup_def exec_simps)
qed

lemma inv_entry:
  assumes inv: "ainv exact a" and m: "a_names a self nm = Some c"
  shows "a_kind a c \<noteq> None" "2 < a_size a self" "a_kind a c \<noteq> Some Dir \<Longrightarrow> 1 \<le> a_nlinks a c" "a_kind a c = Some Dir \<Longrightarrow> 2 \<le> a_nlinks a c"
    "a_kind a c = Some Dir \<Longrightarrow> 1 \<le> a_nlinks a self" "a_kind a c = Some Dir \<Longrightarrow> self = c \<Longrightarrow> 3 \<le> a_nlinks a c"
proof -
  note i = ainvD [OF inv]
  show kc: "a_kind a c \<noteq> None" by (rule tree_okD(4) [OF i(1) m])
  have ks: "a_kind a self \<noteq> None" using tree_okD(3) [OF i(1) m] by simp
  show "2 < a_size a self" by (rule sized_unbind(2) [OF i(1,2) m])
  have le: "links (a_kind a) (a_names a) x \<le> a_nlinks a x" if "a_kind a x \<noteq> None" for x using i(3) that by (simp add: counted_def)
  show "a_kind a c \<noteq> Some Dir \<Longrightarrow> 1 \<le> a_nlinks a c" using links_pos(1) [OF i(1) m] le [OF kc] by linarith
  show "a_kind a c = Some Dir \<Longrightarrow> 2 \<le> a_nlinks a c" using links_pos(2) [OF i(1) m] le [OF kc] by linarith
  show "a_kind a c = Some Dir \<Longrightarrow> 1 \<le> a_nlinks a self" using links_pos(3) [OF i(1) m] le [OF ks] by linarith
  show "a_kind a c = Some Dir \<Longrightarrow> self = c \<Longrightarrow> 3 \<le> a_nlinks a c" using links_pos(4) [OF i(1) m] le [OF kc] by linarith
qed

lemma sim_unlink:
  assumes ok: "rf_ok s" and inv: "ainv exact (abs_fs s)" and self: "kind s self \<noteq> None"
  shows "sim (ri_unlink self nm) (spec_unlink self nm) s"
proof (cases "kind s self = Some Dir \<and> \<not> special nm")
  case False
  show ?thesis
  proof (cases "kind s self = Some Dir")
    case True
    from dir_access [OF ok True] obtain n where "rd self s = (Ok n, s)" "ri_type n = Dir" by metis
    then show ?thesis using False True ok
      by (intro simI [where r = "Err EISDIR" and s' = s]) (auto simp: ri_unlink_def exec_simps spec_unlink_def special_def)
  next
    case nd: False
    from not_dir [OF ok self nd] show ?thesis
      using nd ok by (intro simI [where r = "Err ENOTDIR" and s' = s]) (auto simp: ri_unlink_def exec_simps spec_unlink_def)
  qed
next
  case True
  then have dir: "kind s self = Some Dir" and sp: "\<not> special nm" by auto
  then have ne: "nm \<noteq> DOT" "nm \<noteq> DOTDOT" by (auto simp: special_def)
  from dir_access [OF ok dir] obtain n d where d: "rd self s = (Ok n, s)" "ri_type n = Dir" "dir_of self s = (Ok d, s)" "reads_as d self s" by metis
  show ?thesis
  proof (cases "a_names (abs_fs s) self nm")
    case None
    from reads_asD(2) [OF d(4) sp None] None dir sp ne d ok show ?thesis
      by (intro simI [where r = "Err ENOENT" and s' = s]) (auto simp: ri_unlink_def exec_simps spec_unlink_def entry_absent)
  next
    case (Some c)
    note pos = inv_entry [OF inv Some]
    from reads_asD(3) [OF d(4) sp Some] obtain k where k: "v_slots (view s) self k = Some (nm, c)" "entry_or_enoent nm d = Ok (k + 2, c)"
      using entry_found by blast
    from pos(1) obtain ty where ty: "kind s c = Some ty" by auto
    from node_access [OF ok ty] obtain m where m: "rd c s = (Ok m, s)" "ri_type m = ty" by metis
    show ?thesis
    proof (cases "ty = Dir")
      case True
      then show ?thesis using Some dir sp ne d ok ty m k
        by (intro simI [where r = "Err EISDIR" and s' = s]) (auto simp: ri_unlink_def exec_simps spec_unlink_def)
    next
      case False
      from del_child_spec [OF ok dir k(1)] pos(2) obtain s1 where
        s1: "del_child self (k + 2) s = (Ok (), s1)" "rf_ok s1" "abs_fs s1 = a_del self nm (abs_fs s)" by auto
      have "kind s1 c \<noteq> None" using absD(1) [OF s1(3)] ty by (simp add: a_del_def)
      moreover have "0 < a_nlinks (abs_fs s1) c" using s1(3) pos(3) ty False by (simp add: a_del_def)
      ultimately obtain s2 where
        s2: "wr c dec_nlinks s1 = (Ok (), s2)" "rf_ok s2" "abs_fs s2 = (abs_fs s1)\<lparr>a_nlinks := drop_by c 1 (a_nlinks (abs_fs s1))\<rparr>"
        using step_dec_nlinks [OF s1(2)] by blast
      show ?thesis
        using Some False dir sp ne d ty m k(2) s1 s2
        by (intro simI [where r = "Ok ()" and s' = s2]) (auto simp: ri_unlink_def exec_simps spec_unlink_def Let_def)
    qed
  qed
qed

lemma sim_rmdir:
  assumes ok: "rf_ok s" and inv: "ainv exact (abs_fs s)" and self: "kind s self \<noteq> None"
  shows "sim (ri_rmdir self nm) (spec_rmdir self nm) s"
proof (cases "kind s self = Some Dir \<and> \<not> special nm")
  case False
  show ?thesis
  proof (cases "kind s self = Some Dir")
    case True
    from dir_access [OF ok True] obtain n where "rd self s = (Ok n, s)" "ri_type n = Dir" by metis
    then show ?thesis using False True ok
      by (intro simI [where r = "if nm = DOT then Err EINVAL else Err ENOTEMPTY" and s' = s]) (auto simp: ri_rmdir_def exec_simps spec_rmdir_def special_def)
  next
    case nd: False
    from not_dir [OF ok self nd] show ?thesis
      using nd ok by (intro simI [where r = "Err ENOTDIR" and s' = s]) (auto simp: ri_rmdir_def exec_simps spec_rmdir_def)
  qed
next
  case True
  then have dir: "kind s self = Some Dir" and sp: "\<not> special nm" by auto
  then have ne: "nm \<noteq> DOT" "nm \<noteq> DOTDOT" by (auto simp: special_def)
  from dir_access [OF ok dir] obtain n d where d: "rd self s = (Ok n, s)" "ri_type n = Dir" "dir_of self s = (Ok d, s)" "reads_as d self s" by metis
  show ?thesis
  proof (cases "a_names (abs_fs s) self nm")
    case None
    from reads_asD(2) [OF d(4) sp None] None dir sp ne d ok show ?thesis
      by (intro simI [where r = "Err ENOENT" and s' = s]) (auto simp: ri_rmdir_def exec_simps spec_rmdir_def entry_absent)
  next
    case (Some c)
    note pos = inv_entry [OF inv Some]
    from reads_asD(3) [OF d(4) sp Some] obtain k where k: "v_slots (view s) self k = Some (nm, c)" "entry_or_enoent nm d = Ok (k + 2, c)"
      using entry_found by blast
    show ?thesis
    proof (cases "kind s c = Some Dir")
      case False
      from not_dir [OF ok _ False] pos(1) obtain m where "rd c s = (Ok m, s)" "ri_type m \<noteq> Dir" by auto
      then show ?thesis using Some False dir sp ne d ok k
        by (intro simI [where r = "Err ENOTDIR" and s' = s]) (auto simp: ri_rmdir_def exec_simps spec_rmdir_def)
    next
      case cd: True
      from dir_access [OF ok cd] obtain m td where m: "rd c s = (Ok m, s)" "ri_type m = Dir" "as_direntry m = Ok td" "reads_as td c s" by metis
      note em = reads_asD(6) [OF m(4)]
      show ?thesis
      proof (cases "a_names (abs_fs s) c = Map.empty")
        case False
        then show ?thesis using Some dir sp ne d ok k m em cd
          by (intro simI [where r = "Err ENOTEMPTY" and s' = s]) (auto simp: ri_rmdir_def exec_simps spec_rmdir_def)
      next
        case True
        then have sc: "self \<noteq> c" using Some by auto
        from del_child_spec [OF ok dir k(1)] pos(2) obtain s1 where
          s1: "del_child self (k + 2) s = (Ok (), s1)" "rf_ok s1" "abs_fs s1 = a_del self nm (abs_fs s)" by auto
        have k1: "kind s1 = kind s" using absD(1) [OF s1(3)] by (simp add: a_del_def)
        have n1: "a_nlinks (abs_fs s1) = a_nlinks (abs_fs s)" using s1(3) by (simp add: a_del_def)
        have "kind s1 self \<noteq> None" "0 < a_nlinks (abs_fs s1) self" using k1 dir pos(5) cd n1 by auto
        from step_dec_nlinks [OF s1(2) this] obtain s2 where
          s2: "wr self dec_nlinks s1 = (Ok (), s2)" "rf_ok s2" "abs_fs s2 = (abs_fs s1)\<lparr>a_nlinks := drop_by self 1 (a_nlinks (abs_fs s1))\<rparr>" by blast
        have "kind s2 c \<noteq> None" "2 \<le> a_nlinks (abs_fs s2) c"
          using absD(1) [OF s2(3)] k1 cd s2(3) n1 pos(4) sc by (auto simp: drop_by_def)
        from step_dec_nlinks2 [OF s2(2) this] obtain s3 s4 where
          s4: "wr c dec_nlinks s2 = (Ok (), s3)" "wr c dec_nlinks s3 = (Ok (), s4)" "rf_ok s4"
            "abs_fs s4 = (abs_fs s2)\<lparr>a_nlinks := drop_by c 2 (a_nlinks (abs_fs s2))\<rparr>" by blast
        have "spec_rmdir self nm (abs_fs s) = (Ok (), abs_fs s4)"
          using Some dir ne cd True s1(3) s2(3) s4(4) by (simp add: spec_rmdir_def Let_def)
        moreover have "ri_rmdir self nm s = (Ok (), s4)"
          using d k(2) m em True ne s1(1) s2(1) s4(1,2) by (simp add: ri_rmdir_def exec_simps)
        ultimately show ?thesis using s4(3) by (intro simI)
      qed
    qed
  qed
qed

section \<open>Rename\<close>

lemma check_replace_spec:
  assumes ok: "rf_ok s" and src: "kind s src \<noteq> None" and dst: "kind s dst \<noteq> None"
  shows "check_replace_inode src dst s = (replaceable src dst (abs_fs s), s)"
proof -
  from src dst obtain t1 t2 where t: "kind s src = Some t1" "kind s dst = Some t2" by auto
  from node_access [OF ok t(1)] obtain a where a: "rd src s = (Ok a, s)" "ri_type a = t1" "md_ino (in_meta a) = src" by metis
  from node_access [OF ok t(2)] obtain b where b: "rd dst s = (Ok b, s)" "ri_type b = t2" "md_ino (in_meta b) = dst" by metis
  show ?thesis
  proof (cases "t2 = Dir")
    case True
    from dir_access [OF ok t(2) [unfolded True]] obtain b' d where b': "rd dst s = (Ok b', s)" "as_direntry b' = Ok d" "reads_as d dst s" by metis
    then have "as_direntry b = Ok d" using b(1) by simp
    then show ?thesis
      using a b t True reads_asD(6) [OF b'(3)] by (cases t1) (auto simp: check_replace_inode_def exec_simps replaceable_def)
  next
    case False
    then show ?thesis using a b t by (cases t1; cases t2) (auto simp: check_replace_inode_def exec_simps replaceable_def)
  qed
qed

text \<open>When a rename stays in one directory, what it does to the counts and to the parent cancels.\<close>

lemma rename_cancel:
  assumes inv: "ainv exact a" and m: "a_names a self old = Some src"
  shows "raise_by self 1 (drop_by self 1 (a_size a)) = a_size a"
    "a_kind a src = Some Dir \<Longrightarrow> raise_by self 1 (drop_by self 1 (a_nlinks a)) = a_nlinks a"
    "a_kind a src = Some Dir \<Longrightarrow> (a_parent a)(src \<mapsto> self) = a_parent a"
proof -
  note pos = inv_entry [OF inv m]
  show "raise_by self 1 (drop_by self 1 (a_size a)) = a_size a" using pos(2) by (auto simp: raise_by_def drop_by_def)
  show "raise_by self 1 (drop_by self 1 (a_nlinks a)) = a_nlinks a" if "a_kind a src = Some Dir"
    using pos(5) [OF that] by (auto simp: raise_by_def drop_by_def)
  show "(a_parent a)(src \<mapsto> self) = a_parent a" if "a_kind a src = Some Dir"
    using tree_okD(6) [OF ainvD(1) [OF inv] m that] by (simp add: fun_upd_idem)
qed

lemma rename_same_move:
  assumes ok: "rf_ok s" and inv: "ainv exact (abs_fs s)" and dir: "kind s self = Some Dir" and sp: "\<not> special old" "\<not> special new"
    and src: "a_names (abs_fs s) self old = Some src" and new: "name_ok new" "a_names (abs_fs s) self new = None"
  shows "\<exists>s'. rename_same self old new s = (Ok (), s') \<and> rf_ok s' \<and> abs_fs s' = a_move self old self new src (abs_fs s)"
proof -
  from dir_access [OF ok dir] obtain d where d: "dir_of self s = (Ok d, s)" "reads_as d self s" by metis
  from reads_asD(3) [OF d(2) sp(1) src] obtain k where k: "v_slots (view s) self k = Some (old, src)" "entry_or_enoent old d = Ok (k + 2, src)"
    using entry_found by blast
  have sk: "kind s src \<noteq> None" using inv_entry(1) [OF inv src] by simp
  then obtain sn where sn: "rd src s = (Ok sn, s)" using node_access [OF ok] by blast
  from step_substitute [OF ok dir k(1) name_okD(2) [OF new(1) sp(2)] sk new(2)] obtain s' where
    s': "wr self (upd_dir (substitute_entry (k + 2) (new, src))) s = (Ok (), s')" "rf_ok s'"
      "abs_fs s' = (abs_fs s)\<lparr>a_names := bind_name self new src (unbind_name self old (a_names (abs_fs s)))\<rparr>" by blast
  have "abs_fs s' = a_move self old self new src (abs_fs s)"
    unfolding s'(3) a_move_def Let_def using rename_cancel [OF inv src] by simp
  moreover have "rename_same self old new s = (Ok (), s')"
    using d k(2) sn reads_asD(2) [OF d(2) sp(2) new(2)] s'(1) name_okD(1) [OF new(1)] by (simp add: rename_same_def exec_simps)
  ultimately show ?thesis using s'(2) by blast
qed

lemma when_dir_dec:
  assumes "rf_ok s" "kind s i \<noteq> None" "b \<Longrightarrow> 0 < a_nlinks (abs_fs s) i"
  shows "\<exists>s'. (if b then wr i dec_nlinks else sr_return ()) s = (Ok (), s') \<and> rf_ok s'
    \<and> abs_fs s' = (if b then (abs_fs s)\<lparr>a_nlinks := drop_by i 1 (a_nlinks (abs_fs s))\<rparr> else abs_fs s)"
  using step_dec_nlinks [OF assms(1,2)] assms by (cases b) (auto simp: sr_return_def)

lemma rename_same_replace:
  assumes ok: "rf_ok s" and inv: "ainv exact (abs_fs s)" and dir: "kind s self = Some Dir" and sp: "\<not> special old" "\<not> special new"
    and src: "a_names (abs_fs s) self old = Some src" and dst: "a_names (abs_fs s) self new = Some dst"
    and new: "name_ok new" "old \<noteq> new" and rep: "replaceable src dst (abs_fs s) = Ok ()"
  shows "\<exists>s'. rename_same self old new s = (Ok (), s') \<and> rf_ok s' \<and> abs_fs s' = a_replace self old self new src (abs_fs s)"
proof -
  let ?a = "abs_fs s"
  from dir_access [OF ok dir] obtain d where d: "dir_of self s = (Ok d, s)" "reads_as d self s" by metis
  from reads_asD(3) [OF d(2) sp(1) src] obtain k where k: "v_slots (view s) self k = Some (old, src)" "entry_or_enoent old d = Ok (k + 2, src)"
    using entry_found by blast
  from reads_asD(3) [OF d(2) sp(2) dst] obtain k' where k': "v_slots (view s) self k' = Some (new, dst)" "dir_get_entry new d = Ok (Some (k' + 2, dst))" by blast
  note pos = inv_entry [OF inv src]
  from pos(1) obtain ty where ty: "kind s src = Some ty" by auto
  from node_access [OF ok ty] obtain sn where sn: "rd src s = (Ok sn, s)" "ri_type sn = ty" by metis
  have chk: "check_replace_inode src dst s = (Ok (), s)"
    using check_replace_spec [OF ok, of src dst] pos(1) inv_entry(1) [OF inv dst] rep by simp
  from step_remove [OF ok dir k'(1)] obtain s1 where s1: "wr self (upd_dir (remove_entry (k' + 2))) s = (Ok (), s1)" "rf_ok s1"
    "abs_fs s1 = ?a\<lparr>a_names := unbind_name self new (a_names ?a)\<rparr>" "v_slots (view s1) = (v_slots (view s))(self := (v_slots (view s) self)(k' := None))" by blast
  have K1: "kind s1 = kind s" using absD(1) [OF s1(3)] by simp
  have "v_slots (view s1) self k = Some (old, src)" using s1(4) k(1) k'(1) new(2) by auto
  moreover have "a_names (abs_fs s1) self new = None" using s1(3) by (simp add: unbind_at)
  ultimately obtain s2 where s2: "wr self (upd_dir (substitute_entry (k + 2) (new, src))) s1 = (Ok (), s2)" "rf_ok s2"
    "abs_fs s2 = (abs_fs s1)\<lparr>a_names := bind_name self new src (unbind_name self old (a_names (abs_fs s1)))\<rparr>"
    using step_substitute [OF s1(2), of self k old src new src] K1 dir ty name_okD(2) [OF new(1) sp(2)] by auto
  have K2: "kind s2 = kind s" using absD(1) [OF s2(3)] K1 by simp
  have "0 < a_size (abs_fs s2) self" using s1(3) s2(3) pos(2) by simp
  then obtain s3 where s3: "wr self dec_size s2 = (Ok (), s3)" "rf_ok s3" "abs_fs s3 = (abs_fs s2)\<lparr>a_size := drop_by self 1 (a_size (abs_fs s2))\<rparr>"
    using step_dec_size [OF s2(2), of self] K2 dir by auto
  have "kind s3 self \<noteq> None" "ty = Dir \<Longrightarrow> 0 < a_nlinks (abs_fs s3) self"
    using absD(1) [OF s3(3)] K2 dir pos(5) ty s1(3) s2(3) s3(3) by auto
  from when_dir_dec [where b = "ty = Dir", OF s3(2) this] obtain s4 where
    s4: "(if ty = Dir then wr self dec_nlinks else sr_return ()) s3 = (Ok (), s4)" "rf_ok s4"
      "abs_fs s4 = (if ty = Dir then (abs_fs s3)\<lparr>a_nlinks := drop_by self 1 (a_nlinks (abs_fs s3))\<rparr> else abs_fs s3)" by blast
  have "bind_name self new src (unbind_name self old (unbind_name self new (a_names ?a))) = bind_name self new src (unbind_name self old (a_names ?a))"
    by (auto simp: bind_name_def unbind_name_def)
  then have "abs_fs s4 = a_replace self old self new src ?a"
    using s1(3) s2(3) s3(3) s4(3) ty rename_cancel(3) [OF inv src] by (simp add: a_replace_def Let_def)
  moreover have "rename_same self old new s = (Ok (), s4)"
    using d k(2) k'(2) sn chk s1(1) s2(1) s3(1) s4(1) name_okD(1) [OF new(1)] by (simp add: rename_same_def exec_simps)
  ultimately show ?thesis using s4(2) by blast
qed

lemma when_dir_parent:
  assumes "rf_ok s" "b \<Longrightarrow> kind s i = Some Dir" "kind s p = Some Dir"
  shows "\<exists>s'. (if b then wr i (upd_dir (\<lambda>d. Ok (set_parent (Some p) d))) else sr_return ()) s = (Ok (), s') \<and> rf_ok s'
    \<and> abs_fs s' = (if b then (abs_fs s)\<lparr>a_parent := (a_parent (abs_fs s))(i \<mapsto> p)\<rparr> else abs_fs s)"
  using step_set_parent [OF assms(1) _ assms(3)] assms by (cases b) (auto simp: sr_return_def)

lemma when_dir_move:
  assumes "rf_ok s" "kind s i \<noteq> None" "kind s j \<noteq> None" "b \<Longrightarrow> 0 < a_nlinks (abs_fs s) i"
  shows "\<exists>s'. (if b then sr_bind (wr i dec_nlinks) (\<lambda>_. wr j (\<lambda>n. Ok (inc_nlinks n))) else sr_return ()) s = (Ok (), s') \<and> rf_ok s'
    \<and> abs_fs s' = (if b then (abs_fs s)\<lparr>a_nlinks := raise_by j 1 (drop_by i 1 (a_nlinks (abs_fs s)))\<rparr> else abs_fs s)"
proof (cases b)
  case True
  from step_dec_nlinks [OF assms(1,2) assms(4) [OF True]] obtain s1 where
    s1: "wr i dec_nlinks s = (Ok (), s1)" "rf_ok s1" "abs_fs s1 = (abs_fs s)\<lparr>a_nlinks := drop_by i 1 (a_nlinks (abs_fs s))\<rparr>" by blast
  have "kind s1 j \<noteq> None" using absD(1) [OF s1(3)] assms(3) by simp
  from step_inc_nlinks [OF s1(2) this] s1 True show ?thesis by (auto simp: exec_simps)
qed (use assms(1) in \<open>simp add: sr_return_def\<close>)

text \<open>The entry leaves one directory and appears in another one.\<close>

lemma carry_entry:
  assumes ok: "rf_ok s" and dirs: "kind s self = Some Dir" "kind s target = Some Dir" and ne: "self \<noteq> target"
    and k: "v_slots (view s) self k = Some (old, src)" and src: "kind s src \<noteq> None"
    and new: "name_ok new" "\<not> special new" "a_names (abs_fs s) target new = None"
  shows "\<exists>s1 s2. wr self (upd_dir (remove_entry (k + 2))) s = (Ok (), s1) \<and> wr target (upd_dir (append_entry new src)) s1 = (Ok (), s2) \<and> rf_ok s2
    \<and> abs_fs s2 = (abs_fs s)\<lparr>a_names := bind_name target new src (unbind_name self old (a_names (abs_fs s)))\<rparr>"
proof -
  from step_remove [OF ok dirs(1) k] obtain s1 where s1: "wr self (upd_dir (remove_entry (k + 2))) s = (Ok (), s1)" "rf_ok s1"
    "abs_fs s1 = (abs_fs s)\<lparr>a_names := unbind_name self old (a_names (abs_fs s))\<rparr>" by blast
  have K1: "kind s1 = kind s" using absD(1) [OF s1(3)] by simp
  have "a_names (abs_fs s1) target new = None" using s1(3) new(3) ne by (simp add: unbind_name_def)
  then show ?thesis
    using step_append [OF s1(2), of target new src] K1 dirs src name_okD(1) [OF new(1)] name_okD(2) [OF new(1,2)] s1 by auto
qed

text \<open>The same when the new name is taken.\<close>

lemma carry_entry_over:
  assumes ok: "rf_ok s" and dirs: "kind s self = Some Dir" "kind s target = Some Dir" and ne: "self \<noteq> target"
    and k: "v_slots (view s) self k = Some (old, src)" and k': "v_slots (view s) target k' = Some (new, dst)" and src: "kind s src \<noteq> None"
    and new: "name_ok new" "\<not> special new"
  shows "\<exists>s1 s2 s3. wr self (upd_dir (remove_entry (k + 2))) s = (Ok (), s1) \<and> wr target (upd_dir (remove_entry (k' + 2))) s1 = (Ok (), s2)
    \<and> wr target (upd_dir (append_entry new src)) s2 = (Ok (), s3) \<and> rf_ok s3
    \<and> abs_fs s3 = (abs_fs s)\<lparr>a_names := bind_name target new src (unbind_name self old (a_names (abs_fs s)))\<rparr>"
proof -
  from step_remove [OF ok dirs(1) k] obtain s1 where s1: "wr self (upd_dir (remove_entry (k + 2))) s = (Ok (), s1)" "rf_ok s1"
    "abs_fs s1 = (abs_fs s)\<lparr>a_names := unbind_name self old (a_names (abs_fs s))\<rparr>"
    "v_slots (view s1) = (v_slots (view s))(self := (v_slots (view s) self)(k := None))" by blast
  have K1: "kind s1 target = Some Dir" using absD(1) [OF s1(3)] dirs by simp
  have "v_slots (view s1) target k' = Some (new, dst)" using s1(4) k' ne by simp
  from step_remove [OF s1(2) K1 this] obtain s2 where s2: "wr target (upd_dir (remove_entry (k' + 2))) s1 = (Ok (), s2)" "rf_ok s2"
    "abs_fs s2 = (abs_fs s1)\<lparr>a_names := unbind_name target new (a_names (abs_fs s1))\<rparr>" by blast
  have K2: "kind s2 = kind s" using absD(1) [OF s2(3)] absD(1) [OF s1(3)] by simp
  have "a_names (abs_fs s2) target new = None" using s2(3) by (simp add: unbind_at)
  from step_append [OF s2(2) _ name_okD(2) [OF new] name_okD(1) [OF new(1)] _ this, of src] K2 dirs(2) src obtain s3 where
    s3: "wr target (upd_dir (append_entry new src)) s2 = (Ok (), s3)" "rf_ok s3"
      "abs_fs s3 = (abs_fs s2)\<lparr>a_names := bind_name target new src (a_names (abs_fs s2))\<rparr>" by auto
  have "bind_name target new src (unbind_name target new M) = bind_name target new src M" for M
    by (auto simp: bind_name_def unbind_name_def)
  then show ?thesis using s1 s2 s3 by simp
qed

lemma rename_across_move:
  assumes ok: "rf_ok s" and inv: "ainv exact (abs_fs s)" and dirs: "kind s self = Some Dir" "kind s target = Some Dir" and ne: "self \<noteq> target"
    and sp: "\<not> special old" "\<not> special new" and src: "a_names (abs_fs s) self old = Some src" "src \<noteq> target"
    and new: "name_ok new" "a_names (abs_fs s) target new = None"
  shows "\<exists>s'. rename_across self old target new s = (Ok (), s') \<and> rf_ok s' \<and> abs_fs s' = a_move self old target new src (abs_fs s)"
proof -
  let ?a = "abs_fs s"
  from dir_access [OF ok dirs(1)] obtain n d where d: "rd self s = (Ok n, s)" "in_this n = Some self" "dir_of self s = (Ok d, s)" "reads_as d self s" by metis
  from dir_access [OF ok dirs(2)] obtain tn td where td: "rd target s = (Ok tn, s)" "in_this tn = Some target" "dir_of target s = (Ok td, s)"
    "reads_as td target s" by metis
  from reads_asD(3) [OF d(4) sp(1) src(1)] obtain k where k: "v_slots (view s) self k = Some (old, src)" "entry_or_enoent old d = Ok (k + 2, src)"
    using entry_found by blast
  note pos = inv_entry [OF inv src(1)]
  from pos(1) obtain ty where ty: "kind s src = Some ty" by auto
  from node_access [OF ok ty] obtain sn where sn: "rd src s = (Ok sn, s)" "ri_type sn = ty" by metis
  from carry_entry [OF ok dirs ne k(1) _ new(1) sp(2) new(2)] pos(1) obtain s1 s2 where
    s2: "wr self (upd_dir (remove_entry (k + 2))) s = (Ok (), s1)" "wr target (upd_dir (append_entry new src)) s1 = (Ok (), s2)" "rf_ok s2"
      "abs_fs s2 = ?a\<lparr>a_names := bind_name target new src (unbind_name self old (a_names ?a))\<rparr>" by auto
  have K2: "kind s2 = kind s" using absD(1) [OF s2(4)] by simp
  from step_dec_size [OF s2(3), of self] K2 dirs(1) s2(4) pos(2) obtain s3 where
    s3: "wr self dec_size s2 = (Ok (), s3)" "rf_ok s3" "abs_fs s3 = (abs_fs s2)\<lparr>a_size := drop_by self 1 (a_size (abs_fs s2))\<rparr>" by auto
  have K3: "kind s3 = kind s" using absD(1) [OF s3(3)] K2 by simp
  from step_inc_size [OF s3(2), of target] K3 dirs(2) obtain s4 where
    s4: "wr target (\<lambda>n. Ok (inc_size n)) s3 = (Ok (), s4)" "rf_ok s4" "abs_fs s4 = (abs_fs s3)\<lparr>a_size := raise_by target 1 (a_size (abs_fs s3))\<rparr>" by auto
  have K4: "kind s4 = kind s" using absD(1) [OF s4(3)] K3 by simp
  have "ty = Dir \<Longrightarrow> 0 < a_nlinks (abs_fs s4) self" using pos(5) ty s2(4) s3(3) s4(3) by simp
  from when_dir_move [where b = "ty = Dir", OF s4(2) _ _ this, of target] K4 dirs obtain s5 where
    s5: "(if ty = Dir then sr_bind (wr self dec_nlinks) (\<lambda>_. wr target (\<lambda>n. Ok (inc_nlinks n))) else sr_return ()) s4 = (Ok (), s5)" "rf_ok s5"
      "abs_fs s5 = (if ty = Dir then (abs_fs s4)\<lparr>a_nlinks := raise_by target 1 (drop_by self 1 (a_nlinks (abs_fs s4)))\<rparr> else abs_fs s4)" by auto
  have K5: "kind s5 = kind s" using absD(1) [OF s5(3)] K4 by simp
  from when_dir_parent [where b = "ty = Dir", OF s5(2), of src target] K5 ty dirs(2) obtain s6 where
    s6: "(if ty = Dir then wr src (upd_dir (\<lambda>d. Ok (set_parent (Some target) d))) else sr_return ()) s5 = (Ok (), s6)" "rf_ok s6"
      "abs_fs s6 = (if ty = Dir then (abs_fs s5)\<lparr>a_parent := (a_parent (abs_fs s5))(src \<mapsto> target)\<rparr> else abs_fs s5)" by auto
  have "abs_fs s6 = a_move self old target new src ?a"
    using s2(4) s3(3) s4(3) s5(3) s6(3) ty by (simp add: a_move_def Let_def)
  moreover have "rename_across self old target new s = (Ok (), s6)"
    using d td k(2) sn src(2) reads_asD(2) [OF td(4) sp(2) new(2)] s2(1,2) s3(1) s4(1) s5(1) s6(1)
    by (cases "ty = Dir") (simp_all add: rename_across_def exec_simps upgrade_def)
  ultimately show ?thesis using s6(2) by blast
qed

lemma rename_across_replace:
  assumes ok: "rf_ok s" and inv: "ainv exact (abs_fs s)" and dirs: "kind s self = Some Dir" "kind s target = Some Dir" and ne: "self \<noteq> target"
    and sp: "\<not> special old" "\<not> special new" and src: "a_names (abs_fs s) self old = Some src" "src \<noteq> target"
    and new: "name_ok new" and dst: "a_names (abs_fs s) target new = Some dst" "dst \<noteq> self" and rep: "replaceable src dst (abs_fs s) = Ok ()"
  shows "\<exists>s'. rename_across self old target new s = (Ok (), s') \<and> rf_ok s' \<and> abs_fs s' = a_replace self old target new src (abs_fs s)"
proof -
  let ?a = "abs_fs s"
  from dir_access [OF ok dirs(1)] obtain n d where d: "rd self s = (Ok n, s)" "in_this n = Some self" "dir_of self s = (Ok d, s)" "reads_as d self s" by metis
  from dir_access [OF ok dirs(2)] obtain tn td where td: "rd target s = (Ok tn, s)" "in_this tn = Some target" "dir_of target s = (Ok td, s)"
    "reads_as td target s" by metis
  from reads_asD(3) [OF d(4) sp(1) src(1)] obtain k where k: "v_slots (view s) self k = Some (old, src)" "entry_or_enoent old d = Ok (k + 2, src)"
    using entry_found by blast
  from reads_asD(3) [OF td(4) sp(2) dst(1)] obtain k' where
    k': "v_slots (view s) target k' = Some (new, dst)" "dir_get_entry new td = Ok (Some (k' + 2, dst))" by blast
  note pos = inv_entry [OF inv src(1)]
  from pos(1) obtain ty where ty: "kind s src = Some ty" by auto
  from node_access [OF ok ty] obtain sn where sn: "rd src s = (Ok sn, s)" "ri_type sn = ty" by metis
  have chk: "check_replace_inode src dst s = (Ok (), s)"
    using check_replace_spec [OF ok, of src dst] pos(1) inv_entry(1) [OF inv dst(1)] rep by simp
  from carry_entry_over [OF ok dirs ne k(1) k'(1) _ new sp(2)] pos(1) obtain s1 s2 s3 where
    s3: "wr self (upd_dir (remove_entry (k + 2))) s = (Ok (), s1)" "wr target (upd_dir (remove_entry (k' + 2))) s1 = (Ok (), s2)"
      "wr target (upd_dir (append_entry new src)) s2 = (Ok (), s3)" "rf_ok s3"
      "abs_fs s3 = ?a\<lparr>a_names := bind_name target new src (unbind_name self old (a_names ?a))\<rparr>" by auto
  have K3: "kind s3 = kind s" using absD(1) [OF s3(5)] by simp
  from step_dec_size [OF s3(4), of self] K3 dirs(1) s3(5) pos(2) obtain s4 where
    s4: "wr self dec_size s3 = (Ok (), s4)" "rf_ok s4" "abs_fs s4 = (abs_fs s3)\<lparr>a_size := drop_by self 1 (a_size (abs_fs s3))\<rparr>" by auto
  have K4: "kind s4 = kind s" using absD(1) [OF s4(3)] K3 by simp
  have "ty = Dir \<Longrightarrow> 0 < a_nlinks (abs_fs s4) self" using pos(5) ty s3(5) s4(3) by simp
  from when_dir_dec [where b = "ty = Dir", OF s4(2) _ this] K4 dirs obtain s5 where
    s5: "(if ty = Dir then wr self dec_nlinks else sr_return ()) s4 = (Ok (), s5)" "rf_ok s5"
      "abs_fs s5 = (if ty = Dir then (abs_fs s4)\<lparr>a_nlinks := drop_by self 1 (a_nlinks (abs_fs s4))\<rparr> else abs_fs s4)" by auto
  have K5: "kind s5 = kind s" using absD(1) [OF s5(3)] K4 by simp
  from when_dir_parent [where b = "ty = Dir", OF s5(2), of src target] K5 ty dirs(2) obtain s6 where
    s6: "(if ty = Dir then wr src (upd_dir (\<lambda>d. Ok (set_parent (Some target) d))) else sr_return ()) s5 = (Ok (), s6)" "rf_ok s6"
      "abs_fs s6 = (if ty = Dir then (abs_fs s5)\<lparr>a_parent := (a_parent (abs_fs s5))(src \<mapsto> target)\<rparr> else abs_fs s5)" by auto
  have "abs_fs s6 = a_replace self old target new src ?a"
    using s3(5) s4(3) s5(3) s6(3) ty by (simp add: a_replace_def Let_def)
  moreover have "rename_across self old target new s = (Ok (), s6)"
    using d td k(2) k'(2) sn src(2) dst(2) chk s3(1-3) s4(1) s5(1) s6(1)
    by (cases "ty = Dir") (simp_all add: rename_across_def exec_simps upgrade_def)
  ultimately show ?thesis using s6(2) by blast
qed

lemma rename_start:
  assumes ok: "rf_ok s" and dirs: "kind s self = Some Dir" "kind s target = Some Dir" and sp: "\<not> special old" "\<not> special new"
  shows "ri_rename self old (Local target) new s = (if self = target then rename_same self old new s else rename_across self old target new s)"
proof -
  from dir_access [OF ok dirs(1)] obtain n where n: "rd self s = (Ok n, s)" "ri_type n = Dir" "md_ino (in_meta n) = self" by metis
  from dir_access [OF ok dirs(2)] obtain m where m: "rd target s = (Ok m, s)" "ri_type m = Dir" "md_ino (in_meta m) = target" by metis
  show ?thesis using n m sp by (auto simp: ri_rename_def exec_simps special_def)
qed

text \<open>The failures of a rename leave the state alone.\<close>

lemma rename_enoent:
  assumes ok: "rf_ok s" and dirs: "kind s self = Some Dir" "kind s target = Some Dir" and sp: "\<not> special old"
    and none: "a_names (abs_fs s) self old = None"
  shows "rename_same self old new s = (Err ENOENT, s)" "rename_across self old target new s = (Err ENOENT, s)"
proof -
  from dir_access [OF ok dirs(1)] obtain n d where d: "rd self s = (Ok n, s)" "in_this n = Some self" "dir_of self s = (Ok d, s)" "reads_as d self s" by metis
  from dir_access [OF ok dirs(2)] obtain tn where tn: "rd target s = (Ok tn, s)" "in_this tn = Some target" by metis
  have e: "entry_or_enoent old d = Err ENOENT" by (rule entry_absent [OF reads_asD(2) [OF d(4) sp none]])
  show "rename_same self old new s = (Err ENOENT, s)" using d e by (simp add: rename_same_def exec_simps)
  show "rename_across self old target new s = (Err ENOENT, s)" using d tn e by (simp add: rename_across_def exec_simps upgrade_def)
qed

lemma rename_refused:
  assumes ok: "rf_ok s" and inv: "ainv exact (abs_fs s)" and dirs: "kind s self = Some Dir" "kind s target = Some Dir" and sp: "\<not> special old" "\<not> special new"
    and src: "a_names (abs_fs s) self old = Some src"
  shows "self \<noteq> target \<Longrightarrow> src = target \<Longrightarrow> rename_across self old target new s = (Err EINVAL, s)"
    and "self \<noteq> target \<Longrightarrow> src \<noteq> target \<Longrightarrow> a_names (abs_fs s) target new = Some self \<Longrightarrow> rename_across self old target new s = (Err ENOTEMPTY, s)"
    and "self \<noteq> target \<Longrightarrow> src \<noteq> target \<Longrightarrow> a_names (abs_fs s) target new = Some dst \<Longrightarrow> dst \<noteq> self \<Longrightarrow> replaceable src dst (abs_fs s) = Inl e
      \<Longrightarrow> rename_across self old target new s = (Inl e, s)"
    and "a_names (abs_fs s) self new = Some dst \<Longrightarrow> replaceable src dst (abs_fs s) = Inl e \<Longrightarrow> rename_same self old new s = (Inl e, s)"
proof -
  from dir_access [OF ok dirs(1)] obtain n d where d: "rd self s = (Ok n, s)" "in_this n = Some self" "dir_of self s = (Ok d, s)" "reads_as d self s" by metis
  from dir_access [OF ok dirs(2)] obtain tn td where td: "rd target s = (Ok tn, s)" "in_this tn = Some target" "dir_of target s = (Ok td, s)"
    "reads_as td target s" by metis
  from reads_asD(3) [OF d(4) sp(1) src] obtain k where k: "entry_or_enoent old d = Ok (k + 2, src)" using entry_found by blast
  have sk: "kind s src \<noteq> None" using inv_entry(1) [OF inv src] by simp
  then obtain sn where sn: "rd src s = (Ok sn, s)" using node_access [OF ok] by blast
  have chk: "check_replace_inode src dst s = (replaceable src dst (abs_fs s), s)" if "a_names (abs_fs s) i new = Some dst" for i dst
    using check_replace_spec [OF ok sk] inv_entry(1) [OF inv that] by simp
  show "rename_across self old target new s = (Err EINVAL, s)" if "self \<noteq> target" "src = target"
    using d td k that by (simp add: rename_across_def exec_simps upgrade_def)
  show "rename_across self old target new s = (Err ENOTEMPTY, s)" if "self \<noteq> target" "src \<noteq> target" "a_names (abs_fs s) target new = Some self"
    using d td k sn that reads_asD(3) [OF td(4) sp(2) that(3)] by (auto simp: rename_across_def exec_simps upgrade_def)
  show "rename_across self old target new s = (Inl e, s)" if "self \<noteq> target" "src \<noteq> target" "a_names (abs_fs s) target new = Some dst" "dst \<noteq> self"
      "replaceable src dst (abs_fs s) = Inl e"
    using d td k sn that chk [OF that(3)] reads_asD(3) [OF td(4) sp(2) that(3)] by (auto simp: rename_across_def exec_simps upgrade_def)
  show "rename_same self old new s = (Inl e, s)" if "a_names (abs_fs s) self new = Some dst" "replaceable src dst (abs_fs s) = Inl e"
    using d k sn that chk [OF that(1)] reads_asD(3) [OF d(4) sp(2) that(1)] by (auto simp: rename_same_def exec_simps)
qed

lemma sim_rename_local:
  assumes ok: "rf_ok s" and inv: "ainv exact (abs_fs s)" and dirs: "kind s self = Some Dir" "kind s target = Some Dir" and sp: "\<not> special old" "\<not> special new"
    and new: "name_ok new" and ne: "target \<noteq> self \<or> old \<noteq> new"
  shows "sim (ri_rename self old (Local target) new) (spec_rename self old (Local target) new) s"
proof (cases "a_names (abs_fs s) self old")
  case None
  from rename_enoent [OF ok dirs sp(1) None] show ?thesis
    using None dirs sp ok by (intro simI [where r = "Err ENOENT" and s' = s]) (auto simp: rename_start [OF ok dirs sp] spec_rename_def)
next
  case src: (Some src)
  note st = rename_start [OF ok dirs sp] and rf = rename_refused [OF ok inv dirs sp src]
  show ?thesis
  proof (cases "self \<noteq> target \<and> src = target")
    case True
    then show ?thesis using src dirs sp ok rf(1)
      by (intro simI [where r = "Err EINVAL" and s' = s]) (auto simp: st spec_rename_def)
  next
    case loop: False
    show ?thesis
    proof (cases "a_names (abs_fs s) target new")
      case None
      have "\<exists>s'. ri_rename self old (Local target) new s = (Ok (), s') \<and> rf_ok s' \<and> abs_fs s' = a_move self old target new src (abs_fs s)"
        using st rename_same_move [OF ok inv dirs(1) sp src new] rename_across_move [OF ok inv dirs _ sp src _ new None] None loop by (cases "self = target") auto
      then show ?thesis using src dirs sp loop None by (auto intro!: simI simp: spec_rename_def)
    next
      case dst: (Some dst)
      show ?thesis
      proof (cases "self \<noteq> target \<and> dst = self")
        case True
        then show ?thesis using src dst loop dirs sp ok rf(2)
          by (intro simI [where r = "Err ENOTEMPTY" and s' = s]) (auto simp: st spec_rename_def)
      next
        case top: False
        show ?thesis
        proof (cases "replaceable src dst (abs_fs s)")
          case (Inl e)
          have "ri_rename self old (Local target) new s = (Inl e, s)" using st rf(3,4) [of dst e] dst Inl loop top by (cases "self = target") auto
          then show ?thesis using src dst loop top dirs sp ok Inl by (auto intro!: simI simp: spec_rename_def)
        next
          case (Inr u)
          then have rep: "replaceable src dst (abs_fs s) = Ok ()" by simp
          have "\<exists>s'. ri_rename self old (Local target) new s = (Ok (), s') \<and> rf_ok s' \<and> abs_fs s' = a_replace self old target new src (abs_fs s)"
            using st rename_same_replace [OF ok inv dirs(1) sp src _ new _ rep] rename_across_replace [OF ok inv dirs _ sp src _ new dst _ rep]
              dst loop top ne by (cases "self = target") auto
          then show ?thesis using src dirs sp loop dst top rep by (auto intro!: simI simp: spec_rename_def)
        qed
      qed
    qed
  qed
qed

lemma sim_rename:
  assumes ok: "rf_ok s" and inv: "ainv exact (abs_fs s)" and self: "kind s self \<noteq> None" and tgt: "\<And>i. tref = Local i \<Longrightarrow> kind s i \<noteq> None"
    and new: "name_ok new" and ne: "tref \<noteq> Local self \<or> old \<noteq> new"
  shows "sim (ri_rename self old tref new) (spec_rename self old tref new) s"
proof (cases "kind s self = Some Dir")
  case False
  from not_dir [OF ok self False] show ?thesis
    using False ok by (intro simI [where r = "Err ENOTDIR" and s' = s]) (auto simp: ri_rename_def exec_simps spec_rename_def)
next
  case dir: True
  from dir_access [OF ok dir] obtain n where n: "rd self s = (Ok n, s)" "ri_type n = Dir" by metis
  show ?thesis
  proof (cases tref)
    case Foreign
    then show ?thesis using dir n ok by (intro simI [where r = "Err EXDEV" and s' = s]) (auto simp: ri_rename_def exec_simps spec_rename_def)
  next
    case (Local target)
    show ?thesis
    proof (cases "kind s target = Some Dir")
      case False
      from not_dir [OF ok tgt [OF Local] False] show ?thesis
        using Local False dir n ok by (intro simI [where r = "Err ENOTDIR" and s' = s]) (auto simp: ri_rename_def exec_simps spec_rename_def)
    next
      case td: True
      from dir_access [OF ok td] obtain m where m: "rd target s = (Ok m, s)" "ri_type m = Dir" by metis
      show ?thesis
      proof (cases "special old \<or> special new")
        case True
        then show ?thesis
          using Local td dir n m ok by (intro simI [where r = "Err EISDIR" and s' = s]) (auto simp: ri_rename_def exec_simps spec_rename_def special_def)
      next
        case False
        then show ?thesis using sim_rename_local [OF ok inv dir td _ _ new] ne Local by auto
      qed
    qed
  qed
qed

section \<open>Links and attributes\<close>

definition spec_write_link :: "nat \<Rightarrow> name \<Rightarrow> afs \<Rightarrow> unit res \<times> afs" where
  "spec_write_link self tgt a =
    (if a_kind a self \<noteq> Some SymLink then (Err EINVAL, a) else (Ok (), a\<lparr>a_size := (a_size a)(self := length tgt)\<rparr>))"

lemma ainv_write_link: "ainv exact a \<Longrightarrow> ainv exact (snd (spec_write_link self tgt a))"
  by (auto simp: spec_write_link_def ainv_def sized_def)

lemma write_link_state:
  assumes ok: "rf_ok s" and k: "kind s self = Some SymLink"
  shows "\<exists>n l. rf_inodes s self = Some n \<and> in_inner n = SymLinkInner l \<and> ri_write_link self tgt s
    = (Ok (), set_inode self (n\<lparr>in_inner := SymLinkInner tgt, in_meta := (in_meta n)\<lparr>md_size := length tgt\<rparr>\<rparr>) s)"
proof -
  from k obtain n where n: "rf_inodes s self = Some n" "ri_type n = SymLink" by (auto simp: kind_def)
  then obtain l where "in_inner n = SymLinkInner l"
    using rf_okD(4) [OF ok n(1)] by (auto simp: inode_ok_def inner_ok_def ri_type_def split: inner.splits)
  with n show ?thesis by (simp add: ri_write_link_def rd_eq wr_def exec_simps)
qed

lemma sim_write_link:
  assumes ok: "rf_ok s" and self: "kind s self \<noteq> None"
  shows "sim (ri_write_link self tgt) (spec_write_link self tgt) s"
proof (cases "kind s self = Some SymLink")
  case False
  from self obtain ty where ty: "kind s self = Some ty" by auto
  from node_access [OF ok ty] obtain n where "rd self s = (Ok n, s)" "ri_type n = ty" by metis
  then show ?thesis using False ty ok by (intro simI [where r = "Err EINVAL" and s' = s]) (auto simp: ri_write_link_def exec_simps spec_write_link_def)
next
  case True
  from write_link_state [OF ok True] obtain n l where n: "rf_inodes s self = Some n" "in_inner n = SymLinkInner l" "ri_write_link self tgt s
    = (Ok (), set_inode self (n\<lparr>in_inner := SymLinkInner tgt, in_meta := (in_meta n)\<lparr>md_size := length tgt\<rparr>\<rparr>) s)" (is "_ = (_, ?s)") by blast
  let ?n = "n\<lparr>in_inner := SymLinkInner tgt, in_meta := (in_meta n)\<lparr>md_size := length tgt\<rparr>\<rparr>"
  have ty: "ri_type n = SymLink" using n(1) True by (simp add: kind_def)
  have "inner_ok (kind s) self (in_inner ?n) (in_meta ?n)" using ty by (simp add: inner_ok_def ri_type_def)
  moreover have "keeps_inode n ?n" by (simp add: keeps_inode_def ri_type_def)
  ultimately have w: "rf_ok ?s" "view ?s = (view s)\<lparr>v_size := (v_size (view s))(self := length tgt)\<rparr>"
    using wr_spec(2,3) [where n' = ?n and f = "\<lambda>_. Ok ?n", OF ok n(1)] view_at(2,4,5) [OF n(1)] n(2)
    by (auto simp: fun_upd_idem inner_slots_def inner_parent_def)
  then show ?thesis using True n(3) by (intro simI) (auto simp: spec_write_link_def abs_eq ok)
qed

lemma sim_set_attr:
  assumes ok: "rf_ok s" and self: "kind s self \<noteq> None"
  shows "sim (ri_set_attr self at) (\<lambda>a. (Ok (), a)) s"
proof -
  from self obtain n where n: "rf_inodes s self = Some n" by (auto simp: kind_def)
  have "\<exists>s'. ri_set_attr self at s = (Ok (), s') \<and> rf_ok s' \<and> view s' = view s"
    using wr_meta [where f = "\<lambda>n. Ok (n\<lparr>in_meta := set_attr at (in_meta n)\<rparr>)" and md = "set_attr at (in_meta n)", OF ok n refl] view_at(2,3) [OF n]
    by (cases at) (auto simp: ri_set_attr_def ri_type_def fun_upd_idem)
  then show ?thesis by (auto intro!: simI simp: abs_eq ok)
qed

end
