(* ===== verification/Ramfs_Run.thy ===== *)
theory Ramfs_Run
  imports Ramfs_Refine
begin

text \<open>
  Runs of the operations of the in-memory file system, from an empty one: the refinement of name spaces, type safety, the
  link counts, and directory listings that can be resumed.
\<close>

section \<open>Runs of operations\<close>

datatype ('pc, 'dev) ramfs_op =
  OpCreate 'pc nat name inode_type u16 | OpMknod nat name u16 'dev device_type u64 | OpLink nat inode_ref name | OpUnlink nat name
| OpRmdir nat name | OpRename nat name inode_ref name | OpLookup nat name | OpWriteLink nat name | OpSetAttr nat attr

definition unit_op :: "('s, unit) sr \<Rightarrow> ('s, nat option) sr" where "unit_op m = sr_bind m (\<lambda>_. sr_return None)"
definition ino_op :: "('s, nat) sr \<Rightarrow> ('s, nat option) sr" where "ino_op m = sr_bind m (\<lambda>i. sr_return (Some i))"

fun run_op :: "('pc, 'dev) ramfs_op \<Rightarrow> (('pc, 'dev) ramfs, nat option) sr" where
  "run_op (OpCreate pc self nm ty mode) = ino_op (ri_create pc self nm ty mode)"
| "run_op (OpMknod self nm mode dev dt did) = ino_op (ri_mknod self nm mode dev dt did)"
| "run_op (OpLink self old nm) = unit_op (ri_link self old nm)"
| "run_op (OpUnlink self nm) = unit_op (ri_unlink self nm)"
| "run_op (OpRmdir self nm) = unit_op (ri_rmdir self nm)"
| "run_op (OpRename self old tref new) = unit_op (ri_rename self old tref new)"
| "run_op (OpLookup self nm) = ino_op (ri_lookup self nm)"
| "run_op (OpWriteLink self tgt) = unit_op (ri_write_link self tgt)"
| "run_op (OpSetAttr self at) = unit_op (ri_set_attr self at)"

definition spec_unit :: "(afs \<Rightarrow> unit res \<times> afs) \<Rightarrow> afs \<Rightarrow> nat option res \<times> afs" where
  "spec_unit f a = (case f a of (Inl e, a') \<Rightarrow> (Inl e, a') | (Inr _, a') \<Rightarrow> (Ok None, a'))"
definition spec_ino :: "(afs \<Rightarrow> nat res \<times> afs) \<Rightarrow> afs \<Rightarrow> nat option res \<times> afs" where
  "spec_ino f a = (case f a of (Inl e, a') \<Rightarrow> (Inl e, a') | (Inr i, a') \<Rightarrow> (Ok (Some i), a'))"

fun spec_op :: "('pc, 'dev) ramfs_op \<Rightarrow> afs \<Rightarrow> nat option res \<times> afs" where
  "spec_op (OpCreate pc self nm ty mode) = spec_ino (spec_create self nm ty)"
| "spec_op (OpMknod self nm mode dev dt did) = spec_ino (spec_create self nm (inode_type_of_device dt))"
| "spec_op (OpLink self old nm) = spec_unit (spec_link self old nm)"
| "spec_op (OpUnlink self nm) = spec_unit (spec_unlink self nm)"
| "spec_op (OpRmdir self nm) = spec_unit (spec_rmdir self nm)"
| "spec_op (OpRename self old tref new) = spec_unit (spec_rename self old tref new)"
| "spec_op (OpLookup self nm) = spec_ino (\<lambda>a. (spec_lookup self nm a, a))"
| "spec_op (OpWriteLink self tgt) = spec_unit (spec_write_link self tgt)"
| "spec_op (OpSetAttr self at) = spec_unit (\<lambda>a. (Ok (), a))"

text \<open>
  What a caller of an operation guarantees: the inodes it names exist, a name is a Rust string without a NUL, no
  longer than \<open>NAME_MAX\<close> where the code does not check it, the type to create is one the file system supports and a rename has
  two different names for its two places.
\<close>

definition ref_ok :: "afs \<Rightarrow> inode_ref \<Rightarrow> bool" where
  "ref_ok a r \<longleftrightarrow> (case r of Foreign \<Rightarrow> True | Local i \<Rightarrow> a_kind a i \<noteq> None)"

fun op_ok :: "('pc, 'dev) ramfs_op \<Rightarrow> afs \<Rightarrow> bool" where
  "op_ok (OpCreate pc self nm ty mode) a \<longleftrightarrow> a_kind a self \<noteq> None \<and> str_ok nm \<and> creatable ty \<and> a_next a + 1 < USIZE_RANGE"
| "op_ok (OpMknod self nm mode dev dt did) a \<longleftrightarrow> a_kind a self \<noteq> None \<and> str_ok nm \<and> a_next a + 1 < USIZE_RANGE"
| "op_ok (OpLink self old nm) a \<longleftrightarrow> a_kind a self \<noteq> None \<and> ref_ok a old \<and> name_ok nm"
| "op_ok (OpUnlink self nm) a \<longleftrightarrow> a_kind a self \<noteq> None"
| "op_ok (OpRmdir self nm) a \<longleftrightarrow> a_kind a self \<noteq> None"
| "op_ok (OpRename self old tref new) a \<longleftrightarrow> a_kind a self \<noteq> None \<and> ref_ok a tref \<and> name_ok new \<and> (tref \<noteq> Local self \<or> old \<noteq> new)"
| "op_ok (OpLookup self nm) a \<longleftrightarrow> a_kind a self \<noteq> None"
| "op_ok (OpWriteLink self tgt) a \<longleftrightarrow> a_kind a self \<noteq> None"
| "op_ok (OpSetAttr self at) a \<longleftrightarrow> a_kind a self \<noteq> None"

fun op_replaces :: "('pc, 'dev) ramfs_op \<Rightarrow> afs \<Rightarrow> bool" where
  "op_replaces (OpRename self old tref new) a = replaces self old tref new a"
| "op_replaces _ a = False"

lemma sim_unit: "sim m f s \<Longrightarrow> sim (unit_op m) (spec_unit f) s"
  by (auto simp: sim_def unit_op_def spec_unit_def sr_bind_def sr_return_def split: prod.splits sum.splits)

lemma sim_ino: "sim m f s \<Longrightarrow> sim (ino_op m) (spec_ino f) s"
  by (auto simp: sim_def ino_op_def spec_ino_def sr_bind_def sr_return_def split: prod.splits sum.splits)

lemma snd_spec_unit: "snd (spec_unit f a) = snd (f a)" and snd_spec_ino: "snd (spec_ino g a) = snd (g a)"
  by (auto simp: spec_unit_def spec_ino_def split: prod.splits sum.splits)

lemma run_op_sim:
  assumes "fs_inv exact s" "op_ok op (abs_fs s)"
  shows "sim (run_op op) (spec_op op) s"
proof -
  have ok: "rf_ok s" and inv: "ainv exact (abs_fs s)" using assms(1) by (auto simp: fs_inv_def)
  note sims = sim_create [OF ok] sim_mknod [OF ok] sim_link [OF ok] sim_unlink [OF ok inv] sim_rmdir [OF ok inv] sim_rename [OF ok inv] sim_lookup [OF ok]
    sim_write_link [OF ok] sim_set_attr [OF ok]
  show ?thesis using assms(2) by (cases op) (auto intro!: sim_unit sim_ino sims simp: ref_ok_def)
qed

lemma spec_op_inv:
  assumes "ainv exact (abs_fs s)" "op_ok op (abs_fs s)"
  shows "ainv (exact \<and> \<not> op_replaces op (abs_fs s)) (snd (spec_op op (abs_fs s)))"
proof -
  note invs = ainv_create ainv_unlink ainv_rmdir ainv_write_link
  have "ainv exact (snd (spec_link self old nm (abs_fs s)))" if "ref_ok (abs_fs s) old" for self old nm
    by (rule ainv_link [OF assms(1)]) (use that in \<open>simp add: ref_ok_def\<close>)
  then show ?thesis using assms invs [OF assms(1)] ainv_rename [OF assms(1)]
    by (cases op) (auto simp: snd_spec_unit snd_spec_ino)
qed

lemma run_op_inv:
  assumes "fs_inv exact s" "op_ok op (abs_fs s)"
  shows "fs_inv (exact \<and> \<not> op_replaces op (abs_fs s)) (snd (run_op op s))"
  using run_op_sim [OF assms] spec_op_inv [of exact s op] assms unfolding fs_inv_def sim_def by (metis snd_conv)

fun run_ops :: "('pc, 'dev) ramfs_op list \<Rightarrow> ('pc, 'dev) ramfs \<Rightarrow> nat option res list \<times> ('pc, 'dev) ramfs" where
  "run_ops [] s = ([], s)"
| "run_ops (op # ops) s = (let (r, s') = run_op op s; (rs, s'') = run_ops ops s' in (r # rs, s''))"

fun spec_ops :: "('pc, 'dev) ramfs_op list \<Rightarrow> afs \<Rightarrow> nat option res list \<times> afs" where
  "spec_ops [] a = ([], a)"
| "spec_ops (op # ops) a = (let (r, a') = spec_op op a; (rs, a'') = spec_ops ops a' in (r # rs, a''))"

fun ops_ok :: "('pc, 'dev) ramfs_op list \<Rightarrow> afs \<Rightarrow> bool" where
  "ops_ok [] a = True"
| "ops_ok (op # ops) a = (op_ok op a \<and> ops_ok ops (snd (spec_op op a)))"

text \<open>Whether some rename of a run replaces an entry.\<close>

fun any_replaces :: "('pc, 'dev) ramfs_op list \<Rightarrow> afs \<Rightarrow> bool" where
  "any_replaces [] a = False"
| "any_replaces (op # ops) a = (op_replaces op a \<or> any_replaces ops (snd (spec_op op a)))"

text \<open>A file system that holds only its root directory.\<close>

definition empty_fs :: afs where
  "empty_fs = \<lparr>a_kind = [ROOT_INO \<mapsto> Dir], a_names = (\<lambda>_. Map.empty), a_nlinks = (\<lambda>_. 0)(ROOT_INO := 2), a_parent = [ROOT_INO \<mapsto> ROOT_INO],
     a_size = (\<lambda>_. 0)(ROOT_INO := 2), a_next = ROOT_INO + 1\<rparr>"

lemma ramfs_new_abs: "abs_fs ramfs_new = empty_fs"
  by (auto simp: abs_fs_def empty_fs_def ramfs_new_def kind_def view_def abs_names_def ri_type_def metadata_new_dir_def inner_parent_def dir_init_def
      set_parent_def dir_entry_new_def sv_iter_def sv_new_def fun_eq_iff)

lemma ramfs_new_inv: "fs_inv True ramfs_new"
proof -
  have "rf_ok ramfs_new"
    by (auto simp: rf_ok_def ramfs_new_def kind_def ri_type_def metadata_new_dir_def inode_ok_def inner_ok_def dir_ok_def dir_init_def set_parent_def
        dir_entry_new_def sv_inv_new sv_lookup_new slots_ok_def split: if_splits)
  moreover have "ainv True empty_fs"
    by (auto simp: ainv_def empty_fs_def tree_ok_def sized_def counted_def links_def refs_def subdirs_def)
  ultimately show ?thesis by (simp add: fs_inv_def ramfs_new_abs)
qed

lemma run_ops_sim:
  assumes "fs_inv exact s" "ops_ok ops (abs_fs s)"
  shows "fs_inv (exact \<and> \<not> any_replaces ops (abs_fs s)) (snd (run_ops ops s))
    \<and> (fst (run_ops ops s), abs_fs (snd (run_ops ops s))) = spec_ops ops (abs_fs s)"
  using assms
proof (induction ops arbitrary: s exact)
  case (Cons op ops)
  obtain r s' where r: "run_op op s = (r, s')" by (cases "run_op op s")
  obtain rs s'' where rs: "run_ops ops s' = (rs, s'')" by (cases "run_ops ops s'")
  have ok: "op_ok op (abs_fs s)" using Cons.prems(2) by simp
  from run_op_sim [OF Cons.prems(1) ok] run_op_inv [OF Cons.prems(1) ok] r
  have s': "spec_op op (abs_fs s) = (r, abs_fs s')" "fs_inv (exact \<and> \<not> op_replaces op (abs_fs s)) s'" by (auto simp: sim_def)
  have "ops_ok ops (abs_fs s')" using Cons.prems(2) s'(1) by simp
  from Cons.IH [OF s'(2) this] rs have "spec_ops ops (abs_fs s') = (rs, abs_fs s'')"
    "fs_inv ((exact \<and> \<not> op_replaces op (abs_fs s)) \<and> \<not> any_replaces ops (abs_fs s')) s''" by simp_all
  with r rs s'(1) show ?case by (simp add: conj_assoc)
qed simp

lemma unlink_no_panic: "fst (spec_unlink self nm a) \<noteq> panic"
  and rmdir_no_panic: "fst (spec_rmdir self nm a) \<noteq> panic"
  and link_no_panic: "fst (spec_link self old nm a) \<noteq> panic"
  and create_no_panic: "fst (spec_create self nm ty a) \<noteq> panic"
  and write_link_no_panic: "fst (spec_write_link self tgt a) \<noteq> panic"
  by (auto simp: spec_unlink_def spec_rmdir_def spec_link_def spec_create_def spec_write_link_def Let_def split: option.splits inode_ref.splits)

lemma rename_no_panic: "fst (spec_rename self old tref new a) \<noteq> panic"
  by (auto simp: spec_rename_def replaceable_def split: option.splits inode_ref.splits)

lemma lookup_no_panic: "rf_ok s \<Longrightarrow> spec_lookup self nm (abs_fs s) \<noteq> panic"
  by (auto simp: spec_lookup_def split: option.splits elim!: dir_inode simp: dir_ok_def)

lemma fst_spec_unit: "fst (spec_unit f a) = panic \<longleftrightarrow> fst (f a) = panic" and fst_spec_ino: "fst (spec_ino g a) = panic \<longleftrightarrow> fst (g a) = panic"
  by (auto simp: spec_unit_def spec_ino_def split: prod.splits sum.splits)

lemmas no_panic = unlink_no_panic rmdir_no_panic link_no_panic create_no_panic write_link_no_panic rename_no_panic

lemma run_op_no_panic:
  assumes "fs_inv exact s" "op_ok op (abs_fs s)"
  shows "fst (run_op op s) \<noteq> panic"
proof -
  have "fst (spec_op op (abs_fs s)) \<noteq> panic"
    using assms(1) by (cases op) (simp_all add: fst_spec_unit fst_spec_ino no_panic lookup_no_panic fs_inv_def)
  then show ?thesis using run_op_sim [OF assms] by (metis fst_conv sim_def)
qed

lemma run_ops_no_panic:
  assumes "fs_inv exact s" "ops_ok ops (abs_fs s)"
  shows "\<forall>r \<in> set (fst (run_ops ops s)). r \<noteq> panic"
  using assms
proof (induction ops arbitrary: s exact)
  case (Cons op ops)
  obtain r s' where r: "run_op op s = (r, s')" by (cases "run_op op s")
  obtain rs s'' where rs: "run_ops ops s' = (rs, s'')" by (cases "run_ops ops s'")
  have ok: "op_ok op (abs_fs s)" using Cons.prems(2) by simp
  have i: "fs_inv (exact \<and> \<not> op_replaces op (abs_fs s)) s'" using run_op_inv [OF Cons.prems(1) ok] r by simp
  have "spec_op op (abs_fs s) = (r, abs_fs s')" using run_op_sim [OF Cons.prems(1) ok] r by (simp add: sim_def)
  then have "ops_ok ops (abs_fs s')" using Cons.prems(2) by simp
  from Cons.IH [OF i this] run_op_no_panic [OF Cons.prems(1) ok] r rs show ?case by simp
qed simp

lemma run_new:
  assumes "ops_ok ops empty_fs"
  shows "fs_inv (\<not> any_replaces ops empty_fs) (snd (run_ops ops ramfs_new))
    \<and> (fst (run_ops ops ramfs_new), abs_fs (snd (run_ops ops ramfs_new))) = spec_ops ops empty_fs"
  using run_ops_sim [OF ramfs_new_inv, of ops] assms by (simp add: ramfs_new_abs)

section \<open>Properties of runs\<close>

text \<open>(C7) The in-memory file system implements name spaces: whatever operations are run on a new file system, each returns the result of
  the abstract operation, error codes included, and the file system that is left shows the name space of the abstract run: the
  directories as maps from names to inodes, the types, sizes, parents and link counts, and the next inode number.
\<close>

theorem ramfs_refines:
  assumes "ops_ok ops empty_fs"
  shows "(fst (run_ops ops ramfs_new), abs_fs (snd (run_ops ops ramfs_new))) = spec_ops ops empty_fs"
  using run_new [OF assms] by simp


text \<open>(C12) Link counts and sizes: after any run on a new file system, the link count of an inode is at least the number of its links:
  the directory entries that lead to it, or for a directory its own entry, the entry in its parent and the one in each
  subdirectory. It is exactly that number when no rename of the run replaced an entry. The size of a directory counts its entries.
\<close>

theorem ramfs_link_counts:
  assumes "ops_ok ops empty_fs" "s = snd (run_ops ops ramfs_new)" "rf_inodes s i = Some n"
  shows "links (kind s) (abs_names s) i \<le> md_nlinks (in_meta n)
    \<and> (\<not> any_replaces ops empty_fs \<longrightarrow> md_nlinks (in_meta n) = links (kind s) (abs_names s) i)
    \<and> (ri_type n = Dir \<longrightarrow> md_size (in_meta n) = 2 + card (dom (abs_names s i)))"
proof -
  have inv: "ainv (\<not> any_replaces ops empty_fs) (abs_fs s)"
    using run_new [OF assms(1)] assms(2) by (simp add: fs_inv_def)
  have "kind s i = Some (ri_type n)" "v_nlinks (view s) i = md_nlinks (in_meta n)" "v_size (view s) i = md_size (in_meta n)"
    using view_at [OF assms(3)] by simp_all
  with ainvD(2,3) [OF inv] show ?thesis by (auto simp: counted_def sized_def abs_fs_def)
qed

subsection \<open>Examples\<close>

text \<open>A directory \<open>d\<close> with a file \<open>f\<close> that has a second name \<open>g\<close> in the root; \<open>d\<close> is not empty, \<open>g\<close> moves into it.\<close>

definition ex_ops :: "(unit, unit) ramfs_op list" where
  "ex_ops = [OpCreate () 1 [100] Dir 0x1ED, OpCreate () 2 [102] File 0x1A4, OpLink 1 (Local 3) [103], OpRmdir 1 [100],
     OpRename 1 [103] (Local 2) [104], OpUnlink 2 [102], OpLookup 2 [104], OpCreate () 2 [46, 46] Dir 0]"

text \<open>Two files, one of which takes the other's name.\<close>

definition ex_replace :: "(unit, unit) ramfs_op list" where
  "ex_replace = [OpCreate () 1 [102] File 0x1A4, OpCreate () 1 [103] File 0x1A4, OpRename 1 [102] (Local 1) [103]]"

lemmas ex_simps = ex_ops_def ex_replace_def empty_fs_def ROOT_INO_def NAME_MAX_def DOT_def DOTDOT_def special_def ref_ok_def name_ok_def str_ok_def
  creatable_def spec_unit_def spec_ino_def spec_create_def spec_link_def spec_rmdir_def spec_unlink_def spec_lookup_def spec_rename_def a_add_def a_new_def
  a_del_def a_move_def a_replace_def replaceable_def bind_name_def unbind_name_def raise_by_def drop_by_def replaces_def Let_def

lemma ex_ops_ok: "ops_ok ex_ops empty_fs"
  by (simp add: ex_simps)

theorem ramfs_refines_witness:
  "ops_ok ex_ops empty_fs \<and> fst (run_ops ex_ops ramfs_new)
     = [Ok (Some 2), Ok (Some 3), Ok None, Err ENOTEMPTY, Ok None, Ok None, Ok (Some 3), Err EEXIST]"
proof -
  have "fst (run_ops ex_ops ramfs_new) = fst (spec_ops ex_ops empty_fs)"
    using arg_cong [OF ramfs_refines [OF ex_ops_ok], of fst] by simp
  also have "\<dots> = [Ok (Some 2), Ok (Some 3), Ok None, Err ENOTEMPTY, Ok None, Ok None, Ok (Some 3), Err EEXIST]"
    by (simp add: ex_simps)
  finally show ?thesis using ex_ops_ok by simp
qed

lemma ex_inode:
  assumes "ops_ok ops empty_fs" "a_kind (snd (spec_ops ops empty_fs)) i = Some ty"
  shows "\<exists>n. rf_inodes (snd (run_ops ops ramfs_new)) i = Some n \<and> ri_type n = ty \<and> md_nlinks (in_meta n) = a_nlinks (snd (spec_ops ops empty_fs)) i"
proof -
  have eq: "snd (spec_ops ops empty_fs) = abs_fs (snd (run_ops ops ramfs_new))" using run_new [OF assms(1)] by (metis snd_conv)
  show ?thesis using assms(2) unfolding eq by (auto simp: kind_def view_at(2))
qed


theorem ramfs_link_counts_witness:
  "\<exists>n. rf_inodes (snd (run_ops ex_ops ramfs_new)) 3 = Some n
     \<and> md_nlinks (in_meta n) = links (kind (snd (run_ops ex_ops ramfs_new))) (abs_names (snd (run_ops ex_ops ramfs_new))) 3"
proof -
  have "a_kind (snd (spec_ops ex_ops empty_fs)) 3 = Some File" by (simp add: ex_simps)
  from ex_inode [OF ex_ops_ok this] obtain n where n: "rf_inodes (snd (run_ops ex_ops ramfs_new)) 3 = Some n" by blast
  have "\<not> any_replaces ex_ops empty_fs" by (simp add: ex_simps)
  then show ?thesis using ramfs_link_counts [OF ex_ops_ok refl n] n by blast
qed

text \<open>
  The exception is real: the file that lost its name to another one has no entry any more, but its link count is still one.
\<close>

lemma replaced_inode_keeps_count:
  "\<exists>n. rf_inodes (snd (run_ops ex_replace ramfs_new)) 3 = Some n \<and> md_nlinks (in_meta n) = 1
     \<and> links (kind (snd (run_ops ex_replace ramfs_new))) (abs_names (snd (run_ops ex_replace ramfs_new))) 3 = 0"
proof -
  have ok: "ops_ok ex_replace empty_fs" by (simp add: ex_simps)
  have "a_kind (snd (spec_ops ex_replace empty_fs)) 3 = Some File" "a_nlinks (snd (spec_ops ex_replace empty_fs)) 3 = 1" by (simp_all add: ex_simps)
  with ex_inode [OF ok] obtain n where n: "rf_inodes (snd (run_ops ex_replace ramfs_new)) 3 = Some n" "md_nlinks (in_meta n) = 1" by metis
  have eq: "abs_fs (snd (run_ops ex_replace ramfs_new)) = snd (spec_ops ex_replace empty_fs)" using run_new [OF ok] by (metis snd_conv)
  have "kind (snd (run_ops ex_replace ramfs_new)) = a_kind (snd (spec_ops ex_replace empty_fs))"
    "abs_names (snd (run_ops ex_replace ramfs_new)) = a_names (snd (spec_ops ex_replace empty_fs))"
    unfolding eq [symmetric] by (simp_all add: abs_fs_def)
  moreover have "links (a_kind (snd (spec_ops ex_replace empty_fs))) (a_names (snd (spec_ops ex_replace empty_fs))) 3 = 0"
    by (simp add: links_def refs_def) (simp add: ex_simps)
  ultimately show ?thesis using n by simp
qed

section \<open>Listing a directory\<close>

text \<open>The entries of a directory in the order of a listing, with the offset of each.\<close>

definition type_of :: "('pc, 'dev) ramfs \<Rightarrow> nat \<Rightarrow> inode_type" where
  "type_of s c = (case kind s c of Some ty \<Rightarrow> ty | None \<Rightarrow> File)"

definition dirents :: "dir_entry \<Rightarrow> ('pc, 'dev) ramfs \<Rightarrow> dirent list" where
  "dirents d s = (DOT, the (de_this d), Dir, 0) # (DOTDOT, the (de_parent d), Dir, 1)
     # map (\<lambda>(k, nm, c). (nm, c, type_of s c, k + 2)) (idxes_and_items (de_children d))"

definition off_of :: "dirent \<Rightarrow> nat" where "off_of e = (case e of (_, _, _, k) \<Rightarrow> k)"

definition dirents_from :: "nat \<Rightarrow> dir_entry \<Rightarrow> ('pc, 'dev) ramfs \<Rightarrow> dirent list" where
  "dirents_from k d s = filter (\<lambda>e. k \<le> off_of e) (dirents d s)"

text \<open>Entries handed to a visitor until it refuses one: how many it took, its answer and its state.\<close>

fun feed :: "'v visitor \<Rightarrow> dirent list \<Rightarrow> 'v \<Rightarrow> nat \<times> unit res \<times> 'v" where
  "feed visit [] v = (0, Ok (), v)"
| "feed visit (e # es) v = (case visit e v of
     (Inl err, v') \<Rightarrow> (0, Inl err, v')
   | (Inr _, v') \<Rightarrow> (let (n, r, v'') = feed visit es v' in (n + 1, r, v'')))"

text \<open>The index after the first \<open>n\<close> entries of a list.\<close>

definition next_idx :: "nat \<Rightarrow> dirent list \<Rightarrow> nat \<Rightarrow> nat" where
  "next_idx k es n = (if n = 0 then k else off_of (es ! (n - 1)) + 1)"

definition child_dirent :: "('pc, 'dev) ramfs \<Rightarrow> nat \<times> name \<times> nat \<Rightarrow> dirent" where
  "child_dirent s = (\<lambda>(off, nm, c). (nm, c, type_of s c, off))"

lemma feed_le: "feed visit es v = (n, r, v') \<Longrightarrow> n \<le> length es \<and> (r = Ok () \<longrightarrow> n = length es)"
  by (induction es arbitrary: v n r v') (auto split: prod.splits sum.splits)

lemma visit_one_eq:
  assumes "rf_ok s" "kind s c = Some ty"
  shows "visit_one visit nm c s off v = visit (nm, c, ty, off) v"
proof -
  from assms(2) obtain n where n: "rf_inodes s c = Some n" "ri_type n = ty" by (auto simp: kind_def)
  then show ?thesis using inode_ok_ids(1) [OF rf_okD(4) [OF assms(1) n(1)]] by (simp add: visit_one_def type_at_def)
qed

lemma visit_children_feed:
  assumes ok: "rf_ok s" and cs: "\<forall>(off, nm, c) \<in> set cs. utf8_valid nm \<and> kind s c \<noteq> None"
  shows "visit_children visit s cs idx v = (let (n, r, v') = feed visit (map (child_dirent s) cs) v in (r, next_idx idx (map (child_dirent s) cs) n, v'))"
  using cs
proof (induction cs arbitrary: idx v)
  case (Cons x cs)
  obtain off nm c where x: "x = (off, nm, c)" by (cases x)
  with Cons.prems obtain ty where ty: "kind s c = Some ty" "utf8_valid nm" by auto
  have e: "child_dirent s x = (nm, c, ty, off)" using ty x by (simp add: child_dirent_def type_of_def)
  obtain a v1 where a: "visit (nm, c, ty, off) v = (a, v1)" by (cases "visit (nm, c, ty, off) v")
  obtain n r v2 where f: "feed visit (map (child_dirent s) cs) v1 = (n, r, v2)" by (cases "feed visit (map (child_dirent s) cs) v1")
  have IH: "visit_children visit s cs idx' v1 = (r, next_idx idx' (map (child_dirent s) cs) n, v2)" for idx'
    using Cons.IH [of idx' v1] Cons.prems f by simp
  show ?case
  proof (cases a)
    case (Inl err)
    then show ?thesis using a e x ty by (simp add: as_str_def visit_one_eq [OF ok ty(1)] next_idx_def)
  next
    case (Inr u)
    then show ?thesis using a e x ty f IH
      by (cases n) (simp_all add: as_str_def visit_one_eq [OF ok ty(1)] next_idx_def off_of_def)
  qed
qed (simp add: next_idx_def)

lemma dropWhile_sorted: "sorted_wrt (<) (map f xs) \<Longrightarrow> dropWhile (\<lambda>x. f x < k) xs = filter (\<lambda>x. k \<le> f x) xs" for f :: "'a \<Rightarrow> nat"
proof (induction xs)
  case (Cons x xs)
  show ?case
  proof (cases "f x < k")
    case False
    then have "\<forall>y \<in> set xs. k \<le> f y" using Cons.prems by fastforce
    then show ?thesis using False by (simp add: filter_id_conv)
  qed (use Cons in simp)
qed simp

lemma enumerate_sorted: "sorted_wrt (<) (map fst (filter P (enumerate i xs)))"
proof -
  have "sorted_wrt (<) (map fst (enumerate i xs))" by (simp add: sorted_wrt_upt)
  then show ?thesis unfolding sorted_wrt_map by (rule sorted_wrt_filter)
qed

lemma idxes_sorted: "sorted_wrt (<) (map fst (idxes_and_items v))"
proof -
  have "map fst (idxes_and_items v) = map fst (filter (\<lambda>(_, x). x \<noteq> None) (enumerate 0 (slots v)))"
    by (simp add: idxes_and_items_def case_prod_unfold comp_def)
  then show ?thesis using enumerate_sorted by metis
qed

text \<open>The children at and after an index.\<close>

lemma children_from:
  assumes "2 \<le> k"
  shows "map (child_dirent s) (dropWhile (\<lambda>(off, _). off < k) (child_offsets d)) = dirents_from k d s"
proof -
  have "sorted_wrt (<) (map fst (child_offsets d))"
    using idxes_sorted [of "de_children d"] by (simp add: child_offsets_def case_prod_unfold comp_def sorted_wrt_map)
  from dropWhile_sorted [OF this, of k] have "dropWhile (\<lambda>(off, _). off < k) (child_offsets d) = filter (\<lambda>x. k \<le> fst x) (child_offsets d)"
    by (simp add: case_prod_unfold)
  then show ?thesis using assms
    by (simp add: dirents_from_def dirents_def child_offsets_def child_dirent_def off_of_def filter_map comp_def case_prod_unfold)
qed

lemma dirents_from_01:
  "dirents_from 0 d s = (DOT, the (de_this d), Dir, 0) # dirents_from 1 d s"
  "dirents_from 1 d s = (DOTDOT, the (de_parent d), Dir, 1) # dirents_from 2 d s"
  by (auto simp: dirents_from_def dirents_def off_of_def filter_map comp_def case_prod_unfold Suc_le_eq intro!: filter_cong)

lemma next_idx_Cons: "next_idx k (e # es) (n + 1) = next_idx (off_of e + 1) es n"
  by (cases n) (simp_all add: next_idx_def)

text \<open>\<open>try_visit\<close> hands the entries from the index on to the visitor.\<close>

definition fed :: "'v visitor \<Rightarrow> nat \<Rightarrow> dir_entry \<Rightarrow> ('pc, 'dev) ramfs \<Rightarrow> 'v \<Rightarrow> unit res \<times> nat \<times> 'v" where
  "fed visit k d s v = (let (n, r, v') = feed visit (dirents_from k d s) v in (r, next_idx k (dirents_from k d s) n, v'))"

lemma fed_children:
  assumes ok: "rf_ok s" and d: "dir_ok (kind s) i d" and k: "2 \<le> k"
  shows "visit_children visit s (dropWhile (\<lambda>(off, _). off < k) (child_offsets d)) k v = fed visit k d s v"
proof -
  let ?cs = "dropWhile (\<lambda>(off, _). off < k) (child_offsets d)"
  have "set ?cs \<subseteq> set (child_offsets d)" by (rule set_dropWhileD [THEN subsetI])
  moreover have "\<forall>(off, nm, c) \<in> set (child_offsets d). utf8_valid nm \<and> kind s c \<noteq> None"
    using d by (auto simp: child_offsets_def idxes_and_items_iff dir_ok_def slots_ok_def entry_name_def)
  ultimately have "\<forall>(off, nm, c) \<in> set ?cs. utf8_valid nm \<and> kind s c \<noteq> None" by blast
  from visit_children_feed [OF ok this] show ?thesis by (simp add: fed_def children_from [OF k])
qed

lemma fed_Cons:
  assumes "dirents_from k d s = e # dirents_from j d s" "off_of e = k" "j = k + 1"
  shows "fed visit k d s v = (case visit e v of (Inl err, v') \<Rightarrow> (Inl err, k, v') | (Inr _, v') \<Rightarrow> fed visit j d s v')"
  using assms by (auto simp: fed_def next_idx_def split: prod.splits sum.splits)

lemma try_visit_fed:
  assumes ok: "rf_ok s" and i: "dir_ok (kind s) i d" "kind s i = Some Dir"
  shows "try_visit visit s d k v = fed visit k d s v"
proof -
  from i(1) obtain p where t: "de_this d = Some i" and p: "de_parent d = Some p" "kind s p = Some Dir" by (auto simp: dir_ok_def)
  have e0: "visit_special visit DOT (de_this d) s 0 v = visit (DOT, the (de_this d), Dir, 0) v" for v
    using t by (simp add: visit_special_def upgrade_def visit_one_eq [OF ok i(2)])
  have e1: "visit_special visit DOTDOT (de_parent d) s 1 v = visit (DOTDOT, the (de_parent d), Dir, 1) v" for v
    using p by (simp add: visit_special_def upgrade_def visit_one_eq [OF ok p(2)])
  note c = fed_children [OF ok i(1)]
  have f0: "fed visit 0 d s v = (case visit (DOT, the (de_this d), Dir, 0) v of (Inl err, v') \<Rightarrow> (Inl err, 0, v') | (Inr _, v') \<Rightarrow> fed visit 1 d s v')" for v
    by (rule fed_Cons [OF dirents_from_01(1)]) (simp_all add: off_of_def)
  have f1: "fed visit 1 d s v = (case visit (DOTDOT, the (de_parent d), Dir, 1) v of (Inl err, v') \<Rightarrow> (Inl err, 1, v') | (Inr _, v') \<Rightarrow> fed visit 2 d s v')" for v
    by (rule fed_Cons [OF dirents_from_01(2)]) (simp_all add: off_of_def)
  have k1: "try_visit visit s d 1 v = fed visit 1 d s v" for v
    unfolding f1 try_visit_def using c [of 2] e1 by (auto simp: Let_def numeral_2_eq_2 split: prod.splits sum.splits)
  have k0: "try_visit visit s d 0 v = (case visit (DOT, the (de_this d), Dir, 0) v of (Inl err, v') \<Rightarrow> (Inl err, 0, v') | (Inr _, v') \<Rightarrow> try_visit visit s d 1 v')"
    unfolding try_visit_def using e0 by (auto simp: Let_def split: prod.splits sum.splits)
  consider "k = 0" | "k = 1" | "2 \<le> k" by linarith
  then show ?thesis
  proof cases
    case 1
    have "try_visit visit s d 0 v = fed visit 0 d s v" unfolding k0 k1 f0 ..
    with 1 show ?thesis by simp
  next
    case 2
    then show ?thesis using k1 by simp
  next
    case 3
    then show ?thesis using c [OF 3] by (simp add: try_visit_def Let_def)
  qed
qed

lemma dirents_sorted: "sorted_wrt (<) (map off_of (dirents_from k d s))"
proof -
  have "sorted_wrt (<) (map off_of (dirents d s))"
    using idxes_sorted [of "de_children d"] by (auto simp: dirents_def off_of_def case_prod_unfold comp_def sorted_wrt_map)
  then show ?thesis unfolding dirents_from_def sorted_wrt_map by (rule sorted_wrt_filter)
qed

lemma filter_after:
  fixes f :: "'a \<Rightarrow> nat"
  assumes "sorted_wrt (<) (map f xs)" "m < length xs"
  shows "filter (\<lambda>x. f (xs ! m) < f x) xs = drop (m + 1) xs"
  using assms
proof (induction xs arbitrary: m)
  case (Cons x xs)
  show ?case
  proof (cases m)
    case 0
    then show ?thesis using Cons.prems by (auto simp: filter_id_conv)
  next
    case (Suc j)
    have "f x < f (xs ! j)" using Cons.prems Suc by auto
    then have "\<not> f (xs ! j) < f x" by simp
    then show ?thesis using Cons.IH [of j] Cons.prems Suc by simp
  qed
qed simp

lemma dirents_resume:
  assumes "m \<le> length (dirents_from k d s)" "0 < m"
  shows "k \<le> next_idx k (dirents_from k d s) m" "dirents_from (next_idx k (dirents_from k d s) m) d s = drop m (dirents_from k d s)"
proof -
  let ?E = "dirents_from k d s"
  obtain j where m: "m = j + 1" "j < length ?E" using assms by (cases m) auto
  have "?E ! j \<in> set ?E" using m(2) by simp
  then have ge: "k \<le> off_of (?E ! j)" by (simp add: dirents_from_def)
  have nx: "next_idx k ?E m = off_of (?E ! j) + 1" using m by (simp add: next_idx_def)
  show "k \<le> next_idx k ?E m" using nx ge by simp
  have "dirents_from (next_idx k ?E m) d s = filter (\<lambda>e. off_of (?E ! j) < off_of e) ?E"
    unfolding nx using ge by (auto simp: dirents_from_def intro!: filter_cong)
  then show "dirents_from (next_idx k ?E m) d s = drop m ?E" using filter_after [OF dirents_sorted m(2)] m(1) by simp
qed

lemma feed_no_panic:
  assumes "\<And>e v. fst (visit e v) \<noteq> panic" "feed visit es v = (n, r, v')"
  shows "r \<noteq> panic"
  using assms(2)
proof (induction es arbitrary: v n)
  case (Cons e es)
  then show ?case using assms(1) [of e v] by (auto split: prod.splits sum.splits)
qed auto

text \<open>(C29) A listing can be resumed: in a directory of a file system that any run has left, \<open>readdir_at\<close> from an offset hands the entries from
  that offset on, \<open>.\<close> and \<open>..\<close> first, to the visitor in order until the visitor refuses one. If the visitor took none, its error
  is returned. Otherwise the number returned is such that the offset advanced by it selects exactly the entries that were not
  taken, so that a caller who continues from there misses no entry and sees none twice.
\<close>

theorem readdir_resumes:
  assumes run: "ops_ok ops empty_fs" "s = snd (run_ops ops ramfs_new)" and n: "rf_inodes s i = Some n" "in_inner n = DirInner d"
    and visit: "\<And>e v. fst (visit e v) \<noteq> panic" and feed: "feed visit (dirents_from k d s) v = (m, r, v')"
  shows "snd (ri_readdir_at visit i k s v) = v'
    \<and> (if m = 0 then fst (ri_readdir_at visit i k s v) = (case r of Inl e \<Rightarrow> Inl e | Inr _ \<Rightarrow> Ok 0)
       else \<exists>c. fst (ri_readdir_at visit i k s v) = Ok c \<and> dirents_from (k + c) d s = drop m (dirents_from k d s))"
proof -
  have ok: "rf_ok s" using run_new [OF run(1)] run(2) by (simp add: fs_inv_def)
  have dir: "dir_ok (kind s) i d" "ri_type n = Dir" using rf_okD(4) [OF ok n(1)] n(2) by (simp_all add: inode_ok_def inner_ok_def ri_type_def)
  then have ki: "kind s i = Some Dir" using n(1) by (simp add: kind_def)
  have t: "try_visit visit s d k v = (r, next_idx k (dirents_from k d s) m, v')"
    using try_visit_fed [OF ok dir(1) ki, of visit k v] feed by (simp add: fed_def)
  have np: "r \<noteq> panic" by (rule feed_no_panic [OF visit feed])
  have rd: "ri_readdir_at visit i k s v = visit_entry visit s d k v"
    using n dir(2) by (simp add: ri_readdir_at_def as_direntry_def)
  have le: "m \<le> length (dirents_from k d s)" using feed_le [OF feed] by simp
  show ?thesis
  proof (cases "m = 0")
    case True
    then show ?thesis using t np unfolding rd visit_entry_def
      by (cases r) (auto simp: next_idx_def split: fault.splits)
  next
    case False
    note res = dirents_resume [OF le] False
    have ne: "k \<noteq> next_idx k (dirents_from k d s) m"
    proof -
      have "dirents_from k d s ! (m - 1) \<in> set (dirents_from k d s)" using le False by simp
      then show ?thesis using False by (simp add: next_idx_def dirents_from_def)
    qed
    have "ri_readdir_at visit i k s v = (Ok (next_idx k (dirents_from k d s) m - k), v')"
      using t np ne unfolding rd visit_entry_def by (cases r) (auto split: fault.splits)
    then show ?thesis using res False by auto
  qed
qed

text \<open>A visitor that collects up to a number of entries, as a caller with a bounded buffer does.\<close>

definition collect :: "(nat \<times> dirent list) visitor" where
  "collect e = (\<lambda>(b, acc). if b = 0 then (Err EINVAL, (b, acc)) else (Ok (), (b - 1, acc @ [e])))"

lemma collect_no_panic: "fst (collect e v) \<noteq> panic"
  by (simp add: collect_def split: prod.splits)

definition ex_create :: "(unit, unit) ramfs_op list" where
  "ex_create = [OpCreate () 1 [102] File 0x1A4]"

lemmas run_simps = run_op.simps ino_op_def ri_create_def dir_of_def rd_def as_direntry_def contains_entry_def sr_bind_def sr_lift_def sr_return_def sr_mod_def
  new_file_def new_inode_def alloc_id_def add_child_def wr_def upd_dir_def append_entry_def cstr256_def ramfs_new_def dir_init_def set_parent_def
  dir_entry_new_def sv_new_def sv_iter_def sv_put_def ri_type_def metadata_new_dir_def metadata_new_file_def inc_size_def BLOCK_SIZE_def

lemma ex_create_state:
  "\<exists>n d. rf_inodes (snd (run_ops ex_create ramfs_new)) 1 = Some n \<and> in_inner n = DirInner d
     \<and> dirents d (snd (run_ops ex_create ramfs_new)) = [(DOT, 1, Dir, 0), (DOTDOT, 1, Dir, 1), ([102], 2, File, 2)]"
  by (simp add: ex_create_def ex_simps run_simps dirents_def idxes_and_items_def type_of_def kind_def)

theorem readdir_resumes_witness:
  "fst (ri_readdir_at collect 1 0 (snd (run_ops ex_create ramfs_new)) (2, [])) = Ok 2
   \<and> snd (snd (ri_readdir_at collect 1 0 (snd (run_ops ex_create ramfs_new)) (2, []))) = [(DOT, 1, Dir, 0), (DOTDOT, 1, Dir, 1)]"
proof -
  let ?s = "snd (run_ops ex_create ramfs_new)"
  from ex_create_state obtain n d where n: "rf_inodes ?s 1 = Some n" "in_inner n = DirInner d"
    "dirents d ?s = [(DOT, 1, Dir, 0), (DOTDOT, 1, Dir, 1), ([102], 2, File, 2)]" by blast
  have ok: "ops_ok ex_create empty_fs" by (simp add: ex_create_def ex_simps)
  have E: "dirents_from k d ?s = filter (\<lambda>e. k \<le> off_of e) [(DOT, 1, Dir, 0), (DOTDOT, 1, Dir, 1), ([102], 2, File, 2)]" for k
    by (simp only: dirents_from_def n(3))
  have f: "feed collect (dirents_from 0 d ?s) (2, []) = (2, Err EINVAL, (0, [(DOT, 1, Dir, 0), (DOTDOT, 1, Dir, 1)]))"
    by (simp add: E off_of_def collect_def)
  from readdir_resumes [where visit = collect, OF ok refl n(1,2) collect_no_panic f] obtain c where
    c: "snd (ri_readdir_at collect 1 0 ?s (2, [])) = (0, [(DOT, 1, Dir, 0), (DOTDOT, 1, Dir, 1)])"
      "fst (ri_readdir_at collect 1 0 ?s (2, [])) = Ok c" "dirents_from c d ?s = drop 2 (dirents_from 0 d ?s)" by auto
  have "c = 2"
    using c(3) by (auto simp: E off_of_def split: if_splits)
  then show ?thesis using c by simp
qed

text \<open>A symbolic link reads as it was written last.\<close>

lemma read_write_link:
  assumes "rf_ok s" "kind s self = Some SymLink"
  shows "ri_read_link self (snd (ri_write_link self tgt s)) = (Ok tgt, snd (ri_write_link self tgt s))"
proof -
  have "ri_type n = SymLink" if "rf_inodes s self = Some n" for n using assms(2) that by (simp add: kind_def)
  then show ?thesis
    using write_link_state [OF assms, of tgt] by (auto simp: ri_read_link_def rd_eq sr_bind_def sr_return_def ri_type_def)
qed

end
