(* ===== verification/Spec2Isabelle.thy ===== *)
theory Spec2Isabelle
  imports Align_Ext Slot_Vec Id_Alloc Recycle_Allocator Memory_Region Credentials Rw_Lock Subject File_Table
    Signal_Queues Signal_Delivery Process_Lifecycle Channel Line_Discipline Vm_Access Ramfs_Run
begin

text \<open>
  Verification development of the Asterinas kernel: the framework \<open>aster-frame\<close> (\<open>framework/aster-frame/src\<close>), the
  kernel \<open>aster-nix\<close> (\<open>kernel/aster-nix/src\<close>) and libraries they share. Paths below are relative to these directories
  or to the root of the sources.

  \<^bold>\<open>The program and its parts.\<close> The framework owns the machine. At boot it turns the firmware's memory map into usable
  regions and hands their frames to the frame allocator; frames are read and written as bytes, page tables are built from
  them, and a \<open>VmSpace\<close> joins a page table with the areas a process has mapped. Its locks and its allocator of interrupt
  numbers serve the kernel. The kernel keeps processes in groups and sessions, creates them by \<open>clone\<close>, ends them
  by \<open>exit\<close> and \<open>wait\<close>, checks their credentials, delivers signals to their threads, and gives them files through a table
  of descriptors. Files are pipes and sockets over channels, terminals over the line discipline, and the inodes of file
  systems. Channels, terminals and descriptor tables tell pollers and observers about events through subjects.

  \<^bold>\<open>Conventions\<close> (\<open>Prelude\<close>). Code that can fail returns \<open>fault + 'a\<close>, where a fault is an error number or a panic, so that
  every early return, \<open>unwrap\<close> and assertion is a branch. Stateful code is a function from the state to a result and the
  new state. Machine integers are words, or naturals with the wrap-around or the overflow check written out. A Rust
  reference is the address, number or index of what it refers to.

  \<^bold>\<open>Theories.\<close>
  \<^item> \<open>Align_Ext\<close>: \<open>framework/libs/align_ext\<close>, rounding by masks agrees with arithmetic.
  \<^item> \<open>Id_Pool\<close>: the contract of an identifier allocator as a locale. \<open>Slot_Vec\<close> (\<open>aster-util/src/slot_vec.rs\<close>),
    \<open>Id_Alloc\<close> (\<open>id_allocator.rs\<close>) and \<open>Recycle_Allocator\<close> (\<open>util/recycle_allocator.rs\<close>) interpret it: no identifier is handed
    out twice. A slot vector is a map, the bitmap allocator takes the lowest free bit.
  \<^item> \<open>Memory_Region\<close>: \<open>boot/memory_region.rs\<close> and the frame ranges of \<open>vm/frame_allocator.rs\<close>; the frames handed over lie in
    usable memory and in no other region.
  \<^item> \<open>Frames\<close>: \<open>vm/frame.rs\<close>, \<open>vm/options.rs\<close> and allocation. Byte access through readers and writers; the locale \<open>vm_io\<close>
    is the contract of the trait \<open>VmIo\<close>, with the round trip proved once and interpreted for frames, vectors of frames and
    segments.
  \<^item> \<open>Page_Table\<close>: \<open>vm/page_table.rs\<close> and \<open>arch/x86/mm/mod.rs\<close>. The tables in memory implement a map from pages to entries.
  \<^item> \<open>Btree_Map\<close>, \<open>Vm_Space\<close>, \<open>Vm_Access\<close>: \<open>vm/memory_set.rs\<close> and \<open>vm/space.rs\<close>. An address space is a map from pages to frames
    with flags; kernel writes respect the flags and read back; a copy has tables of its own.
  \<^item> \<open>Rw_Lock\<close>: \<open>sync/rwlock.rs\<close>, each atomic access a step of an interleaving of threads; exclusion of writers and exactness
    of the lock word by an invariant over reachable states.
  \<^item> \<open>Credentials\<close>: \<open>process/credentials/\<close> and the \<open>set*id\<close> calls. The locale \<open>checked_ids\<close> is interpreted for user and group
    ids.
  \<^item> \<open>Subject\<close>: \<open>events/subject.rs\<close>. \<open>File_Table\<close>: \<open>fs/file_table.rs\<close> on slot vectors and subjects, with \<open>close\<close>, \<open>dup\<close>, \<open>dup2\<close> and
    \<open>fcntl\<close>. \<open>Channel\<close>: \<open>process/signal/poll.rs\<close>, \<open>events/io_events.rs\<close> and \<open>fs/utils/channel.rs\<close>, sequentially and in the steps
    between which other threads run. \<open>Line_Discipline\<close>: \<open>device/tty/termio.rs\<close> and \<open>line_discipline.rs\<close>.
  \<^item> \<open>Signal_Queues\<close> and \<open>Signal_Delivery\<close>: \<open>process/signal/\<close>, \<open>process/kill.rs\<close> and the signal calls: order of delivery, who
    may send, the signal frame on the user's stack and the return from a handler.
  \<^item> \<open>Process_Groups\<close>: \<open>process/process/\<close> and the session calls. \<open>Process_Lifecycle\<close>: \<open>process/clone.rs\<close>, \<open>exit.rs\<close> and \<open>wait.rs\<close>;
    the process, group and session tables agree in every state reachable from the first process, and a child that exits can
    be waited for.
  \<^item> \<open>Ramfs\<close>: \<open>fs/ramfs/fs.rs\<close> with the metadata of \<open>fs/utils/inode.rs\<close> and the names of \<open>fs/utils/mod.rs\<close>, on slot vectors.
    \<open>Ramfs_Inv\<close> has the typing of inodes and the effect of each step; \<open>Ramfs_Spec\<close> the abstract operations on name spaces with
    the invariant of trees and link counts; \<open>Ramfs_Refine\<close> that each operation implements its abstract one; \<open>Ramfs_Run\<close> the
    properties of runs: refinement, type safety, link counts, and listings that can be resumed.

  \<^bold>\<open>Bounds.\<close> Loops over finite data are structural recursion or have a termination proof, so that no result depends on
  fuel. Code that waits is modelled by one attempt, which says whether the caller has to wait. Hypotheses that bound
  a quantity are there because the code relies on them: fewer than \<open>2 ^ 59\<close> threads at a lock, so that the count of readers,
  with the attempts under way, stays within its field; descriptor tables below \<open>2 ^ 31\<close> slots, since a descriptor is an \<open>i32\<close>;
  the thread counter below \<open>2 ^ 32\<close> and the inode counter below \<open>2 ^ 64\<close>, since they wrap without a check and no system
  creates so many; three free frames for each page mapped, the most tables one walk creates; user addresses below
  \<open>2 ^ 47\<close>; names of \<open>link\<close> and \<open>rename\<close> in the in-memory file system no longer than \<open>NAME_MAX\<close>, which the code does not check.

  \<^bold>\<open>Parameters.\<close> Crates outside the repository are arguments, with their documented behaviour as named hypotheses: the
  buddy allocator (\<open>fa\<close>), the ring buffers (\<open>ringbuf_ok\<close>, \<open>tty_rb_ok\<close>), the conversion of a byte slice to a bit vector, the
  addresses the TLB flush accepts (\<open>canon\<close>), and the register block of a thread. Accesses to user memory by the signal and
  process calls are arguments too, and so are the page cache and the devices behind the inodes of the in-memory file system.

  \<^bold>\<open>Not modelled.\<close> Of the modelled files: reference counts and the \<open>Drop\<close> implementations of frames, the futex words and robust
  lists of exiting threads, timeouts, and the reading, writing and resizing of regular files, which go to the page cache.
  The memory objects and memory areas of \<open>vm/vmo\<close> and \<open>vm/vmar\<close>, the page cache, ext2, the dentry cache, procfs, devpts, epoll,
  pseudo terminals, futexes, program loading and the cpio decoder are left for further work: each rests on a crate
  (\<open>xarray\<close>, \<open>lru\<close>, \<open>xmas-elf\<close>) or on blocking through the scheduler. The network stack is an adapter of \<open>smoltcp\<close>. The
  scheduler, context switches, boot code, traps, interrupt controllers, buses, DMA, the IOMMU and the drivers are
  assembly and accesses to device registers, whose behaviour is not in the sources. The procedural macros, the type-level
  flags, the boot image builder, the test framework and \<open>osdk\<close> run at build time.
\<close>

end
